(* ===== verification/Prelude.thy ===== *)
theory Prelude imports Main "HOL-Library.Word" begin

text \<open>
  Vocabulary shared by every component: the C integers the sources use, the \<open>errno\<close> values they
  test, the answer of a system call, the outcome of a C function that may call \<open>exit()\<close>, C buffers
  as the sources pass them to \<open>printf("%s")\<close>, and the generic lemmas on lists and words the
  component theories rest on.
\<close>

section \<open>Collections of facts\<close>

named_theorems buffer_simps \<open>facts on C buffers\<close>
named_theorems machine_simps \<open>definitions of machine constants\<close>

section \<open>C integers\<close>

type_synonym byte = "8 word"
type_synonym int32 = "32 word"      \<comment> \<open>\<open>int\<close>\<close>
type_synonym size64 = "64 word"     \<comment> \<open>\<open>size_t\<close> and \<open>ssize_t\<close>\<close>

text \<open>\<open>(int) x\<close> of an \<open>ssize_t\<close> keeps the low 32 bits; \<open>(ssize_t) x\<close> of an \<open>int\<close> sign-extends.\<close>

definition int_of_ssize :: "size64 \<Rightarrow> int32" where
  "int_of_ssize x = ucast x"

definition ssize_of_int :: "int32 \<Rightarrow> size64" where
  "ssize_of_int x = scast x"

text \<open>
  A shared counter of type \<open>int\<close> is kept as an \<open>int\<close> in the range of \<open>int32\<close>. Its overflow is
  undefined in C; on the machine the sum wraps around, as \<open>wrap32\<close> says, and the properties state
  the bound under which it does not happen.
\<close>

definition wrap32 :: "int \<Rightarrow> int" where
  "wrap32 n = (n + 2 ^ 31) mod 2 ^ 32 - 2 ^ 31"

lemma wrap32_id: "- (2 ^ 31) \<le> n \<Longrightarrow> n < 2 ^ 31 \<Longrightarrow> wrap32 n = n"
  by (simp add: wrap32_def)

lemma wrap32_add [simp]: "wrap32 (wrap32 m + n) = wrap32 (m + n)"
  by (simp add: wrap32_def mod_add_left_eq mod_add_right_eq ac_simps)

lemma wrap32_int32: "wrap32 n = sint (word_of_int n :: int32)"
  by (simp add: wrap32_def signed_of_int signed_take_bit_eq_take_bit_shift take_bit_eq_mod)

text \<open>The most bytes one \<open>read\<close> or \<open>write\<close> of Linux moves.\<close>

definition MAX_RW_COUNT :: nat where
  "MAX_RW_COUNT = 0x7ffff000"

lemma MAX_RW_COUNT_less [machine_simps]: "n \<le> MAX_RW_COUNT \<Longrightarrow> n < 2 ^ 31"
  by (simp add: MAX_RW_COUNT_def)

lemma sint_of_nat_small: "n < 2 ^ 63 \<Longrightarrow> sint (of_nat n :: size64) = int n"
  by (simp add: signed_of_nat signed_take_bit_int_eq_self_iff)

lemma sint_negative:
  assumes "2 ^ 63 \<le> uint (x :: size64)"
  shows "sint x < 0"
proof (rule ccontr)
  assume "\<not> sint x < 0"
  moreover have "sint x < 2 ^ 63" using sint_lt [of x] by simp
  ultimately have "take_bit 64 (sint x) = sint x" by (simp add: take_bit_int_eq_self_iff)
  moreover have "take_bit 64 (sint x) = uint x"
    using unsigned_less [of x, where 'a = int]
    by (simp add: take_bit_signed_take_bit sint_uint take_bit_int_eq_self_iff)
  ultimately show False using assms \<open>sint x < 2 ^ 63\<close> by simp
qed

lemma sint_int_of_ssize_small:
  assumes "n < 2 ^ 31"
  shows "sint (int_of_ssize (of_nat n)) = int n"
proof -
  have "(ucast (of_nat n :: size64) :: int32) = of_nat n"
    by (rule bit_word_eqI) (simp add: bit_simps)
  with assms show ?thesis
    by (simp add: int_of_ssize_def signed_of_nat signed_take_bit_int_eq_self_iff)
qed

lemma unat_less_sub: "n \<le> unat (x :: 'a::len word) \<Longrightarrow> unat (x - of_nat n) = unat x - n"
  by (simp add: unat_sub word_le_nat_alt unat_of_nat le_less_trans [OF _ unsigned_less])

lemma ssize_int_roundtrip:
  assumes "n < 2 ^ 31"
  shows "ssize_of_int (int_of_ssize (of_nat n)) = of_nat n"
  using sint_int_of_ssize_small [OF assms]
  by (simp add: ssize_of_int_def scast_eq)

lemma int_of_ssize_not_error:
  assumes "n < 2 ^ 31"
  shows "int_of_ssize (of_nat n) \<noteq> - 1"
  using sint_int_of_ssize_small [OF assms] by auto

section \<open>\<open>errno\<close>, system calls and \<open>exit\<close>\<close>

text \<open>\<open>ENONE\<close> is the initial \<open>errno\<close>; the numbers are those of Linux.\<close>

datatype errno = ENONE | EPERM | ENOENT | ESRCH | EINTR | EIO | EBADF | ECHILD | EAGAIN | ENOMEM
  | EACCES | EFAULT | EBUSY | EEXIST | EINVAL | EPIPE | EDEADLK | EOVERFLOW | ECONNABORTED | ECONNRESET

abbreviation EWOULDBLOCK :: errno where "EWOULDBLOCK \<equiv> EAGAIN"
abbreviation EDEADLOCK :: errno where "EDEADLOCK \<equiv> EDEADLK"

fun errno_value :: "errno \<Rightarrow> nat" where
  "errno_value ENONE = 0" | "errno_value EPERM = 1" | "errno_value ENOENT = 2" | "errno_value ESRCH = 3"
| "errno_value EINTR = 4" | "errno_value EIO = 5" | "errno_value EBADF = 9"
| "errno_value ECHILD = 10" | "errno_value EAGAIN = 11" | "errno_value ENOMEM = 12"
| "errno_value EACCES = 13" | "errno_value EFAULT = 14" | "errno_value EBUSY = 16" | "errno_value EEXIST = 17"
| "errno_value EINVAL = 22" | "errno_value EPIPE = 32" | "errno_value EDEADLK = 35" | "errno_value EOVERFLOW = 75"
| "errno_value ECONNABORTED = 103" | "errno_value ECONNRESET = 104"

text \<open>A system call returns a value, or \<open>-1\<close> with \<open>errno\<close> set.\<close>

datatype 'a sysres = Ok 'a | Err errno

text \<open>
  A C function returns to its caller, ends the process with an exit status, or does what C leaves
  undefined (calls a null pointer, writes outside its array).
\<close>

datatype 'a outcome = Return 'a | Exit nat | Fault

fun and_then :: "'a outcome \<Rightarrow> ('a \<Rightarrow> 'b outcome) \<Rightarrow> 'b outcome" where
  "and_then (Return x) f = f x"
| "and_then (Exit n) f = Exit n"
| "and_then Fault f = Fault"

lemma and_then_Return_iff: "and_then m f = Return y \<longleftrightarrow> (\<exists>x. m = Return x \<and> f x = Return y)"
  by (cases m) auto

definition EXIT_SUCCESS :: nat where [machine_simps]: "EXIT_SUCCESS = 0"
definition EXIT_FAILURE :: nat where [machine_simps]: "EXIT_FAILURE = 1"

section \<open>Lists\<close>

lemma sum_list_map_update:
  "i < length xs \<Longrightarrow> sum_list (map f (xs[i := x])) = sum_list (map f xs) - f (xs ! i) + (f x :: int)"
proof (induction xs arbitrary: i)
  case (Cons y ys)
  then show ?case by (cases i) auto
qed simp

lemma map_update_same: "i < length xs \<Longrightarrow> f x = f (xs ! i) \<Longrightarrow> map f (xs[i := x]) = map f xs"
  by (metis length_map list_update_id map_update nth_map)

lemma nth_update_read: "i < length xs \<Longrightarrow> xs[j := x] ! i = (if i = j then x else xs ! i)"
  by (auto simp: nth_list_update)

lemma list_all_update: "list_all P xs \<Longrightarrow> P x \<Longrightarrow> list_all P (xs[i := x])"
  using set_update_subset_insert [of xs i x] by (auto simp: list_all_iff)

section \<open>C buffers\<close>

text \<open>
  A \<open>char buf[N] = {0}\<close> after \<open>read(fd, buf, N)\<close> has stored \<open>data\<close>, what \<open>printf("%s", buf)\<close>
  prints, and whether it stops inside the array.
\<close>

definition read_into :: "nat \<Rightarrow> byte list \<Rightarrow> byte list" where
  "read_into N data = data @ replicate (N - length data) 0"

definition c_string :: "byte list \<Rightarrow> byte list" where
  "c_string buf = takeWhile (\<lambda>c. c \<noteq> 0) buf"

definition nul_terminated :: "byte list \<Rightarrow> bool" where
  "nul_terminated buf \<longleftrightarrow> 0 \<in> set buf"

lemma length_read_into [buffer_simps]: "length data \<le> N \<Longrightarrow> length (read_into N data) = N"
  by (simp add: read_into_def)

lemma nul_terminated_read_into [buffer_simps]:
  "nul_terminated (read_into N data) \<longleftrightarrow> length data < N \<or> 0 \<in> set data"
  by (auto simp: nul_terminated_def read_into_def)

lemma c_string_read_into [buffer_simps]:
  "0 \<notin> set data \<Longrightarrow> c_string (read_into N data) = data"
  by (simp add: c_string_def read_into_def takeWhile_append takeWhile_replicate)

end
