(* ===== verification/Systems.thy ===== *)
theory Systems imports Prelude begin

text \<open>
  Transition systems, for the programs whose threads or processes interleave: the reachable states
  of an initial predicate and a step relation, and the interfaces their proofs share, as locales.
  A component interprets \<open>invariant_system\<close> with its invariant, \<open>locked_system\<close> when a mutex guards
  its critical regions, and \<open>refinement_system\<close> when it implements an abstract protocol.
\<close>

section \<open>Reachable states\<close>

inductive reach :: "('s \<Rightarrow> bool) \<Rightarrow> ('s \<Rightarrow> 's \<Rightarrow> bool) \<Rightarrow> 's \<Rightarrow> bool" for init step where
  reach_init: "init s \<Longrightarrow> reach init step s"
| reach_step: "reach init step s \<Longrightarrow> step s t \<Longrightarrow> reach init step t"

lemma reach_steps: "step\<^sup>*\<^sup>* s t \<Longrightarrow> reach init step s \<Longrightarrow> reach init step t"
  by (induction rule: rtranclp_induct) (auto intro: reach_step)

lemma reach_from_init: "init s \<Longrightarrow> step\<^sup>*\<^sup>* s t \<Longrightarrow> reach init step t"
  by (blast intro: reach_steps reach_init)

lemma reach_run: "reach init step t \<Longrightarrow> \<exists>s. init s \<and> step\<^sup>*\<^sup>* s t"
proof (induction rule: reach.induct)
  case (reach_step s t)
  then show ?case by (meson rtranclp.rtrancl_into_rtrancl)
qed blast

text \<open>A state with no successor.\<close>

definition stuck :: "('s \<Rightarrow> 's \<Rightarrow> bool) \<Rightarrow> 's \<Rightarrow> bool" where
  "stuck step s \<longleftrightarrow> (\<forall>t. \<not> step s t)"

text \<open>One more step at either end of a run.\<close>

lemma steps_after: "step\<^sup>*\<^sup>* s t \<Longrightarrow> step t u \<Longrightarrow> step\<^sup>*\<^sup>* s u"
  by (rule rtranclp.rtrancl_into_rtrancl)

lemma steps_before: "step s t \<Longrightarrow> step\<^sup>*\<^sup>* t u \<Longrightarrow> step\<^sup>*\<^sup>* s u"
  by (rule converse_rtranclp_into_rtranclp)

text \<open>A schedule: the threads that move, in order, where \<open>f t\<close> is the step of thread \<open>t\<close>.\<close>

fun run_schedule :: "('t \<Rightarrow> 's \<Rightarrow> 's option) \<Rightarrow> 't list \<Rightarrow> 's \<Rightarrow> 's option" where
  "run_schedule f [] s = Some s"
| "run_schedule f (t # ts) s = (case f t s of None \<Rightarrow> None | Some s' \<Rightarrow> run_schedule f ts s')"

lemma run_schedule_steps:
  assumes "\<And>t s s'. f t s = Some s' \<Longrightarrow> step s s'"
  shows "run_schedule f ts s = Some s' \<Longrightarrow> step\<^sup>*\<^sup>* s s'"
  by (induction ts arbitrary: s) (auto split: option.splits intro: steps_before assms)

lemma run_schedule_reach:
  assumes "\<And>t s s'. f t s = Some s' \<Longrightarrow> step s s'" and "init s" and "run_schedule f ts s = Some s'"
  shows "reach init step s'"
  using assms by (blast intro: reach_from_init run_schedule_steps)

section \<open>Invariants\<close>

locale invariant_system =
  fixes init :: "'s \<Rightarrow> bool"
    and step :: "'s \<Rightarrow> 's \<Rightarrow> bool"
    and inv :: "'s \<Rightarrow> bool"
  assumes inv_init: "init s \<Longrightarrow> inv s"
    and inv_step: "inv s \<Longrightarrow> step s t \<Longrightarrow> inv t"
begin

lemma inv_steps: "step\<^sup>*\<^sup>* s t \<Longrightarrow> inv s \<Longrightarrow> inv t"
  by (induction rule: rtranclp_induct) (auto intro: inv_step)

lemma inv_reach: "reach init step s \<Longrightarrow> inv s"
  by (induction rule: reach.induct) (auto intro: inv_init inv_step)

end

section \<open>Systems whose runs end\<close>

text \<open>
  \<open>left s\<close> bounds the steps that are still possible from \<open>s\<close>: every step lowers it, and it is not
  negative. So no run from \<open>s\<close> has more steps than that.
\<close>

locale bounded_system = invariant_system init step inv
  for init :: "'s \<Rightarrow> bool" and step :: "'s \<Rightarrow> 's \<Rightarrow> bool" and inv :: "'s \<Rightarrow> bool" +
  fixes left :: "'s \<Rightarrow> int"
  assumes left_nonneg: "inv s \<Longrightarrow> 0 \<le> left s"
    and left_step: "inv s \<Longrightarrow> step s t \<Longrightarrow> left t < left s"
begin

lemma inv_run: "inv s \<Longrightarrow> (step ^^ n) s t \<Longrightarrow> inv t"
  by (rule inv_steps [OF relpowp_imp_rtranclp])

lemma run_left: "inv s \<Longrightarrow> (step ^^ n) s t \<Longrightarrow> int n + left t \<le> left s"
proof (induction n arbitrary: t)
  case (Suc n)
  then obtain r where r: "(step ^^ n) s r" "step r t" by auto
  with Suc left_step [OF inv_run [OF Suc.prems(1) r(1)] r(2)] show ?case by fastforce
qed simp

lemma run_bound: "inv s \<Longrightarrow> (step ^^ n) s t \<Longrightarrow> int n \<le> left s"
  using run_left left_nonneg inv_run by fastforce

end

section \<open>Critical regions guarded by one lock\<close>

text \<open>
  \<open>lock_ok h c\<close>: the lock's holder is the one thread that is inside. A step of thread \<open>x\<close> keeps it
  when it takes a free lock and enters, leaves and frees it, or does neither.
\<close>

definition lock_ok :: "'t option \<Rightarrow> ('t \<Rightarrow> bool) \<Rightarrow> bool" where
  "lock_ok h c \<longleftrightarrow> (\<forall>t. c t \<longleftrightarrow> h = Some t)"

lemma lock_ok_step:
  assumes "lock_ok h c" and "\<And>t. t \<noteq> x \<Longrightarrow> c' t = c t"
    and "c' x = c x \<and> h' = h \<or> h = None \<and> h' = Some x \<and> c' x \<or> c x \<and> h' = None \<and> \<not> c' x"
  shows "lock_ok h' c'"
  unfolding lock_ok_def
proof
  fix t
  show "c' t \<longleftrightarrow> h' = Some t"
    using assms unfolding lock_ok_def by (cases "t = x") auto
qed

lemma lock_okD: "lock_ok h c \<Longrightarrow> c t \<Longrightarrow> h = Some t"
  by (simp add: lock_ok_def)

text \<open>
  \<open>holder s\<close> is the thread that holds the lock and \<open>critical s t\<close> says that \<open>t\<close> is inside a
  region the lock guards; the provider promises that only the holder is inside.
\<close>

locale locked_system = invariant_system init step inv
  for init :: "'s \<Rightarrow> bool" and step :: "'s \<Rightarrow> 's \<Rightarrow> bool" and inv :: "'s \<Rightarrow> bool" +
  fixes holder :: "'s \<Rightarrow> 't option"
    and critical :: "'s \<Rightarrow> 't \<Rightarrow> bool"
  assumes critical_holds: "inv s \<Longrightarrow> critical s t \<Longrightarrow> holder s = Some t"
begin

lemma mutual_exclusion:
  assumes "reach init step s" and "critical s t" and "critical s u"
  shows "t = u"
proof -
  from assms(1) have "inv s" by (rule inv_reach)
  with assms(2,3) have "holder s = Some t" "holder s = Some u"
    by (auto intro: critical_holds)
  then show ?thesis by simp
qed

lemma critical_excludes_free: "reach init step s \<Longrightarrow> holder s = None \<Longrightarrow> \<not> critical s t"
  using critical_holds inv_reach by fastforce

end

section \<open>Refinement of an abstract protocol\<close>

text \<open>
  \<open>trace step s as t\<close>: from \<open>s\<close> the actions \<open>as\<close> lead to \<open>t\<close>, one step each. A step of an
  implementation performs a list of observable actions; the implementation refines a protocol when
  the actions of every step are a trace of the protocol between the abstract states.
\<close>

fun trace :: "('s \<Rightarrow> 'l \<Rightarrow> 's \<Rightarrow> bool) \<Rightarrow> 's \<Rightarrow> 'l list \<Rightarrow> 's \<Rightarrow> bool" where
  "trace step s [] t \<longleftrightarrow> t = s"
| "trace step s (a # as) t \<longleftrightarrow> (\<exists>u. step s a u \<and> trace step u as t)"

lemma trace_append: "trace step s (as @ bs) t \<longleftrightarrow> (\<exists>u. trace step s as u \<and> trace step u bs t)"
  by (induction as arbitrary: s) auto

locale refinement_system = invariant_system init step inv
  for init :: "'s \<Rightarrow> bool" and step :: "'s \<Rightarrow> 's \<Rightarrow> bool" and inv :: "'s \<Rightarrow> bool" +
  fixes acts :: "'s \<Rightarrow> 'l list \<Rightarrow> 's \<Rightarrow> bool"
    and ainit :: "'a \<Rightarrow> bool"
    and astep :: "'a \<Rightarrow> 'l \<Rightarrow> 'a \<Rightarrow> bool"
    and abs :: "'s \<Rightarrow> 'a"
  assumes acts_step: "acts s as t \<Longrightarrow> step s t"
    and abs_init: "init s \<Longrightarrow> ainit (abs s)"
    and abs_step: "inv s \<Longrightarrow> acts s as t \<Longrightarrow> trace astep (abs s) as (abs t)"
begin

lemma acts_inv: "trace acts s ass t \<Longrightarrow> inv s \<Longrightarrow> inv t"
  by (induction ass arbitrary: s) (auto dest: acts_step inv_step)

lemma abs_trace: "trace acts s ass t \<Longrightarrow> inv s \<Longrightarrow> trace astep (abs s) (concat ass) (abs t)"
proof (induction ass arbitrary: s)
  case (Cons as ass)
  then obtain u where u: "acts s as u" "trace acts u ass t" by auto
  with Cons.prems(2) have "inv u" by (blast intro: inv_step acts_step)
  with Cons.IH [OF u(2)] abs_step [OF Cons.prems(2) u(1)] show ?case by (auto simp: trace_append)
qed simp

lemma abs_run: "init s \<Longrightarrow> trace acts s ass t \<Longrightarrow> \<exists>a. ainit a \<and> trace astep a (concat ass) (abs t)"
  using abs_trace inv_init abs_init by blast

end

end
