(* ===== verification/HSocket.thy ===== *)
theory HSocket imports Prelude begin

text \<open>
  \<^verbatim>\<open>src/webprogramming/HSocket.c\<close>: the error-checking wrappers around the socket calls. The
  kernel is a parameter: each wrapper takes the system call it makes as an argument, over a kernel
  state of any type. A call that never returns is \<open>None\<close>; a wrapper that calls \<open>exit\<close> returns
  \<open>Exit\<close>. What the byte-moving wrappers achieve is in \<open>Stream_IO\<close>.
\<close>

section \<open>\<open>perr_exit\<close> and the connection calls\<close>

definition perr_exit :: "'a outcome" where
  "perr_exit = Exit EXIT_FAILURE"

partial_function (option) Accept ::
  "(int \<Rightarrow> 'k \<Rightarrow> (int sysres \<times> 'k) option) \<Rightarrow> int \<Rightarrow> 'k \<Rightarrow> (int outcome \<times> 'k) option" where
  "Accept accept socket k =
     (case accept socket k of
        None \<Rightarrow> None
      | Some (Ok fd, k') \<Rightarrow> Some (Return fd, k')
      | Some (Err e, k') \<Rightarrow>
          if e = EAGAIN \<or> e = EWOULDBLOCK then Accept accept socket k'
          else Some (perr_exit, k'))"

definition Bind ::
  "(int \<Rightarrow> 'addr \<Rightarrow> nat \<Rightarrow> 'k \<Rightarrow> int sysres \<times> 'k) \<Rightarrow> int \<Rightarrow> 'addr \<Rightarrow> nat \<Rightarrow> 'k \<Rightarrow> int outcome \<times> 'k"
where
  "Bind bnd socket addr len k =
     (case bnd socket addr len k of
        (Err e, k') \<Rightarrow> (Exit EXIT_FAILURE, k')
      | (Ok ret, k') \<Rightarrow> (Return ret, k'))"

definition Connect ::
  "(int \<Rightarrow> 'addr \<Rightarrow> nat \<Rightarrow> 'k \<Rightarrow> int sysres \<times> 'k) \<Rightarrow> int \<Rightarrow> 'addr \<Rightarrow> nat \<Rightarrow> 'k \<Rightarrow> int outcome \<times> 'k"
where
  "Connect conn socket addr address_len k =
     (case conn socket addr address_len k of
        (Err e, k') \<Rightarrow> (Exit EXIT_FAILURE, k')
      | (Ok ret, k') \<Rightarrow> (Return ret, k'))"

definition Listen ::
  "(int \<Rightarrow> int \<Rightarrow> 'k \<Rightarrow> int sysres \<times> 'k) \<Rightarrow> int \<Rightarrow> int \<Rightarrow> 'k \<Rightarrow> int outcome \<times> 'k" where
  "Listen lstn socket backlog k =
     (case lstn socket backlog k of
        (Err e, k') \<Rightarrow> (Exit EXIT_FAILURE, k')
      | (Ok ret, k') \<Rightarrow> (Return ret, k'))"

definition Socket ::
  "(int \<Rightarrow> int \<Rightarrow> int \<Rightarrow> 'k \<Rightarrow> int sysres \<times> 'k) \<Rightarrow> int \<Rightarrow> int \<Rightarrow> int \<Rightarrow> 'k \<Rightarrow> int outcome \<times> 'k" where
  "Socket sock domain type protocal k =
     (case sock domain type protocal k of
        (Err e, k') \<Rightarrow> (Exit EXIT_FAILURE, k')
      | (Ok ret, k') \<Rightarrow> (Return ret, k'))"

section \<open>\<open>Read\<close> and \<open>Write\<close>\<close>

text \<open>
  The result of the system call goes through \<open>int len\<close>; \<open>en\<close> is the value \<open>errno\<close> has when the call
  succeeds, which the loop tests when the truncated length happens to be \<open>-1\<close>.
\<close>

partial_function (option) Read ::
  "(int \<Rightarrow> nat \<Rightarrow> 'k \<Rightarrow> (byte list sysres \<times> 'k) option) \<Rightarrow> int \<Rightarrow> size64 \<Rightarrow> errno \<Rightarrow> 'k
   \<Rightarrow> (size64 \<times> byte list \<times> 'k) option" where
  "Read rd fd sz en k =
     (case rd fd (unat sz) k of
        None \<Rightarrow> None
      | Some (Ok bs, k') \<Rightarrow>
          (let len = int_of_ssize (of_nat (length bs)) in
           if len = - 1
           then (if en = EINTR then Read rd fd sz en k' else Some (- 1, bs, k'))
           else Some (ssize_of_int len, bs, k'))
      | Some (Err e, k') \<Rightarrow>
          if e = EINTR then Read rd fd sz e k' else Some (- 1, [], k'))"

partial_function (option) Write ::
  "(int \<Rightarrow> byte list \<Rightarrow> 'k \<Rightarrow> (nat sysres \<times> 'k) option) \<Rightarrow> int \<Rightarrow> byte list \<Rightarrow> size64 \<Rightarrow> errno \<Rightarrow> 'k
   \<Rightarrow> (size64 \<times> 'k) option" where
  "Write wr fd buf sz en k =
     (case wr fd (take (unat sz) buf) k of
        None \<Rightarrow> None
      | Some (Ok n, k') \<Rightarrow>
          (let len = int_of_ssize (of_nat n) in
           if len = - 1
           then (if en = EINTR then Write wr fd buf sz en k' else Some (- 1, k'))
           else Some (ssize_of_int len, k'))
      | Some (Err e, k') \<Rightarrow>
          if e = EINTR then Write wr fd buf sz e k' else Some (- 1, k'))"

section \<open>\<open>Close\<close>\<close>

text \<open>
  The test of line 122 is an assignment: \<open>errno\<close> becomes \<open>EINTR\<close> and the value tested is
  \<open>EINTR\<close> itself.
\<close>

partial_function (option) Close ::
  "(int \<Rightarrow> 'k \<Rightarrow> (unit sysres \<times> 'k) option) \<Rightarrow> int \<Rightarrow> 'k \<Rightarrow> (int32 \<times> 'k) option" where
  "Close cl fd k =
     (case cl fd k of
        None \<Rightarrow> None
      | Some (Ok u, k') \<Rightarrow> Some (0, k')
      | Some (Err e, k') \<Rightarrow>
          if errno_value EINTR \<noteq> 0 then Close cl fd k' else Some (- 1, k'))"

section \<open>\<open>WriteN\<close> and \<open>ReadN\<close>\<close>

text \<open>\<open>ptr\<close> is the memory from the source's \<open>ptr\<close> on.\<close>

partial_function (option) WriteN_loop ::
  "(int \<Rightarrow> byte list \<Rightarrow> 'k \<Rightarrow> (nat sysres \<times> 'k) option) \<Rightarrow> int \<Rightarrow> size64 \<Rightarrow> byte list \<Rightarrow> size64 \<Rightarrow> 'k
   \<Rightarrow> (size64 \<times> 'k) option" where
  "WriteN_loop wr fd sz ptr nleft k =
     (if nleft > 0 then
        (case wr fd (take (unat nleft) ptr) k of
           None \<Rightarrow> None
         | Some (Ok n, k') \<Rightarrow>
             if sint (of_nat n :: size64) \<le> 0 then Some (- 1, k')
             else WriteN_loop wr fd sz (drop n ptr) (nleft - of_nat n) k'
         | Some (Err e, k') \<Rightarrow>
             if e = EINTR then WriteN_loop wr fd sz (drop 0 ptr) (nleft - 0) k'
             else Some (- 1, k'))
      else Some (sz, k))"

definition WriteN ::
  "(int \<Rightarrow> byte list \<Rightarrow> 'k \<Rightarrow> (nat sysres \<times> 'k) option) \<Rightarrow> int \<Rightarrow> byte list \<Rightarrow> size64 \<Rightarrow> 'k
   \<Rightarrow> (size64 \<times> 'k) option" where
  "WriteN wr fd vptr sz k = WriteN_loop wr fd sz vptr sz k"

text \<open>
  \<open>acc\<close> is what the source has stored from \<open>vptr\<close> up to \<open>ptr\<close>. Here \<open>nleft\<close> is an \<open>ssize_t\<close>:
  the loop test is signed, the count passed to \<open>read\<close> and the final subtraction are unsigned.
\<close>

partial_function (option) ReadN_loop ::
  "(int \<Rightarrow> nat \<Rightarrow> 'k \<Rightarrow> (byte list sysres \<times> 'k) option) \<Rightarrow> int \<Rightarrow> size64 \<Rightarrow> byte list \<Rightarrow> size64 \<Rightarrow> 'k
   \<Rightarrow> (size64 \<times> byte list \<times> 'k) option" where
  "ReadN_loop rd fd sz acc nleft k =
     (if 0 < sint nleft then
        (case rd fd (unat nleft) k of
           None \<Rightarrow> None
         | Some (Err e, k') \<Rightarrow>
             if e = EINTR then ReadN_loop rd fd sz acc nleft k' else Some (- 1, acc, k')
         | Some (Ok bs, k') \<Rightarrow>
             if bs = [] then Some (sz - nleft, acc, k')
             else ReadN_loop rd fd sz (acc @ bs) (nleft - of_nat (length bs)) k')
      else Some (sz - nleft, acc, k))"

definition ReadN ::
  "(int \<Rightarrow> nat \<Rightarrow> 'k \<Rightarrow> (byte list sysres \<times> 'k) option) \<Rightarrow> int \<Rightarrow> size64 \<Rightarrow> 'k
   \<Rightarrow> (size64 \<times> byte list \<times> 'k) option" where
  "ReadN rd fd sz k = ReadN_loop rd fd sz [] sz k"

section \<open>Induction over the loops\<close>

text \<open>
  One rule per retry loop: a fact about every return, from the exits of the loop and the calls
  after which it goes round again.
\<close>

lemma WriteN_loop_induct [consumes 1, case_names finish zero error interrupted written]:
  assumes returns: "WriteN_loop wr fd sz ptr nleft k = Some res"
    and finish: "\<And>ptr k. Q ptr 0 k (sz, k)"
    and zero: "\<And>ptr nleft k n k'. 0 < nleft \<Longrightarrow> wr fd (take (unat nleft) ptr) k = Some (Ok n, k') \<Longrightarrow>
      sint (of_nat n :: size64) \<le> 0 \<Longrightarrow> Q ptr nleft k (- 1, k')"
    and error: "\<And>ptr nleft k e k'. 0 < nleft \<Longrightarrow> wr fd (take (unat nleft) ptr) k = Some (Err e, k') \<Longrightarrow>
      e \<noteq> EINTR \<Longrightarrow> Q ptr nleft k (- 1, k')"
    and interrupted: "\<And>ptr nleft k k' res. 0 < nleft \<Longrightarrow>
      wr fd (take (unat nleft) ptr) k = Some (Err EINTR, k') \<Longrightarrow> Q ptr nleft k' res \<Longrightarrow> Q ptr nleft k res"
    and written: "\<And>ptr nleft k n k' res. 0 < nleft \<Longrightarrow>
      wr fd (take (unat nleft) ptr) k = Some (Ok n, k') \<Longrightarrow> 0 < sint (of_nat n :: size64) \<Longrightarrow>
      Q (drop n ptr) (nleft - of_nat n) k' res \<Longrightarrow> Q ptr nleft k res"
  shows "Q ptr nleft k res"
proof -
  have "wr = wr \<and> fd = fd \<and> sz = sz \<longrightarrow> Q ptr nleft k res"
  proof (rule WriteN_loop.raw_induct [where P = "\<lambda>w d z ptr nleft k res.
        w = wr \<and> d = fd \<and> z = sz \<longrightarrow> Q ptr nleft k res", OF _ returns], goal_cases)
    case (1 f w d z ptr nleft k res)
    have nz: "\<not> 0 < nleft \<Longrightarrow> nleft = 0" by (simp add: word_gt_0)
    have IH: "\<And>ptr nleft k res. f wr fd sz ptr nleft k = Some res \<Longrightarrow> Q ptr nleft k res"
      using 1(1) by blast
    show ?case
      using 1(2)
      apply (auto simp: not_le split: if_splits option.splits sysres.splits dest: nz intro: finish)
      subgoal by (rule zero)
      subgoal by (rule written) (auto intro: IH)
      subgoal by (rule interrupted) (auto intro: IH)
      subgoal by (rule error)
      done
  qed
  then show ?thesis by simp
qed


lemma ReadN_loop_induct [consumes 1, case_names finish eof error interrupted got]:
  assumes returns: "ReadN_loop rd fd sz acc nleft k = Some res"
    and finish: "\<And>acc nleft k. sint nleft \<le> 0 \<Longrightarrow> Q acc nleft k (sz - nleft, acc, k)"
    and eof: "\<And>acc nleft k k'. 0 < sint nleft \<Longrightarrow> rd fd (unat nleft) k = Some (Ok [], k') \<Longrightarrow>
      Q acc nleft k (sz - nleft, acc, k')"
    and error: "\<And>acc nleft k e k'. 0 < sint nleft \<Longrightarrow> rd fd (unat nleft) k = Some (Err e, k') \<Longrightarrow>
      e \<noteq> EINTR \<Longrightarrow> Q acc nleft k (- 1, acc, k')"
    and interrupted: "\<And>acc nleft k k' res. 0 < sint nleft \<Longrightarrow>
      rd fd (unat nleft) k = Some (Err EINTR, k') \<Longrightarrow> Q acc nleft k' res \<Longrightarrow> Q acc nleft k res"
    and got: "\<And>acc nleft k bs k' res. 0 < sint nleft \<Longrightarrow>
      rd fd (unat nleft) k = Some (Ok bs, k') \<Longrightarrow> bs \<noteq> [] \<Longrightarrow>
      Q (acc @ bs) (nleft - of_nat (length bs)) k' res \<Longrightarrow> Q acc nleft k res"
  shows "Q acc nleft k res"
proof -
  have "rd = rd \<and> fd = fd \<and> sz = sz \<longrightarrow> Q acc nleft k res"
  proof (rule ReadN_loop.raw_induct [where P = "\<lambda>r d z acc nleft k res.
        r = rd \<and> d = fd \<and> z = sz \<longrightarrow> Q acc nleft k res", OF _ returns], goal_cases)
    case (1 f r d z acc nleft k res)
    have IH: "\<And>acc nleft k res. f rd fd sz acc nleft k = Some res \<Longrightarrow> Q acc nleft k res"
      using 1(1) by blast
    show ?case
      using 1(2)
      apply (auto simp: not_less split: if_splits option.splits sysres.splits intro: finish)
      subgoal by (rule eof)
      subgoal by (rule got) (auto intro: IH)
      subgoal by (rule interrupted) (auto intro: IH)
      subgoal by (rule error)
      done
  qed
  then show ?thesis by simp
qed

lemma Accept_induct [consumes 1, case_names accepted failed again]:
  assumes returns: "Accept acc socket k = Some res"
    and accepted: "\<And>k fd k'. acc socket k = Some (Ok fd, k') \<Longrightarrow> Q k (Return fd, k')"
    and failed: "\<And>k e k'. acc socket k = Some (Err e, k') \<Longrightarrow> e \<noteq> EAGAIN \<Longrightarrow> Q k (Exit EXIT_FAILURE, k')"
    and again: "\<And>k k' res. acc socket k = Some (Err EAGAIN, k') \<Longrightarrow> Q k' res \<Longrightarrow> Q k res"
  shows "Q k res"
proof -
  have "acc = acc \<and> socket = socket \<longrightarrow> Q k res"
  proof (rule Accept.raw_induct [where P = "\<lambda>a d k res. a = acc \<and> d = socket \<longrightarrow> Q k res",
        OF _ returns], goal_cases)
    case (1 f a d k res)
    have IH: "\<And>k res. f acc socket k = Some res \<Longrightarrow> Q k res"
      using 1(1) by blast
    show ?case
      using 1(2)
      apply (auto simp: perr_exit_def split: if_splits option.splits sysres.splits)
      subgoal by (rule accepted)
      subgoal by (rule again) (auto intro: IH)
      subgoal by (rule failed)
      done
  qed
  then show ?thesis by simp
qed

lemma Close_induct [consumes 1, case_names closed again]:
  assumes returns: "Close cl fd k = Some res"
    and closed: "\<And>k k'. cl fd k = Some (Ok (), k') \<Longrightarrow> Q k (0, k')"
    and again: "\<And>k e k' res. cl fd k = Some (Err e, k') \<Longrightarrow> Q k' res \<Longrightarrow> Q k res"
  shows "Q k res"
proof -
  have "cl = cl \<and> fd = fd \<longrightarrow> Q k res"
  proof (rule Close.raw_induct [where P = "\<lambda>c d k res. c = cl \<and> d = fd \<longrightarrow> Q k res",
        OF _ returns], goal_cases)
    case (1 f c d k res)
    have IH: "\<And>k res. f cl fd k = Some res \<Longrightarrow> Q k res"
      using 1(1) by blast
    show ?case
      using 1(2)
      apply (auto split: if_splits option.splits sysres.splits)
      subgoal by (rule closed)
      subgoal by (rule again) (auto intro: IH)
      done
  qed
  then show ?thesis by simp
qed

end
