(* ===== verification/Stream_IO.thy ===== *)
theory Stream_IO imports HSocket begin

text \<open>
  What the byte-moving wrappers of \<^verbatim>\<open>HSocket.c\<close> achieve. The locale \<open>byte_stream\<close> is their interface to
  the kernel, \<open>live_stream\<close> adds the progress under which they return; \<open>stream_kernel\<close> is a kernel
  that follows a script of interruptions, short counts and errors and then serves every request,
  and interprets both.
\<close>

section \<open>The byte-stream interface\<close>

text \<open>
  What \<open>write\<close> and \<open>read\<close> promise on a connected stream: a call accepts or delivers a prefix, at
  most as long as asked and at most \<open>MAX_RW_COUNT\<close>, and a failing call moves nothing. \<open>sent\<close> is
  everything the peer is to receive, \<open>pending\<close> everything still to be read.
\<close>

locale byte_stream =
  fixes wr :: "int \<Rightarrow> byte list \<Rightarrow> 'k \<Rightarrow> (nat sysres \<times> 'k) option"
    and rd :: "int \<Rightarrow> nat \<Rightarrow> 'k \<Rightarrow> (byte list sysres \<times> 'k) option"
    and sent :: "'k \<Rightarrow> byte list"
    and pending :: "'k \<Rightarrow> byte list"
  assumes wr_Ok: "wr fd bs k = Some (Ok n, k') \<Longrightarrow>
      n \<le> length bs \<and> n \<le> MAX_RW_COUNT \<and> sent k' = sent k @ take n bs"
    and wr_Err: "wr fd bs k = Some (Err e, k') \<Longrightarrow> sent k' = sent k"
    and rd_Ok: "rd fd n k = Some (Ok bs, k') \<Longrightarrow>
      length bs \<le> n \<and> length bs \<le> MAX_RW_COUNT \<and> pending k = bs @ pending k'"
    and rd_Err: "rd fd n k = Some (Err e, k') \<Longrightarrow> pending k' = pending k"
begin

lemma wr_count: "wr fd (take (unat nleft) ptr) k = Some (Ok n, k') \<Longrightarrow> length ptr = unat nleft \<Longrightarrow>
    n \<le> unat nleft \<and> unat (nleft - of_nat n) = unat nleft - n \<and> sent k' = sent k @ take n ptr"
  using wr_Ok [of fd "take (unat nleft) ptr" k n k'] unat_less_sub [of n nleft] by auto

text \<open>Whenever \<open>WriteN\<close> returns, a prefix has gone out: all of it, or the result is \<open>-1\<close>.\<close>

lemma WriteN_loop_prefix:
  assumes "WriteN_loop wr fd sz ptr nleft k = Some res" and "length ptr = unat nleft"
  shows "\<exists>m \<le> length ptr. sent (snd res) = sent k @ take m ptr \<and>
    (m = length ptr \<and> fst res = sz \<or> fst res = - 1)"
  using assms
proof (induction rule: WriteN_loop_induct)
  case (zero ptr nleft k n k')
  then show ?case using wr_count [OF zero(2) zero(4)] by (intro exI [of _ n]) auto
next
  case (error ptr nleft k e k')
  then show ?case using wr_Err by (intro exI [of _ 0]) auto
next
  case (interrupted ptr nleft k k' res)
  then show ?case using wr_Err by auto
next
  case (written ptr nleft k n k' res)
  note n = wr_count [OF written(2) written(5)]
  then obtain m where "m \<le> unat nleft - n" "sent (snd res) = sent k' @ take m (drop n ptr)"
    "m = unat nleft - n \<and> fst res = sz \<or> fst res = - 1"
    using written by auto
  with n written.prems show ?case
    by (intro exI [of _ "n + m"]) (auto simp: take_add)
qed auto

text \<open>Whenever \<open>ReadN\<close> returns, what it has stored is what the stream has lost.\<close>

lemma ReadN_loop_stored:
  assumes "ReadN_loop rd fd sz acc nleft k = Some res"
  shows "\<exists>bs. fst (snd res) = acc @ bs \<and> pending k = bs @ pending (snd (snd res)) \<and>
    length bs \<le> unat nleft \<and> (fst res = sz - (nleft - of_nat (length bs)) \<or> fst res = - 1)"
  using assms
proof (induction rule: ReadN_loop_induct)
  case (eof acc nleft k k')
  then show ?case using rd_Ok [OF eof(2)] by auto
next
  case (error acc nleft k e k')
  then show ?case using rd_Err [OF error(2)] by auto
next
  case (interrupted acc nleft k k' res)
  then show ?case using rd_Err by auto
next
  case (got acc nleft k bs k' res)
  note bs = rd_Ok [OF got(2)]
  then have "unat (nleft - of_nat (length bs)) = unat nleft - length bs"
    by (intro unat_less_sub) simp
  with got bs show ?case by (auto simp: algebra_simps)
qed auto

end

section \<open>Progress\<close>

text \<open>
  A \<open>live\<close> kernel always answers: it interrupts a call only finitely often (\<open>patience\<close>), and
  otherwise accepts at least one byte, or delivers one unless the stream is at its end.
\<close>

locale live_stream = byte_stream wr rd sent pending
  for wr :: "int \<Rightarrow> byte list \<Rightarrow> 'k \<Rightarrow> (nat sysres \<times> 'k) option"
    and rd :: "int \<Rightarrow> nat \<Rightarrow> 'k \<Rightarrow> (byte list sysres \<times> 'k) option"
    and sent :: "'k \<Rightarrow> byte list"
    and pending :: "'k \<Rightarrow> byte list" +
  fixes live :: "'k \<Rightarrow> bool"
    and patience :: "'k \<Rightarrow> nat"
  assumes wr_live: "live k \<Longrightarrow> bs \<noteq> [] \<Longrightarrow> \<exists>r k'. wr fd bs k = Some (r, k') \<and> live k' \<and>
      (r = Err EINTR \<and> patience k' < patience k \<or> (\<exists>n > 0. r = Ok n) \<and> patience k' \<le> patience k)"
    and rd_live: "live k \<Longrightarrow> 0 < n \<Longrightarrow> \<exists>r k'. rd fd n k = Some (r, k') \<and> live k' \<and>
      (r = Err EINTR \<and> patience k' < patience k \<or>
       (\<exists>bs. r = Ok bs \<and> (bs = [] \<longrightarrow> pending k = [])) \<and> patience k' \<le> patience k)"
begin

lemma WriteN_loop_live:
  assumes "live k" and "length ptr = unat nleft" and "unat nleft < 2 ^ 63"
  shows "\<exists>k'. WriteN_loop wr fd sz ptr nleft k = Some (sz, k') \<and> sent k' = sent k @ ptr"
  using assms
proof (induction "patience k + unat nleft" arbitrary: k ptr nleft rule: less_induct)
  case less
  show ?case
  proof (cases "nleft = 0")
    case True
    with less.prems show ?thesis by (auto simp: WriteN_loop.simps)
  next
    case False
    then have pos: "0 < nleft" and "take (unat nleft) ptr \<noteq> []"
      using less.prems by (auto simp: word_gt_0 unat_eq_0)
    then obtain r k1 where call: "wr fd (take (unat nleft) ptr) k = Some (r, k1)" and "live k1" and
      r: "r = Err EINTR \<and> patience k1 < patience k \<or> (\<exists>n > 0. r = Ok n) \<and> patience k1 \<le> patience k"
      using wr_live [of k "take (unat nleft) ptr" fd] less.prems by blast
    show ?thesis
    proof (cases r)
      case (Err e)
      with r call have "wr fd (take (unat nleft) ptr) k = Some (Err EINTR, k1)" by auto
      with r Err pos less.hyps [of k1 nleft ptr] less.prems \<open>live k1\<close> wr_Err [OF this] show ?thesis
        by (auto simp: WriteN_loop.simps [of wr fd sz ptr nleft k])
    next
      case (Ok n)
      with r have "0 < n" by auto
      note n = wr_count [OF call [unfolded Ok] less.prems(2)]
      with less.prems \<open>0 < n\<close> have "0 < sint (of_nat n :: size64)"
        by (subst sint_of_nat_small) auto
      with n r Ok pos call less.hyps [of k1 "nleft - of_nat n" "drop n ptr"] less.prems \<open>live k1\<close> \<open>0 < n\<close>
      show ?thesis
        by (auto simp: WriteN_loop.simps [of wr fd sz ptr nleft k])
    qed
  qed
qed

lemma ReadN_loop_live:
  assumes "live k" and "unat nleft < 2 ^ 63"
  shows "\<exists>k'. let bs = take (unat nleft) (pending k) in
    ReadN_loop rd fd sz acc nleft k = Some (sz - (nleft - of_nat (length bs)), acc @ bs, k') \<and>
    pending k = bs @ pending k'"
  using assms
proof (induction "patience k + unat nleft" arbitrary: k acc nleft rule: less_induct)
  case less
  have sint: "sint nleft = int (unat nleft)"
    using less.prems(2) sint_of_nat_small [of "unat nleft"] by simp
  show ?case
  proof (cases "nleft = 0")
    case True
    then show ?thesis by (auto simp: ReadN_loop.simps)
  next
    case False
    then have "0 < unat nleft" by (simp add: unat_gt_0)
    with sint have pos: "0 < sint nleft" "0 < unat nleft" by linarith+
    then obtain r k1 where call: "rd fd (unat nleft) k = Some (r, k1)" and "live k1" and
      r: "r = Err EINTR \<and> patience k1 < patience k \<or>
        (\<exists>bs. r = Ok bs \<and> (bs = [] \<longrightarrow> pending k = [])) \<and> patience k1 \<le> patience k"
      using rd_live [of k "unat nleft" fd] less.prems by blast
    show ?thesis
    proof (cases r)
      case (Err e)
      with r call have "rd fd (unat nleft) k = Some (Err EINTR, k1)" by auto
      with r Err pos less.hyps [of k1 nleft acc] less.prems \<open>live k1\<close> rd_Err [OF this] show ?thesis
        by (auto simp: ReadN_loop.simps [of rd fd sz acc nleft k] Let_def)
    next
      case (Ok bs)
      note bs = rd_Ok [OF call [unfolded Ok]]
      then have sub: "unat (nleft - of_nat (length bs)) = unat nleft - length bs"
        by (intro unat_less_sub) simp
      show ?thesis
      proof (cases "bs = []")
        case True
        with r Ok call pos bs show ?thesis
          by (auto simp: ReadN_loop.simps [of rd fd sz acc nleft k])
      next
        case False
        then have "0 < length bs" by simp
        moreover have "patience k1 \<le> patience k" "length bs \<le> unat nleft"
          using r Ok bs by auto
        ultimately have smaller: "patience k1 + (unat nleft - length bs) < patience k + unat nleft"
          by linarith
        from smaller r Ok sub bs less.prems \<open>live k1\<close> pos False
          less.hyps [of k1 "nleft - of_nat (length bs)" "acc @ bs"]
        show ?thesis using call
          by (auto simp: ReadN_loop.simps [of rd fd sz acc nleft k] Let_def algebra_simps)
      qed
    qed
  qed
qed

lemma Read_live:
  assumes "live k" and "0 < unat sz"
  shows "\<exists>bs k'. Read rd fd sz en k = Some (of_nat (length bs), bs, k') \<and>
    pending k = bs @ pending k' \<and> length bs \<le> unat sz \<and> (bs = [] \<longrightarrow> pending k = [])"
  using assms(1)
proof (induction "patience k" arbitrary: k en rule: less_induct)
  case less
  then obtain r k1 where call: "rd fd (unat sz) k = Some (r, k1)" and "live k1" and
    r: "r = Err EINTR \<and> patience k1 < patience k \<or>
      (\<exists>bs. r = Ok bs \<and> (bs = [] \<longrightarrow> pending k = [])) \<and> patience k1 \<le> patience k"
    using rd_live [of k "unat sz" fd] assms(2) by blast
  show ?case
  proof (cases r)
    case (Err e)
    with r call have "rd fd (unat sz) k = Some (Err EINTR, k1)" by auto
    with r Err less.hyps [of k1 EINTR] \<open>live k1\<close> rd_Err [OF this] show ?thesis
      by (auto simp: Read.simps [of rd fd sz en k])
  next
    case (Ok bs)
    note bs = rd_Ok [OF call [unfolded Ok]]
    then have "length bs < 2 ^ 31" using MAX_RW_COUNT_less by blast
    note small = int_of_ssize_not_error [OF this] ssize_int_roundtrip [OF this]
    from bs r Ok call show ?thesis
      by (auto simp: Read.simps [of rd fd sz en k] Let_def small)
  qed
qed

end

section \<open>A kernel that follows a script\<close>

text \<open>
  Each system call consumes one entry of \<open>script\<close>: \<open>Err e\<close> fails with \<open>e\<close>, \<open>Ok n\<close> accepts or
  delivers at most \<open>n\<close> bytes. After the script the kernel serves each request as far as the data
  and \<open>MAX_RW_COUNT\<close> go.
\<close>

record stream_kernel =
  script :: "nat sysres list"
  inq :: "byte list"     \<comment> \<open>bytes that have arrived and not been read\<close>
  outq :: "byte list"    \<comment> \<open>bytes accepted for the peer\<close>

definition script_limit :: "stream_kernel \<Rightarrow> nat sysres" where
  "script_limit k = (case script k of [] \<Rightarrow> Ok MAX_RW_COUNT | r # _ \<Rightarrow> r)"

definition script_write :: "int \<Rightarrow> byte list \<Rightarrow> stream_kernel \<Rightarrow> (nat sysres \<times> stream_kernel) option" where
  "script_write fd bs k =
     (let k' = k\<lparr>script := tl (script k)\<rparr> in
      case script_limit k of
        Err e \<Rightarrow> Some (Err e, k')
      | Ok n \<Rightarrow> (let m = min n (min MAX_RW_COUNT (length bs)) in
          Some (Ok m, k'\<lparr>outq := outq k @ take m bs\<rparr>)))"

definition script_read :: "int \<Rightarrow> nat \<Rightarrow> stream_kernel \<Rightarrow> (byte list sysres \<times> stream_kernel) option" where
  "script_read fd count k =
     (let k' = k\<lparr>script := tl (script k)\<rparr> in
      case script_limit k of
        Err e \<Rightarrow> Some (Err e, k')
      | Ok n \<Rightarrow> (let m = min n (min MAX_RW_COUNT count) in
          Some (Ok (take m (inq k)), k'\<lparr>inq := drop m (inq k)\<rparr>)))"

text \<open>The scripts that only interrupt calls and shorten transfers.\<close>

definition benign :: "stream_kernel \<Rightarrow> bool" where
  "benign k \<longleftrightarrow> list_all (\<lambda>r. case r of Ok n \<Rightarrow> 0 < n | Err e \<Rightarrow> e = EINTR) (script k)"

lemmas script_defs = script_write_def script_read_def script_limit_def Let_def

lemma MAX_RW_COUNT_pos: "0 < MAX_RW_COUNT"
  by (simp add: MAX_RW_COUNT_def)

interpretation bs: byte_stream script_write script_read outq inq
  by unfold_locales (auto simp: script_defs split: list.splits sysres.splits)

interpretation ls: live_stream script_write script_read outq inq benign "\<lambda>k. length (script k)"
proof (unfold_locales, goal_cases)
  case (1 k bs fd)
  then show ?case
    using MAX_RW_COUNT_pos
    by (cases "script k") (auto simp: script_defs benign_def split: sysres.splits)
next
  case (2 k n fd)
  then show ?case
    using MAX_RW_COUNT_pos
    by (cases "script k") (auto simp: script_defs benign_def split: sysres.splits)
qed

section \<open>Properties\<close>

text \<open>C4: \<open>WriteN\<close> sends everything. However the kernel interrupts and shortens the calls of
  \<open>write\<close>, \<open>WriteN(fd, data, sz)\<close> returns \<open>sz\<close> and the peer is to receive exactly \<open>data\<close>, in
  order and once.\<close>

theorem WriteN_delivers:
  assumes "benign k" and "length data = unat sz" and "unat sz < 2 ^ 63"
  shows "\<exists>k'. WriteN script_write fd data sz k = Some (sz, k') \<and> outq k' = outq k @ data"
  using ls.WriteN_loop_live [OF assms] by (simp add: WriteN_def)

theorem WriteN_delivers_witness:
  "\<exists>k'. WriteN script_write 4 [104, 101, 108, 108, 111] 5
      \<lparr>script = [Err EINTR, Ok 2, Err EINTR, Ok 1], inq = [], outq = [33]\<rparr> = Some (5, k') \<and>
    outq k' = [33, 104, 101, 108, 108, 111]"
  using WriteN_delivers [of "\<lparr>script = [Err EINTR, Ok 2, Err EINTR, Ok 1], inq = [], outq = [33]\<rparr>"
      "[104, 101, 108, 108, 111]" 5 4]
  by (simp add: benign_def)

text \<open>\<open>WriteN\<close> on a failing connection. Whenever \<open>WriteN\<close> returns, the kernel has accepted a
  prefix of the data, without gaps or repetitions; the result is the full size only if the prefix
  is all of it, and \<open>-1\<close> otherwise.\<close>

lemma WriteN_prefix:
  assumes "WriteN script_write fd data sz k = Some (r, k')" and "length data = unat sz"
  shows "\<exists>m \<le> length data. outq k' = outq k @ take m data \<and> (m = length data \<and> r = sz \<or> r = - 1)"
  using bs.WriteN_loop_prefix [of fd sz data sz k "(r, k')"] assms by (simp add: WriteN_def)

theorem WriteN_prefix_witness:
  "\<exists>m \<le> length [104, 101, 108 :: byte].
    outq \<lparr>script = [], inq = [], outq = [104, 101]\<rparr> = take m [104, 101, 108 :: byte] \<and>
    (m = length [104, 101, 108 :: byte] \<and> (- 1 :: size64) = 3 \<or> (- 1 :: size64) = - 1)"
proof -
  let ?k = "\<lparr>script = [Ok 2, Err EPIPE], inq = [], outq = []\<rparr>"
  have "WriteN script_write 4 [104, 101, 108] 3 ?k = Some (- 1, \<lparr>script = [], inq = [], outq = [104, 101]\<rparr>)"
    by (simp add: WriteN_def WriteN_loop.simps script_defs MAX_RW_COUNT_def)
  from WriteN_prefix [OF this] show ?thesis by simp
qed

text \<open>C5: \<open>ReadN\<close> reads until it has what was asked or the stream ends. However the calls of
  \<open>read\<close> are interrupted and shortened, \<open>ReadN(fd, buf, sz)\<close> stores the first \<open>sz\<close> bytes of the
  stream (all of them, when it holds fewer), leaves the rest, and returns their number.\<close>

theorem ReadN_delivers:
  assumes "benign k" and "unat sz < 2 ^ 63"
  shows "\<exists>k'. ReadN script_read fd sz k =
      Some (of_nat (length (take (unat sz) (inq k))), take (unat sz) (inq k), k') \<and>
    inq k' = drop (unat sz) (inq k)"
proof -
  obtain k' where "ReadN script_read fd sz k =
      Some (of_nat (length (take (unat sz) (inq k))), take (unat sz) (inq k), k')"
    and stream: "inq k = take (unat sz) (inq k) @ inq k'"
    using ls.ReadN_loop_live [OF assms, of fd sz "[]"] by (auto simp: ReadN_def Let_def)
  moreover from stream have "inq k' = drop (unat sz) (inq k)"
    by (metis append_take_drop_id same_append_eq)
  ultimately show ?thesis by blast
qed

theorem ReadN_delivers_witness:
  "\<exists>k'. ReadN script_read 4 3 \<lparr>script = [Ok 1, Err EINTR], inq = [1, 2, 3, 4], outq = []\<rparr> =
      Some (3, [1, 2, 3], k') \<and> inq k' = [4]"
  using ReadN_delivers [of "\<lparr>script = [Ok 1, Err EINTR], inq = [1, 2, 3, 4], outq = []\<rparr>" 3 4]
  by (simp add: benign_def)

text \<open>A request of half the address space or more is taken for a negative one.\<close>

lemma ReadN_huge: "2 ^ 63 \<le> uint sz \<Longrightarrow> ReadN rd fd sz k = Some (0, [], k)"
  using sint_negative [of sz] by (simp add: ReadN_def ReadN_loop.simps)

text \<open>\<open>Close\<close> never reports an error. It returns only \<open>0\<close>; on a descriptor that \<open>close\<close>
  always refuses (a stale one, say) it never returns, because line 122 assigns \<open>EINTR\<close> to
  \<open>errno\<close> where it means to compare.\<close>

lemma Close_never_fails:
  "(Close cl fd k = Some (r, k') \<longrightarrow> r = 0) \<and>
   ((\<forall>k. \<exists>e k'. cl fd k = Some (Err e, k')) \<longrightarrow> Close cl fd k = None)"
proof (intro conjI impI)
  assume "Close cl fd k = Some (r, k')"
  then have "fst (r, k') = 0" by (induction rule: Close_induct) auto
  then show "r = 0" by simp
next
  assume fails: "\<forall>k. \<exists>e k'. cl fd k = Some (Err e, k')"
  have "Close cl fd k = Some res \<Longrightarrow> False" for res
  proof (induction rule: Close_induct)
    case (closed k k')
    with fails [rule_format, of k] show ?case by auto
  qed
  then show "Close cl fd k = None" by (cases "Close cl fd k") auto
qed

theorem Close_never_fails_witness:
  "Close (\<lambda>fd k. Some (Err EBADF, k)) 7 () = None"
  using Close_never_fails [of "\<lambda>fd k. Some (Err EBADF, k)" 7 "()"] by simp

end
