(* ===== verification/Reactor.thy ===== *)
theory Reactor imports Prelude begin

text \<open>
  \<^verbatim>\<open>src/myEpollReactor.c\<close>: an event-driven server. \<open>Events\<close> is the table of \<open>struct Event\<close> (a slot
  per client, the listener in the last one), \<open>interest\<close> the tree the kernel keeps for \<open>epfd\<close>, and
  \<open>descriptors\<close> the open descriptors. A \<open>struct Event *\<close> is the index of its slot. The results of
  \<open>recv\<close>, \<open>send\<close> and \<open>accept\<close> are arguments of the handlers that make the call.
\<close>

unbundle bit_operations_syntax

section \<open>Constants and data\<close>

definition MAXEVENT :: nat where "MAXEVENT = 1024"

definition EPOLLIN :: int32 where [machine_simps]: "EPOLLIN = 0x001"
definition EPOLLOUT :: int32 where [machine_simps]: "EPOLLOUT = 0x004"
definition EPOLLERR :: int32 where [machine_simps]: "EPOLLERR = 0x008"
definition EPOLLHUP :: int32 where [machine_simps]: "EPOLLHUP = 0x010"

datatype call_back = SendData | RecvData | AcceptConnection

record event =
  ev_fd :: int
  ev_events :: int32
  ev_arg :: "nat option"
  ev_status :: nat
  ev_call_back :: "call_back option"

record reactor =
  Events :: "nat \<Rightarrow> event"
  interest :: "int \<rightharpoonup> int32 \<times> nat"
  descriptors :: "int set"

text \<open>The table as the loader leaves it: all bytes zero.\<close>

definition zero_event :: event where
  "zero_event = \<lparr>ev_fd = 0, ev_events = 0, ev_arg = None, ev_status = 0, ev_call_back = None\<rparr>"

section \<open>The kernel's side\<close>

datatype epoll_op = EPOLL_CTL_ADD | EPOLL_CTL_MOD | EPOLL_CTL_DEL

text \<open>
  \<open>epoll_ctl\<close>: an operation that needs an event refuses a null one first; \<open>ADD\<close> refuses a
  descriptor that is in the tree, \<open>MOD\<close> and \<open>DEL\<close> one that is not. That the kernel has no room for one
  more watch (ENOMEM, ENOSPC) is not modelled.
\<close>

definition epoll_ctl :: "epoll_op \<Rightarrow> int \<Rightarrow> (int32 \<times> nat) option \<Rightarrow> reactor \<Rightarrow> reactor sysres" where
  "epoll_ctl op fd epv r =
     (if op \<noteq> EPOLL_CTL_DEL \<and> epv = None then Err EFAULT
      else if fd \<notin> descriptors r then Err EBADF
      else (case op of
          EPOLL_CTL_ADD \<Rightarrow>
            if interest r fd \<noteq> None then Err EEXIST
            else Ok (r\<lparr>interest := (interest r)(fd := epv)\<rparr>)
        | EPOLL_CTL_MOD \<Rightarrow>
            if interest r fd = None then Err ENOENT
            else Ok (r\<lparr>interest := (interest r)(fd := epv)\<rparr>)
        | EPOLL_CTL_DEL \<Rightarrow>
            if interest r fd = None then Err ENOENT
            else Ok (r\<lparr>interest := (interest r)(fd := None)\<rparr>)))"

text \<open>\<open>close\<close> also takes the descriptor out of the tree.\<close>

definition close_fd :: "int \<Rightarrow> reactor \<Rightarrow> reactor" where
  "close_fd fd r = r\<lparr>descriptors := descriptors r - {fd}, interest := (interest r)(fd := None)\<rparr>"

section \<open>The handlers\<close>

definition update_event :: "nat \<Rightarrow> (event \<Rightarrow> event) \<Rightarrow> reactor \<Rightarrow> reactor" where
  "update_event i f r = r\<lparr>Events := (Events r)(i := f (Events r i))\<rparr>"

definition setevent :: "int \<Rightarrow> int32 \<Rightarrow> nat option \<Rightarrow> event \<Rightarrow> event" where
  "setevent fd events arg event =
     event\<lparr>ev_fd := fd, ev_events := events, ev_arg := arg, ev_status := 0\<rparr>"

definition eventadd :: "nat \<Rightarrow> reactor \<Rightarrow> reactor outcome" where
  "eventadd arg r =
     (let event = Events r arg;
          epv = (ev_events event, arg);
          (op, r1) = (if ev_status event = 1 then (EPOLL_CTL_MOD, r)
                      else (EPOLL_CTL_ADD, update_event arg (\<lambda>e. e\<lparr>ev_status := 1\<rparr>) r))
      in case epoll_ctl op (ev_fd event) (Some epv) r1 of
           Err _ \<Rightarrow> Exit EXIT_FAILURE
         | Ok r2 \<Rightarrow> Return r2)"

definition eventdel :: "nat \<Rightarrow> reactor \<Rightarrow> reactor outcome" where
  "eventdel arg r =
     (let event = Events r arg;
          (op, r1) = (if ev_status event = 0 then (EPOLL_CTL_MOD, r)
                      else (EPOLL_CTL_DEL, update_event arg (\<lambda>e. e\<lparr>ev_status := 0\<rparr>) r))
      in case epoll_ctl op (ev_fd event) None r1 of
           Err _ \<Rightarrow> Exit EXIT_FAILURE
         | Ok r2 \<Rightarrow> Return r2)"

definition sendData :: "int \<Rightarrow> nat \<Rightarrow> reactor \<Rightarrow> reactor outcome" where
  "sendData len arg r =
     and_then (eventdel arg r) (\<lambda>r.
       if len > 0 then
         eventadd arg (update_event arg
           (\<lambda>e. e\<lparr>ev_call_back := Some RecvData, ev_events := EPOLLIN\<rparr>) r)
       else if len = 0 then
         and_then (eventdel arg r) (\<lambda>r. Return (close_fd (ev_fd (Events r arg)) r))
       else
         and_then (eventdel arg r) (\<lambda>r. Return (close_fd (ev_fd (Events r arg)) r)))"

definition recvData :: "int \<Rightarrow> nat \<Rightarrow> reactor \<Rightarrow> reactor outcome" where
  "recvData len arg r =
     and_then (eventdel arg r) (\<lambda>r.
       if len > 0 then
         eventadd arg (update_event arg
           (\<lambda>e. e\<lparr>ev_call_back := Some SendData, ev_events := EPOLLOUT\<rparr>) r)
       else if len = 0 then Return (close_fd (ev_fd (Events r arg)) r)
       else Return (close_fd (ev_fd (Events r arg)) r))"

text \<open>The search of \<open>acceptconnection\<close> for a slot that is not in the tree, from slot \<open>i\<close> on.\<close>

function free_slot :: "nat \<Rightarrow> (nat \<Rightarrow> event) \<Rightarrow> nat option" where
  "free_slot i evs =
     (if i < MAXEVENT then (if ev_status (evs i) = 0 then Some i else free_slot (Suc i) evs)
      else None)"
  by pat_completeness auto
termination
  by (relation "measure (\<lambda>(i, evs). MAXEVENT - i)") auto

declare free_slot.simps [simp del]

definition acceptconnection :: "int \<Rightarrow> nat \<Rightarrow> reactor \<Rightarrow> reactor outcome" where
  "acceptconnection ret tempfd r =
     (if ret < 0 then Exit EXIT_FAILURE
      else (let r = r\<lparr>descriptors := insert ret (descriptors r)\<rparr> in
        case free_slot 0 (Events r) of
          None \<Rightarrow> Return r
        | Some i \<Rightarrow>
            and_then (eventadd i (update_event i (setevent ret EPOLLIN (Some i)) r))
              (\<lambda>r. Return (update_event i (\<lambda>e. e\<lparr>ev_call_back := Some RecvData\<rparr>) r))))"

section \<open>\<open>main\<close>\<close>

text \<open>\<open>event->call_back(event)\<close>, where the handler's own system call returns \<open>ans\<close>.\<close>

definition run_call_back :: "int \<Rightarrow> nat \<Rightarrow> reactor \<Rightarrow> reactor outcome" where
  "run_call_back ans i r =
     (case ev_call_back (Events r i) of
        None \<Rightarrow> Fault
      | Some SendData \<Rightarrow> sendData ans i r
      | Some RecvData \<Rightarrow> recvData ans i r
      | Some AcceptConnection \<Rightarrow> acceptconnection ans i r)"

text \<open>
  One entry of \<open>EpollEvents\<close>: its slot and event mask, and the results of the system calls of the
  first and of the second handler the entry may run.
\<close>

type_synonym ready = "nat \<times> int32 \<times> int \<times> int"

fun dispatch :: "ready \<Rightarrow> reactor \<Rightarrow> reactor outcome" where
  "dispatch (i, revents, ans1, ans2) r =
     and_then
       (if ev_events (Events r i) AND EPOLLIN \<noteq> 0 \<and> revents AND EPOLLIN \<noteq> 0
        then run_call_back ans1 i r else Return r)
       (\<lambda>r. if ev_events (Events r i) AND EPOLLOUT \<noteq> 0 \<and> revents AND EPOLLOUT \<noteq> 0
            then run_call_back ans2 i r else Return r)"

fun run_batch :: "ready list \<Rightarrow> reactor \<Rightarrow> reactor outcome" where
  "run_batch [] r = Return r"
| "run_batch (x # xs) r = and_then (dispatch x r) (run_batch xs)"

text \<open>The loop of \<open>main\<close> over the results of \<open>epoll_wait\<close>; \<open>None\<close> is a negative one.\<close>

fun event_loop :: "ready list option list \<Rightarrow> reactor \<Rightarrow> reactor outcome" where
  "event_loop [] r = Return r"
| "event_loop (None # ws) r = Exit EXIT_FAILURE"
| "event_loop (Some batch # ws) r = and_then (run_batch batch r) (event_loop ws)"

text \<open>
  \<open>main\<close> up to the loop, with the results of \<open>epoll_create\<close> and \<open>socket\<close>; those of \<open>bind\<close> and
  \<open>listen\<close> are not used. \<open>epoll_ctl\<close> on a failed \<open>epfd\<close> fails.
\<close>

definition reactor_main :: "int \<Rightarrow> int \<Rightarrow> reactor outcome" where
  "reactor_main epfd lfd =
     (if lfd < 0 then Exit EXIT_FAILURE
      else (let listener = \<lparr>ev_fd = lfd, ev_events = EPOLLIN, ev_arg = Some MAXEVENT,
                            ev_status = 1, ev_call_back = Some AcceptConnection\<rparr>;
                r = \<lparr>Events = (\<lambda>_. zero_event)(MAXEVENT := listener), interest = Map.empty,
                     descriptors = {0, 1, 2, epfd, lfd}\<rparr>
            in if epfd < 0 then Exit EXIT_FAILURE
               else (case epoll_ctl EPOLL_CTL_ADD lfd (Some (EPOLLIN, MAXEVENT)) r of
                   Err _ \<Rightarrow> Exit EXIT_FAILURE
                 | Ok r \<Rightarrow> Return r)))"

end
