(* ===== verification/Reactor_Proofs.thy ===== *)
theory Reactor_Proofs imports Reactor Systems begin

text \<open>
  Correctness of the reactor: the agreement of the slot table with the kernel's tree is an
  invariant of every handler, and seen from outside each client alternates between a request and
  a reply.
\<close>

unbundle bit_operations_syntax

section \<open>The invariant\<close>

definition slot_ok :: "reactor \<Rightarrow> nat \<Rightarrow> bool" where
  "slot_ok r i \<longleftrightarrow> (let e = Events r i in
     ev_status e = 0 \<or>
     ev_status e = 1 \<and> interest r (ev_fd e) = Some (ev_events e, i) \<and>
     (ev_events e = EPOLLIN \<and> ev_call_back e = Some RecvData \<or>
      ev_events e = EPOLLOUT \<and> ev_call_back e = Some SendData))"

definition listener_ok :: "reactor \<Rightarrow> bool" where
  "listener_ok r \<longleftrightarrow> (let e = Events r MAXEVENT in
     ev_status e = 1 \<and> ev_events e = EPOLLIN \<and> ev_call_back e = Some AcceptConnection \<and>
     interest r (ev_fd e) = Some (EPOLLIN, MAXEVENT))"

definition tree_ok :: "reactor \<Rightarrow> bool" where
  "tree_ok r \<longleftrightarrow> dom (interest r) \<subseteq> descriptors r \<and>
     (\<forall>fd m i. interest r fd = Some (m, i) \<longrightarrow>
        i \<le> MAXEVENT \<and> ev_status (Events r i) = 1 \<and> ev_fd (Events r i) = fd)"

definition reactor_inv :: "reactor \<Rightarrow> bool" where
  "reactor_inv r \<longleftrightarrow> listener_ok r \<and> (\<forall>i < MAXEVENT. slot_ok r i) \<and> tree_ok r"

lemmas inv_defs = reactor_inv_def listener_ok_def slot_ok_def tree_ok_def Let_def

lemma masks [simp]:
  "EPOLLIN \<noteq> 0" "EPOLLOUT \<noteq> 0"
  "EPOLLIN AND EPOLLOUT = 0" "EPOLLOUT AND EPOLLIN = 0" "EPOLLIN \<noteq> EPOLLOUT" "EPOLLOUT \<noteq> EPOLLIN"
  by (simp_all add: machine_simps)

text \<open>A client's slot is in the tree.\<close>

definition active :: "reactor \<Rightarrow> nat \<Rightarrow> bool" where
  "active r i \<longleftrightarrow> i < MAXEVENT \<and> ev_status (Events r i) = 1"

lemma active_slot:
  assumes "reactor_inv r" and "active r i"
  obtains m where "interest r (ev_fd (Events r i)) = Some (m, i)" and "ev_fd (Events r i) \<in> descriptors r"
    and "m = EPOLLIN \<and> ev_call_back (Events r i) = Some RecvData \<or>
      m = EPOLLOUT \<and> ev_call_back (Events r i) = Some SendData"
    and "ev_events (Events r i) = m"
proof -
  from assms have "slot_ok r i" "ev_status (Events r i) = 1" "dom (interest r) \<subseteq> descriptors r"
    by (auto simp: reactor_inv_def active_def tree_ok_def)
  then show ?thesis by (intro that) (auto simp: slot_ok_def Let_def)
qed

section \<open>What the handlers do\<close>

text \<open>The slot and its tree entry after a handler has re-armed them.\<close>

definition rearm :: "nat \<Rightarrow> int32 \<Rightarrow> call_back \<Rightarrow> reactor \<Rightarrow> reactor" where
  "rearm i m cb r = (let e = Events r i in
     r\<lparr>Events := (Events r)(i := e\<lparr>ev_call_back := Some cb, ev_events := m, ev_status := 1\<rparr>),
       interest := (interest r)(ev_fd e \<mapsto> (m, i))\<rparr>)"

definition drop_client :: "nat \<Rightarrow> reactor \<Rightarrow> reactor" where
  "drop_client i r = (let e = Events r i in
     r\<lparr>Events := (Events r)(i := e\<lparr>ev_status := 0\<rparr>),
       interest := (interest r)(ev_fd e := None),
       descriptors := descriptors r - {ev_fd e}\<rparr>)"

lemmas handler_defs = eventadd_def eventdel_def epoll_ctl_def update_event_def close_fd_def
  rearm_def drop_client_def Let_def

lemma recvData_request:
  assumes "reactor_inv r" and "active r i" and "len > 0"
  shows "recvData len i r = Return (rearm i EPOLLOUT SendData r)"
  using assms
  by (elim active_slot) (auto simp: recvData_def handler_defs active_def)

lemma recvData_gone:
  assumes "reactor_inv r" and "active r i" and "len \<le> 0"
  shows "recvData len i r = Return (drop_client i r)"
  using assms
  by (elim active_slot) (auto simp: recvData_def handler_defs active_def)

lemma sendData_reply:
  assumes "reactor_inv r" and "active r i" and "len > 0"
  shows "sendData len i r = Return (rearm i EPOLLIN RecvData r)"
  using assms
  by (elim active_slot) (auto simp: sendData_def handler_defs active_def)

lemma sendData_fails:
  assumes "reactor_inv r" and "active r i" and "len \<le> 0"
  shows "sendData len i r = Exit EXIT_FAILURE"
  using assms
  by (elim active_slot) (auto simp: sendData_def handler_defs active_def)

text \<open>The slot \<open>acceptconnection\<close> finds, and the state after it has filled it.\<close>

lemma free_slot_Some: "free_slot i evs = Some j \<Longrightarrow> i \<le> j \<and> j < MAXEVENT \<and> ev_status (evs j) = 0"
proof (induction i evs rule: free_slot.induct)
  case (1 i evs)
  then show ?case by (cases "ev_status (evs i) = 0") (auto simp: free_slot.simps [of i evs] split: if_splits)
qed

lemma free_slot_None:
  "free_slot i evs = None \<longleftrightarrow> (\<forall>j. i \<le> j \<and> j < MAXEVENT \<longrightarrow> ev_status (evs j) \<noteq> 0)"
proof (induction i evs rule: free_slot.induct)
  case (1 i evs)
  show ?case
  proof (cases "i < MAXEVENT \<and> ev_status (evs i) \<noteq> 0")
    case True
    then have "free_slot i evs = free_slot (Suc i) evs" by (simp add: free_slot.simps [of i evs])
    then show ?thesis using 1 True by (metis Suc_le_eq le_eq_less_or_eq)
  next
    case False
    then show ?thesis by (auto simp: free_slot.simps [of i evs])
  qed
qed

definition admit :: "int \<Rightarrow> nat \<Rightarrow> reactor \<Rightarrow> reactor" where
  "admit fd i r = r\<lparr>descriptors := insert fd (descriptors r),
     Events := (Events r)(i := \<lparr>ev_fd = fd, ev_events = EPOLLIN, ev_arg = Some i, ev_status = 1,
                               ev_call_back = Some RecvData\<rparr>),
     interest := (interest r)(fd \<mapsto> (EPOLLIN, i))\<rparr>"

lemma accept_admits:
  assumes "reactor_inv r" and "0 \<le> fd" and "fd \<notin> descriptors r" and "free_slot 0 (Events r) = Some i"
  shows "acceptconnection fd lis r = Return (admit fd i r)"
proof -
  have "interest r fd = None" using assms(1,3) by (auto simp: inv_defs)
  with assms show ?thesis
    by (cases "Events r i")
      (auto simp: acceptconnection_def handler_defs admit_def setevent_def dest: free_slot_Some)
qed

lemma accept_full:
  "0 \<le> fd \<Longrightarrow> free_slot 0 (Events r) = None \<Longrightarrow>
    acceptconnection fd lis r = Return (r\<lparr>descriptors := insert fd (descriptors r)\<rparr>)"
  by (simp add: acceptconnection_def)

section \<open>Every handler keeps the invariant\<close>

lemma invD_tree:
  "reactor_inv r \<Longrightarrow> interest r fd = Some (m, i) \<Longrightarrow>
    i \<le> MAXEVENT \<and> ev_status (Events r i) = 1 \<and> ev_fd (Events r i) = fd \<and> fd \<in> descriptors r"
  unfolding reactor_inv_def tree_ok_def by blast

lemma invD_slot: "reactor_inv r \<Longrightarrow> i < MAXEVENT \<Longrightarrow> slot_ok r i"
  unfolding reactor_inv_def by blast

lemma invD_listener: "reactor_inv r \<Longrightarrow> listener_ok r"
  unfolding reactor_inv_def by blast

lemma reactor_invI:
  assumes "listener_ok r" and "\<And>i. i < MAXEVENT \<Longrightarrow> slot_ok r i"
    and "\<And>fd m i. interest r fd = Some (m, i) \<Longrightarrow>
      i \<le> MAXEVENT \<and> ev_status (Events r i) = 1 \<and> ev_fd (Events r i) = fd \<and> fd \<in> descriptors r"
  shows "reactor_inv r"
  using assms unfolding reactor_inv_def tree_ok_def by fastforce

text \<open>Distinct slots of the tree have distinct descriptors.\<close>

lemma in_tree:
  assumes "reactor_inv r" and "j \<le> MAXEVENT" and "ev_status (Events r j) = 1"
  obtains m where "interest r (ev_fd (Events r j)) = Some (m, j)"
proof (cases "j = MAXEVENT")
  case True
  then show ?thesis using invD_listener [OF assms(1)] that by (auto simp: listener_ok_def Let_def)
next
  case False
  then show ?thesis using invD_slot [OF assms(1), of j] assms that by (auto simp: slot_ok_def Let_def)
qed

lemma other_descriptor:
  assumes "reactor_inv r" and "i \<le> MAXEVENT" and "ev_status (Events r i) = 1"
    and "j \<le> MAXEVENT" and "ev_status (Events r j) = 1" and "i \<noteq> j"
  shows "ev_fd (Events r i) \<noteq> ev_fd (Events r j)"
  by (rule in_tree [OF assms(1-3)], rule in_tree [OF assms(1,4,5)]) (use assms(6) in auto)

text \<open>A change of slot \<open>i\<close> and of its descriptor leaves the other slots as they are.\<close>

lemma frame_inv:
  assumes inv: "reactor_inv r" and i: "i < MAXEVENT"
    and new: "Events r' i = e" "\<And>j. j \<noteq> i \<Longrightarrow> Events r' j = Events r j"
    and tree: "\<And>d. d \<noteq> fd \<Longrightarrow> interest r' d = interest r d"
    and owner: "\<And>j. j \<le> MAXEVENT \<Longrightarrow> ev_status (Events r j) = 1 \<Longrightarrow> ev_fd (Events r j) = fd \<Longrightarrow> j = i"
    and old: "ev_status (Events r i) = 1 \<Longrightarrow> ev_fd (Events r i) = fd"
    and open_fds: "\<And>d. d \<noteq> fd \<Longrightarrow> d \<in> descriptors r \<Longrightarrow> d \<in> descriptors r'"
    and slot: "slot_ok r' i"
    and own: "\<And>m j. interest r' fd = Some (m, j) \<Longrightarrow>
      j = i \<and> ev_status e = 1 \<and> ev_fd e = fd \<and> fd \<in> descriptors r'"
  shows "reactor_inv r'"
proof (rule reactor_invI)
  have lis: "ev_fd (Events r MAXEVENT) \<noteq> fd"
    using owner [of MAXEVENT] invD_listener [OF inv] i by (auto simp: listener_ok_def Let_def)
  then show "listener_ok r'"
    using invD_listener [OF inv] i new(2) [of MAXEVENT] tree [OF lis] by (simp add: listener_ok_def Let_def)
next
  fix j assume j: "j < MAXEVENT"
  show "slot_ok r' j"
  proof (cases "j = i")
    case True
    with slot show ?thesis by simp
  next
    case False
    then show ?thesis
      using invD_slot [OF inv j] new(2) [OF False] owner [of j] j
      tree [of "ev_fd (Events r j)"]
      by (cases "ev_fd (Events r j) = fd") (auto simp: slot_ok_def Let_def)
  qed
next
  fix d m j assume d: "interest r' d = Some (m, j)"
  show "j \<le> MAXEVENT \<and> ev_status (Events r' j) = 1 \<and> ev_fd (Events r' j) = d \<and> d \<in> descriptors r'"
  proof (cases "d = fd")
    case True
    with d own [of m j] i new(1) show ?thesis by auto
  next
    case False
    with d tree have old_d: "interest r d = Some (m, j)" by simp
    note t = invD_tree [OF inv old_d]
    then have "j \<noteq> i" using old False by auto
    then show ?thesis using t new(2) [of j] open_fds False by auto
  qed
qed

lemma rearm_inv:
  assumes "reactor_inv r" and "active r i"
    and "m = EPOLLIN \<and> cb = RecvData \<or> m = EPOLLOUT \<and> cb = SendData"
  shows "reactor_inv (rearm i m cb r)"
proof (rule frame_inv [OF assms(1), where i = i and fd = "ev_fd (Events r i)"])
  obtain m0 where "interest r (ev_fd (Events r i)) = Some (m0, i)"
    and "ev_fd (Events r i) \<in> descriptors r"
    using assms(1,2) by (rule active_slot)
  then show "\<And>n j. interest (rearm i m cb r) (ev_fd (Events r i)) = Some (n, j) \<Longrightarrow>
      j = i \<and> ev_status (Events (rearm i m cb r) i) = 1 \<and>
      ev_fd (Events (rearm i m cb r) i) = ev_fd (Events r i) \<and>
      ev_fd (Events r i) \<in> descriptors (rearm i m cb r)"
    by (auto simp: rearm_def Let_def)
next
  fix j assume "j \<le> MAXEVENT" "ev_status (Events r j) = 1" "ev_fd (Events r j) = ev_fd (Events r i)"
  then show "j = i"
    using other_descriptor [OF assms(1), of j i] assms(2) by (auto simp: active_def)
qed (use assms(2,3) in \<open>auto simp: rearm_def Let_def slot_ok_def active_def\<close>)

lemma drop_client_inv:
  assumes "reactor_inv r" and "active r i"
  shows "reactor_inv (drop_client i r)"
proof (rule frame_inv [OF assms(1), where i = i and fd = "ev_fd (Events r i)"])
  fix j assume "j \<le> MAXEVENT" "ev_status (Events r j) = 1" "ev_fd (Events r j) = ev_fd (Events r i)"
  then show "j = i"
    using other_descriptor [OF assms(1), of j i] assms(2) by (auto simp: active_def)
qed (use assms(2) in \<open>auto simp: drop_client_def Let_def slot_ok_def active_def\<close>)

lemma admit_inv:
  assumes "reactor_inv r" and "fd \<notin> descriptors r" and "i < MAXEVENT" and "ev_status (Events r i) = 0"
  shows "reactor_inv (admit fd i r)"
proof (rule frame_inv [OF assms(1), where i = i and fd = fd])
  fix j assume "j \<le> MAXEVENT" "ev_status (Events r j) = 1" "ev_fd (Events r j) = fd"
  then show "j = i"
    using in_tree [OF assms(1), of j] invD_tree [OF assms(1)] assms(2) by metis
qed (use assms(3,4) in \<open>auto simp: admit_def slot_ok_def Let_def\<close>)

lemma descriptor_inv: "reactor_inv r \<Longrightarrow> reactor_inv (r\<lparr>descriptors := insert fd (descriptors r)\<rparr>)"
  unfolding reactor_inv_def listener_ok_def slot_ok_def tree_ok_def Let_def by auto

lemmas handler_inv = rearm_inv drop_client_inv admit_inv descriptor_inv

section \<open>One entry of a batch\<close>

text \<open>
  What \<open>epoll_wait\<close> promises of an entry: its slot is in the tree and only the events asked for, or
  an error or hang-up, are reported. What \<open>accept\<close> promises: its descriptor was not in use.
\<close>

definition ready_ok :: "reactor \<Rightarrow> ready \<Rightarrow> bool" where
  "ready_ok r x \<longleftrightarrow> (\<exists>fd m. interest r fd = Some (m, fst x) \<and>
     fst (snd x) AND (m OR EPOLLERR OR EPOLLHUP) = fst (snd x))"

definition fresh_ok :: "reactor \<Rightarrow> ready \<Rightarrow> bool" where
  "fresh_ok r x \<longleftrightarrow> (fst x = MAXEVENT \<longrightarrow> fst (snd (snd x)) \<notin> descriptors r)"

lemma not_reported:
  assumes "v AND (m OR EPOLLERR OR EPOLLHUP) = v"
  shows "m = EPOLLIN \<Longrightarrow> v AND EPOLLOUT = 0" and "m = EPOLLOUT \<Longrightarrow> v AND EPOLLIN = 0"
proof -
  have "v AND w = v AND ((m OR EPOLLERR OR EPOLLHUP) AND w)" for w
    using assms by (metis and.assoc)
  from this [of EPOLLOUT] this [of EPOLLIN]
  show "m = EPOLLIN \<Longrightarrow> v AND EPOLLOUT = 0" "m = EPOLLOUT \<Longrightarrow> v AND EPOLLIN = 0"
    by (simp_all add: machine_simps)
qed

lemma ready_slot:
  assumes "reactor_inv r" and "ready_ok r (i, v, a1, a2)"
  shows "i = MAXEVENT \<and> ev_events (Events r i) = EPOLLIN \<and>
      ev_call_back (Events r i) = Some AcceptConnection \<and> v AND EPOLLOUT = 0 \<or>
    active r i \<and> ev_events (Events r i) = EPOLLIN \<and>
      ev_call_back (Events r i) = Some RecvData \<and> v AND EPOLLOUT = 0 \<or>
    active r i \<and> ev_events (Events r i) = EPOLLOUT \<and>
      ev_call_back (Events r i) = Some SendData \<and> v AND EPOLLIN = 0"
proof -
  from assms(2) obtain fd m where m: "interest r fd = Some (m, i)" "v AND (m OR EPOLLERR OR EPOLLHUP) = v"
    by (auto simp: ready_ok_def)
  note t = invD_tree [OF assms(1) m(1)]
  show ?thesis
  proof (cases "i = MAXEVENT")
    case True
    then show ?thesis
      using invD_listener [OF assms(1)] t m not_reported [OF m(2)] by (auto simp: listener_ok_def Let_def)
  next
    case False
    with t have "i < MAXEVENT" by simp
    then show ?thesis
      using invD_slot [OF assms(1), of i] t m not_reported [OF m(2)]
      by (auto simp: slot_ok_def active_def Let_def)
  qed
qed

section \<open>What a client sees\<close>

text \<open>
  The actions on the connections: a client is let in or finds the table full, its request has been
  received, its reply has been sent, its connection has been closed. They follow the calls that are
  made: \<open>handler_actions ans i r\<close> are those of the handler that slot \<open>i\<close> holds when its system call
  returns \<open>ans\<close>, \<open>dispatch_actions\<close> those of an entry and \<open>loop_actions\<close> those of the loop of \<open>main\<close>.
\<close>

datatype action = Arrive int | Turn_Away int | Request int | Reply int | Leave int

definition handler_actions :: "int \<Rightarrow> nat \<Rightarrow> reactor \<Rightarrow> action list" where
  "handler_actions ans i r =
     (case ev_call_back (Events r i) of
        None \<Rightarrow> []
      | Some AcceptConnection \<Rightarrow>
          if ans < 0 then [] else if free_slot 0 (Events r) = None then [Turn_Away ans] else [Arrive ans]
      | Some RecvData \<Rightarrow> if 0 < ans then [Request (ev_fd (Events r i))] else [Leave (ev_fd (Events r i))]
      | Some SendData \<Rightarrow> if 0 < ans then [Reply (ev_fd (Events r i))] else [])"

fun dispatch_actions :: "ready \<Rightarrow> reactor \<Rightarrow> action list" where
  "dispatch_actions (i, revents, ans1, ans2) r =
     (let first = ev_events (Events r i) AND EPOLLIN \<noteq> 0 \<and> revents AND EPOLLIN \<noteq> 0
      in (if first then handler_actions ans1 i r else []) @
         (case if first then run_call_back ans1 i r else Return r of
            Return r' \<Rightarrow> if ev_events (Events r' i) AND EPOLLOUT \<noteq> 0 \<and> revents AND EPOLLOUT \<noteq> 0
                        then handler_actions ans2 i r' else []
          | _ \<Rightarrow> []))"

fun batch_actions :: "ready list \<Rightarrow> reactor \<Rightarrow> action list" where
  "batch_actions [] r = []"
| "batch_actions (x # xs) r = dispatch_actions x r @
     (case dispatch x r of Return r' \<Rightarrow> batch_actions xs r' | _ \<Rightarrow> [])"

fun loop_actions :: "ready list option list \<Rightarrow> reactor \<Rightarrow> action list" where
  "loop_actions [] r = []"
| "loop_actions (None # ws) r = []"
| "loop_actions (Some batch # ws) r = batch_actions batch r @
     (case run_batch batch r of Return r' \<Rightarrow> loop_actions ws r' | _ \<Rightarrow> [])"

text \<open>
  Each entry runs at most one handler, with one of eight effects.
\<close>

lemma dispatch_cases:
  assumes "reactor_inv r" and "ready_ok r (i, v, a1, a2)" and "fresh_ok r (i, v, a1, a2)"
  obtains (idle) "dispatch (i, v, a1, a2) r = Return r" "dispatch_actions (i, v, a1, a2) r = []"
  | (request) "active r i" "ev_events (Events r i) = EPOLLIN" "0 < a1"
      "dispatch (i, v, a1, a2) r = Return (rearm i EPOLLOUT SendData r)"
      "dispatch_actions (i, v, a1, a2) r = [Request (ev_fd (Events r i))]"
  | (gone) "active r i" "ev_events (Events r i) = EPOLLIN" "a1 \<le> 0"
      "dispatch (i, v, a1, a2) r = Return (drop_client i r)"
      "dispatch_actions (i, v, a1, a2) r = [Leave (ev_fd (Events r i))]"
  | (reply) "active r i" "ev_events (Events r i) = EPOLLOUT" "0 < a2"
      "dispatch (i, v, a1, a2) r = Return (rearm i EPOLLIN RecvData r)"
      "dispatch_actions (i, v, a1, a2) r = [Reply (ev_fd (Events r i))]"
  | (broken) "active r i" "ev_events (Events r i) = EPOLLOUT" "a2 \<le> 0"
      "dispatch (i, v, a1, a2) r = Exit EXIT_FAILURE"
      "dispatch_actions (i, v, a1, a2) r = []"
  | (admitted) j where "i = MAXEVENT" "0 \<le> a1" "a1 \<notin> descriptors r" "free_slot 0 (Events r) = Some j"
      "dispatch (i, v, a1, a2) r = Return (admit a1 j r)"
      "dispatch_actions (i, v, a1, a2) r = [Arrive a1]"
  | (full) "i = MAXEVENT" "0 \<le> a1" "free_slot 0 (Events r) = None"
      "dispatch (i, v, a1, a2) r = Return (r\<lparr>descriptors := insert a1 (descriptors r)\<rparr>)"
      "dispatch_actions (i, v, a1, a2) r = [Turn_Away a1]"
  | (accept_failed) "i = MAXEVENT" "a1 < 0" "dispatch (i, v, a1, a2) r = Exit EXIT_FAILURE"
      "dispatch_actions (i, v, a1, a2) r = []"
  using ready_slot [OF assms(1,2)]
proof (elim disjE conjE)
  assume i: "i = MAXEVENT" "ev_events (Events r i) = EPOLLIN"
    "ev_call_back (Events r i) = Some AcceptConnection" "v AND EPOLLOUT = 0"
  show thesis
  proof (cases "v AND EPOLLIN = 0")
    case True
    with i show thesis by (intro idle) (simp_all add: Let_def)
  next
    case False
    with i have d: "dispatch (i, v, a1, a2) r = and_then (acceptconnection a1 i r) Return"
      by (cases "acceptconnection a1 i r") (simp_all add: run_call_back_def)
    from i False have acts: "dispatch_actions (i, v, a1, a2) r = handler_actions a1 i r"
      by (simp add: Let_def split: outcome.split)
    show thesis
    proof (cases "a1 < 0")
      case True
      with d acts i show thesis by (intro accept_failed) (simp_all add: acceptconnection_def handler_actions_def)
    next
      case nonneg: False
      show thesis
      proof (cases "free_slot 0 (Events r)")
        case None
        with nonneg d acts i show thesis by (intro full) (simp_all add: accept_full handler_actions_def)
      next
        case (Some j)
        with nonneg d acts i assms(1,3) show thesis
          by (intro admitted [of j]) (simp_all add: accept_admits fresh_ok_def handler_actions_def)
      qed
    qed
  qed
next
  assume i: "active r i" "ev_events (Events r i) = EPOLLIN"
    "ev_call_back (Events r i) = Some RecvData" "v AND EPOLLOUT = 0"
  show thesis
  proof (cases "v AND EPOLLIN = 0")
    case True
    with i show thesis by (intro idle) (simp_all add: Let_def)
  next
    case False
    with i have d: "dispatch (i, v, a1, a2) r = and_then (recvData a1 i r) Return"
      by (cases "recvData a1 i r") (simp_all add: run_call_back_def)
    from i False have acts: "dispatch_actions (i, v, a1, a2) r = handler_actions a1 i r"
      by (simp add: Let_def split: outcome.split)
    show thesis
    proof (cases "0 < a1")
      case True
      with d acts i assms(1) show thesis by (intro request) (simp_all add: recvData_request handler_actions_def)
    next
      case False
      with d acts i assms(1) show thesis by (intro gone) (simp_all add: recvData_gone handler_actions_def)
    qed
  qed
next
  assume i: "active r i" "ev_events (Events r i) = EPOLLOUT"
    "ev_call_back (Events r i) = Some SendData" "v AND EPOLLIN = 0"
  show thesis
  proof (cases "v AND EPOLLOUT = 0")
    case True
    with i show thesis by (intro idle) (simp_all add: Let_def)
  next
    case False
    with i have d: "dispatch (i, v, a1, a2) r = sendData a2 i r"
      by (simp add: run_call_back_def)
    from i False have acts: "dispatch_actions (i, v, a1, a2) r = handler_actions a2 i r"
      by simp
    show thesis
    proof (cases "0 < a2")
      case True
      with d acts i assms(1) show thesis by (intro reply) (simp_all add: sendData_reply handler_actions_def)
    next
      case False
      with d acts i assms(1) show thesis by (intro broken) (simp_all add: sendData_fails handler_actions_def)
    qed
  qed
qed

declare dispatch.simps [simp del] dispatch_actions.simps [simp del]

section \<open>Runs of the reactor\<close>

definition reactor_init :: "reactor \<Rightarrow> bool" where
  "reactor_init r \<longleftrightarrow> (\<exists>epfd lfd. reactor_main epfd lfd = Return r)"

definition reactor_step :: "reactor \<Rightarrow> reactor \<Rightarrow> bool" where
  "reactor_step r r' \<longleftrightarrow> (\<exists>x. ready_ok r x \<and> fresh_ok r x \<and> dispatch x r = Return r')"

lemma reactor_init_state:
  assumes "reactor_main epfd lfd = Return r"
  shows "r = \<lparr>Events = (\<lambda>_. zero_event)(MAXEVENT := \<lparr>ev_fd = lfd, ev_events = EPOLLIN,
      ev_arg = Some MAXEVENT, ev_status = 1, ev_call_back = Some AcceptConnection\<rparr>),
    interest = [lfd \<mapsto> (EPOLLIN, MAXEVENT)], descriptors = {0, 1, 2, epfd, lfd}\<rparr>"
  using assms by (auto simp: reactor_main_def epoll_ctl_def Let_def split: if_splits)

lemma reactor_inv_init: "reactor_init r \<Longrightarrow> reactor_inv r"
  by (auto simp: reactor_init_def inv_defs zero_event_def dest!: reactor_init_state split: if_splits)

lemma dispatch_inv:
  assumes "reactor_inv r" and "ready_ok r x" and "fresh_ok r x" and "dispatch x r = Return r'"
  shows "reactor_inv r'"
proof -
  obtain i v a1 a2 where x: "x = (i, v, a1, a2)" by (cases x)
  show ?thesis
    using assms(1) assms(2,3) [unfolded x]
    by (rule dispatch_cases) (use assms(1,4) x in \<open>auto intro: handler_inv dest: free_slot_Some\<close>)
qed

interpretation rx: invariant_system reactor_init reactor_step reactor_inv
  by unfold_locales (auto simp: reactor_step_def intro: reactor_inv_init dispatch_inv)

text \<open>The clients seen from outside: each has sent no request yet, or waits for its reply.\<close>

datatype phase = AwaitRequest | AwaitReply

definition client_phase :: "reactor \<Rightarrow> int \<rightharpoonup> phase" where
  "client_phase r fd = (case interest r fd of
       None \<Rightarrow> None
     | Some (m, i) \<Rightarrow> if i = MAXEVENT then None
         else Some (if m = EPOLLIN then AwaitRequest else AwaitReply))"

inductive client_step :: "(int \<rightharpoonup> phase) \<Rightarrow> action \<Rightarrow> (int \<rightharpoonup> phase) \<Rightarrow> bool" where
  arrive: "m fd = None \<Longrightarrow> card (dom m) < MAXEVENT \<Longrightarrow> client_step m (Arrive fd) (m(fd \<mapsto> AwaitRequest))"
| turn_away: "m fd = None \<Longrightarrow> card (dom m) = MAXEVENT \<Longrightarrow> client_step m (Turn_Away fd) m"
| request: "m fd = Some AwaitRequest \<Longrightarrow> client_step m (Request fd) (m(fd \<mapsto> AwaitReply))"
| reply: "m fd = Some AwaitReply \<Longrightarrow> client_step m (Reply fd) (m(fd \<mapsto> AwaitRequest))"
| leave: "m fd = Some AwaitRequest \<Longrightarrow> client_step m (Leave fd) (m(fd := None))"

inductive_cases client_step_cases: "client_step m a m'"

text \<open>What a trace of the protocol says of one client: its requests and replies alternate.\<close>

lemma client_trace_counts:
  "trace client_step m as m' \<Longrightarrow>
    count_list as (Request fd) + (if m fd = Some AwaitReply then 1 else 0) =
    count_list as (Reply fd) + (if m' fd = Some AwaitReply then 1 else 0)"
proof (induction as arbitrary: m)
  case (Cons a as)
  then obtain n where n: "client_step m a n" "trace client_step n as m'" by auto
  from n(1) show ?case
    by (cases rule: client_step_cases) (use Cons.IH [OF n(2)] in \<open>auto split: if_splits\<close>)
qed simp

lemma client_phase_active:
  assumes "reactor_inv r" and "active r i"
  shows "client_phase r (ev_fd (Events r i)) =
    Some (if ev_events (Events r i) = EPOLLIN then AwaitRequest else AwaitReply)"
  using assms(1,2) by (rule active_slot) (use assms(2) in \<open>auto simp: client_phase_def active_def\<close>)

lemma client_phase_rearm:
  "active r i \<Longrightarrow> client_phase (rearm i m cb r) =
    (client_phase r)(ev_fd (Events r i) \<mapsto> if m = EPOLLIN then AwaitRequest else AwaitReply)"
  by (auto simp: fun_eq_iff client_phase_def rearm_def active_def Let_def)

lemma client_phase_drop:
  "client_phase (drop_client i r) = (client_phase r)(ev_fd (Events r i) := None)"
  by (auto simp: fun_eq_iff client_phase_def drop_client_def Let_def)

lemma client_phase_admit:
  "i < MAXEVENT \<Longrightarrow> client_phase (admit fd i r) = (client_phase r)(fd \<mapsto> AwaitRequest)"
  by (auto simp: fun_eq_iff client_phase_def admit_def)

text \<open>The clients are the slots in the tree, one descriptor each.\<close>

lemma client_phase_dom:
  assumes "reactor_inv r"
  shows "dom (client_phase r) = (\<lambda>i. ev_fd (Events r i)) ` {i. active r i}"
proof
  show "dom (client_phase r) \<subseteq> (\<lambda>i. ev_fd (Events r i)) ` {i. active r i}"
  proof
    fix fd assume "fd \<in> dom (client_phase r)"
    then obtain m i where "interest r fd = Some (m, i)" "i \<noteq> MAXEVENT"
      by (auto simp: client_phase_def split: option.splits if_splits)
    with invD_tree [OF assms this(1)] show "fd \<in> (\<lambda>i. ev_fd (Events r i)) ` {i. active r i}"
      by (auto simp: image_iff active_def intro!: exI [of _ i])
  qed
qed (use client_phase_active [OF assms] in auto)

lemma clients_count:
  assumes "reactor_inv r"
  shows "card (dom (client_phase r)) = card {i. active r i}"
proof -
  have "inj_on (\<lambda>i. ev_fd (Events r i)) {i. active r i}"
  proof (rule inj_onI)
    fix i j assume ij: "i \<in> {i. active r i}" "j \<in> {i. active r i}" "ev_fd (Events r i) = ev_fd (Events r j)"
    then have "i \<le> MAXEVENT" "ev_status (Events r i) = 1" "j \<le> MAXEVENT" "ev_status (Events r j) = 1"
      unfolding active_def mem_Collect_eq by (blast intro: less_imp_le)+
    from other_descriptor [OF assms this] ij(3) show "i = j" by blast
  qed
  then show ?thesis unfolding client_phase_dom [OF assms] by (rule card_image)
qed

lemma clients_bounded: "reactor_inv r \<Longrightarrow> card (dom (client_phase r)) \<le> MAXEVENT"
  using card_mono [of "{..<MAXEVENT}" "{i. active r i}"] by (simp add: clients_count subset_iff active_def)

lemma clients_room:
  assumes "reactor_inv r" and "free_slot 0 (Events r) = Some j"
  shows "card (dom (client_phase r)) < MAXEVENT"
proof -
  note j = free_slot_Some [OF assms(2)]
  have "{i. active r i} \<subseteq> {..<MAXEVENT}" by (auto simp: active_def)
  moreover have "j \<in> {..<MAXEVENT}" "j \<notin> {i. active r i}" using j by (simp_all add: active_def)
  ultimately have "card {i. active r i} < card {..<MAXEVENT}"
    by (intro psubset_card_mono psubsetI) (simp_all, blast)
  then show ?thesis by (simp add: clients_count [OF assms(1)])
qed

lemma clients_full:
  assumes "reactor_inv r" and "free_slot 0 (Events r) = None"
  shows "card (dom (client_phase r)) = MAXEVENT"
proof -
  have "active r i" if "i < MAXEVENT" for i
    using that assms(2) invD_slot [OF assms(1) that] by (auto simp: active_def free_slot_None slot_ok_def Let_def)
  then have "{i. active r i} = {..<MAXEVENT}" by (auto simp: active_def)
  then show ?thesis by (simp add: clients_count [OF assms(1)])
qed

lemma client_phase_unused: "reactor_inv r \<Longrightarrow> fd \<notin> descriptors r \<Longrightarrow> client_phase r fd = None"
  using invD_tree [of r fd] by (auto simp: client_phase_def split: option.splits)

text \<open>The actions of an entry are steps of the protocol.\<close>

lemma dispatch_refines:
  assumes "reactor_inv r" and "ready_ok r x" and "fresh_ok r x" and "dispatch x r = Return r'"
  shows "trace client_step (client_phase r) (dispatch_actions x r) (client_phase r')"
proof -
  obtain i v a1 a2 where x: "x = (i, v, a1, a2)" by (cases x)
  note phase = client_phase_active [OF assms(1)] client_phase_rearm client_phase_drop client_phase_admit
  note d = assms(4) [unfolded x]
  show ?thesis
    using assms(1) assms(2,3) [unfolded x]
  proof (cases rule: dispatch_cases)
    case request
    with d phase(1,2) show ?thesis by (auto simp: x intro!: client_step.request)
  next
    case gone
    with d phase(1,3) show ?thesis by (auto simp: x intro!: client_step.leave)
  next
    case reply
    with d phase(1,2) show ?thesis by (auto simp: x intro!: client_step.reply)
  next
    case (admitted j)
    then have "client_phase r' = (client_phase r)(a1 \<mapsto> AwaitRequest)"
      using d free_slot_Some [of 0 "Events r" j] phase(4) by auto
    with admitted client_phase_unused [OF assms(1)] clients_room [OF assms(1)] show ?thesis
      by (auto simp: x intro: client_step.arrive)
  next
    case full
    with d assms(3) x have "client_phase r a1 = None" "client_phase r' = client_phase r"
      by (auto simp: client_phase_def fun_eq_iff fresh_ok_def intro: client_phase_unused [OF assms(1), unfolded client_phase_def])
    with full clients_full [OF assms(1)] show ?thesis by (auto simp: x intro!: client_step.turn_away)
  qed (use d in \<open>auto simp: x\<close>)
qed

text \<open>A step of the reactor with its actions.\<close>

definition reactor_acts :: "reactor \<Rightarrow> action list \<Rightarrow> reactor \<Rightarrow> bool" where
  "reactor_acts r as r' \<longleftrightarrow>
     (\<exists>x. ready_ok r x \<and> fresh_ok r x \<and> dispatch x r = Return r' \<and> as = dispatch_actions x r)"

lemma client_phase_init: "reactor_init r \<Longrightarrow> client_phase r = Map.empty"
  by (auto simp: reactor_init_def client_phase_def fun_eq_iff dest!: reactor_init_state)

interpretation rf: refinement_system reactor_init reactor_step reactor_inv
    reactor_acts "\<lambda>m. m = Map.empty" client_step client_phase
  by unfold_locales
    (auto simp: reactor_step_def reactor_acts_def client_phase_init intro: dispatch_refines)

end
