(* ===== verification/Reactor_Runs.thy ===== *)
theory Reactor_Runs imports Reactor_Proofs begin

text \<open>
  Whole runs of the reactor: the batches \<open>epoll_wait\<close> returns, the loop of \<open>main\<close> over them, and the
  properties of the server.
\<close>

unbundle bit_operations_syntax

section \<open>Batches\<close>

text \<open>
  What \<open>epoll_wait\<close> promises of a batch: every slot at most once, each ready when it returns; and
  \<open>accept\<close>, when its turn comes, returns a descriptor that is not in use.
\<close>

fun batch_fresh :: "reactor \<Rightarrow> ready list \<Rightarrow> bool" where
  "batch_fresh r [] = True"
| "batch_fresh r (x # xs) =
     (fresh_ok r x \<and> (case dispatch x r of Return r' \<Rightarrow> batch_fresh r' xs | _ \<Rightarrow> True))"

definition batch_ok :: "reactor \<Rightarrow> ready list \<Rightarrow> bool" where
  "batch_ok r xs \<longleftrightarrow> distinct (map fst xs) \<and> list_all (ready_ok r) xs \<and> batch_fresh r xs"

fun waits_ok :: "reactor \<Rightarrow> ready list option list \<Rightarrow> bool" where
  "waits_ok r [] = True"
| "waits_ok r (None # ws) = True"
| "waits_ok r (Some b # ws) =
     (batch_ok r b \<and> (case run_batch b r of Return r' \<Rightarrow> waits_ok r' ws | _ \<Rightarrow> True))"

text \<open>The entries whose \<open>accept\<close> and \<open>send\<close> do not fail; a \<open>recv\<close> may.\<close>

definition served :: "ready \<Rightarrow> bool" where
  "served x \<longleftrightarrow> (fst x = MAXEVENT \<longrightarrow> 0 \<le> fst (snd (snd x))) \<and> 0 < snd (snd (snd x))"

text \<open>An entry that waits its turn is not disturbed by the handlers before it.\<close>

lemma ready_ok_frame:
  assumes "ready_ok r y" and "\<And>fd m. interest r fd = Some (m, fst y) \<Longrightarrow> interest r' fd = Some (m, fst y)"
  shows "ready_ok r' y"
  using assms by (auto simp: ready_ok_def)

lemma dispatch_keeps_ready:
  assumes inv: "reactor_inv r" and "ready_ok r x" and "fresh_ok r x" and "dispatch x r = Return r'"
    and y: "ready_ok r y" and "fst y \<noteq> fst x"
  shows "ready_ok r' y"
proof (rule ready_ok_frame [OF y])
  fix fd m assume fd: "interest r fd = Some (m, fst y)"
  obtain i v a1 a2 where x: "x = (i, v, a1, a2)" by (cases x)
  note t = invD_tree [OF inv fd]
  have other: "active r i \<Longrightarrow> ev_fd (Events r i) \<noteq> fd"
    using other_descriptor [OF inv, of i "fst y"] t assms(6) x by (auto simp: active_def)
  show "interest r' fd = Some (m, fst y)"
    using inv assms(2,3) [unfolded x]
    by (rule dispatch_cases)
      (use assms(4) x fd t other in \<open>auto simp: rearm_def drop_client_def admit_def Let_def\<close>)
qed

lemma dispatch_served:
  assumes "reactor_inv r" and "ready_ok r x" and "fresh_ok r x"
  shows "dispatch x r \<noteq> Fault" and "served x \<Longrightarrow> \<exists>r'. dispatch x r = Return r'"
proof -
  obtain i v a1 a2 where x: "x = (i, v, a1, a2)" by (cases x)
  show "dispatch x r \<noteq> Fault"
    using assms(1) assms(2,3) [unfolded x] by (rule dispatch_cases) (auto simp: x)
  show "served x \<Longrightarrow> \<exists>r'. dispatch x r = Return r'"
    using assms(1) assms(2,3) [unfolded x] by (rule dispatch_cases) (auto simp: x served_def)
qed

lemma dispatch_ends:
  assumes "reactor_inv r" and "ready_ok r x" and "fresh_ok r x"
  shows "dispatch x r = Exit n \<Longrightarrow> dispatch_actions x r = []" and "dispatch x r \<noteq> Fault"
proof -
  obtain i v a1 a2 where x: "x = (i, v, a1, a2)" by (cases x)
  show "dispatch x r = Exit n \<Longrightarrow> dispatch_actions x r = []"
    using assms(1) assms(2,3) [unfolded x] by (rule dispatch_cases) (auto simp: x)
  show "dispatch x r \<noteq> Fault"
    using assms(1) assms(2,3) [unfolded x] by (rule dispatch_cases) (auto simp: x)
qed

lemma batch_ok_tail:
  assumes "reactor_inv r" and "batch_ok r (x # xs)" and "dispatch x r = Return r1"
  shows "batch_ok r1 xs"
proof -
  from assms(2) have x: "ready_ok r x" "fresh_ok r x" by (auto simp: batch_ok_def)
  have "ready_ok r1 y" if y: "y \<in> set xs" for y
  proof -
    have "fst x \<notin> fst ` set xs" using assms(2) by (simp add: batch_ok_def)
    then have "fst y \<noteq> fst x" using y by (metis image_eqI)
    moreover have "ready_ok r y" using assms(2) y by (simp add: batch_ok_def list_all_iff)
    ultimately show ?thesis using dispatch_keeps_ready [OF assms(1) x assms(3)] by blast
  qed
  then show ?thesis using assms(2,3) by (auto simp: batch_ok_def list_all_iff)
qed

lemma run_batch_ok:
  assumes "reactor_inv r" and "batch_ok r xs"
  shows "run_batch xs r \<noteq> Fault \<and> (\<forall>r'. run_batch xs r = Return r' \<longrightarrow> reactor_step\<^sup>*\<^sup>* r r') \<and>
    (list_all served xs \<longrightarrow> (\<exists>r'. run_batch xs r = Return r'))"
  using assms
proof (induction xs arbitrary: r)
  case (Cons x xs)
  from Cons.prems(2) have x: "ready_ok r x" "fresh_ok r x" by (auto simp: batch_ok_def)
  note d = dispatch_served [OF Cons.prems(1) x]
  show ?case
  proof (cases "dispatch x r")
    case (Return r1)
    have "batch_ok r1 xs" using Cons.prems Return by (rule batch_ok_tail)
    moreover have "reactor_inv r1" using Cons.prems(1) x Return by (rule dispatch_inv)
    moreover have "reactor_step r r1" unfolding reactor_step_def using x Return by blast
    ultimately show ?thesis
      using Cons.IH [of r1] Return by (auto intro: steps_before)
  qed (use d in auto)
qed auto

lemma event_loop_ok:
  assumes "reactor_inv r" and "waits_ok r ws"
  shows "event_loop ws r \<noteq> Fault \<and> (\<forall>r'. event_loop ws r = Return r' \<longrightarrow> reactor_step\<^sup>*\<^sup>* r r') \<and>
    (list_all (\<lambda>w. \<exists>b. w = Some b \<and> list_all served b) ws \<longrightarrow> (\<exists>r'. event_loop ws r = Return r'))"
  using assms
proof (induction ws arbitrary: r)
  case (Cons w ws)
  show ?case
  proof (cases w)
    case (Some b)
    with Cons.prems run_batch_ok [of r b]
    have b: "run_batch b r \<noteq> Fault" "\<And>r'. run_batch b r = Return r' \<Longrightarrow> reactor_step\<^sup>*\<^sup>* r r'"
      "list_all served b \<Longrightarrow> \<exists>r'. run_batch b r = Return r'"
      by auto
    show ?thesis
    proof (cases "run_batch b r")
      case (Return r1)
      with b(2) Cons.prems(1) have "reactor_inv r1" "reactor_step\<^sup>*\<^sup>* r r1"
        by (auto intro: rx.inv_steps)
      with Cons.IH [of r1] Cons.prems(2) Some Return show ?thesis
        by (auto intro: rtranclp_trans)
    qed (use b Some in auto)
  qed simp
qed auto

text \<open>The actions of a run are those of its steps; a run that exits performs those before its end.\<close>

lemma batch_acts:
  assumes "reactor_inv r" and "batch_ok r xs"
  shows "\<exists>ass r1. trace reactor_acts r ass r1 \<and> concat ass = batch_actions xs r \<and>
    (\<forall>r'. run_batch xs r = Return r' \<longrightarrow> r1 = r')"
  using assms
proof (induction xs arbitrary: r)
  case Nil
  then show ?case by (intro exI [of _ "[]"]) auto
next
  case (Cons x xs)
  from Cons.prems(2) have x: "ready_ok r x" "fresh_ok r x" by (auto simp: batch_ok_def)
  show ?case
  proof (cases "dispatch x r")
    case (Return r1)
    from Cons.IH [OF dispatch_inv [OF Cons.prems(1) x Return] batch_ok_tail [OF Cons.prems Return]]
    obtain ass r2 where ass: "trace reactor_acts r1 ass r2" "concat ass = batch_actions xs r1"
      "\<forall>r'. run_batch xs r1 = Return r' \<longrightarrow> r2 = r'" by blast
    have "reactor_acts r (dispatch_actions x r) r1" unfolding reactor_acts_def using x Return by blast
    with ass Return show ?thesis by (intro exI [of _ "dispatch_actions x r # ass"] exI [of _ r2]) auto
  next
    case (Exit n)
    with dispatch_ends [OF Cons.prems(1) x] show ?thesis by (intro exI [of _ "[]"]) auto
  next
    case Fault
    with dispatch_ends [OF Cons.prems(1) x] show ?thesis by (intro exI [of _ "[]"]) auto
  qed
qed

lemma loop_acts:
  assumes "reactor_inv r" and "waits_ok r ws"
  shows "\<exists>ass r1. trace reactor_acts r ass r1 \<and> concat ass = loop_actions ws r \<and>
    (\<forall>r'. event_loop ws r = Return r' \<longrightarrow> r1 = r')"
  using assms
proof (induction ws arbitrary: r)
  case Nil
  then show ?case by (intro exI [of _ "[]"]) auto
next
  case (Cons w ws)
  show ?case
  proof (cases w)
    case None
    then show ?thesis by (intro exI [of _ "[]"]) auto
  next
    case (Some b)
    with Cons.prems have b: "batch_ok r b" by auto
    from batch_acts [OF Cons.prems(1) b] obtain ass r1 where ass: "trace reactor_acts r ass r1"
      "concat ass = batch_actions b r" "\<And>r'. run_batch b r = Return r' \<Longrightarrow> r1 = r'" by blast
    show ?thesis
    proof (cases "run_batch b r")
      case (Return r')
      with ass(3) have r1: "run_batch b r = Return r1" by simp
      moreover from r1 Cons.prems(2) Some have "waits_ok r1 ws" by simp
      ultimately obtain bss r2 where bss: "trace reactor_acts r1 bss r2" "concat bss = loop_actions ws r1"
        "\<forall>r'. event_loop ws r1 = Return r' \<longrightarrow> r2 = r'"
        using Cons.IH [of r1] rf.acts_inv [OF ass(1) Cons.prems(1)] by blast
      have "trace reactor_acts r (ass @ bss) r2" using ass(1) bss(1) by (auto simp: trace_append)
      moreover have "concat (ass @ bss) = loop_actions (w # ws) r" using ass(2) bss(2) Some r1 by simp
      moreover have "\<forall>r'. event_loop (w # ws) r = Return r' \<longrightarrow> r2 = r'" using bss(3) Some r1 by simp
      ultimately show ?thesis by blast
    qed (use ass Some in \<open>intro exI [of _ ass] exI [of _ r1], simp\<close>)+
  qed
qed

section \<open>Connections that find no slot\<close>

definition leaked :: "int \<Rightarrow> reactor \<Rightarrow> bool" where
  "leaked fd r \<longleftrightarrow> fd \<in> descriptors r \<and> interest r fd = None"

lemma leaked_step:
  assumes "reactor_inv r" and "reactor_step r r'" and "leaked fd r"
  shows "leaked fd r'"
proof -
  obtain i v a1 a2 where x: "ready_ok r (i, v, a1, a2)" "fresh_ok r (i, v, a1, a2)"
    "dispatch (i, v, a1, a2) r = Return r'"
    using assms(2) by (auto simp: reactor_step_def)
  have other: "active r i \<Longrightarrow> ev_fd (Events r i) \<noteq> fd"
    using assms(1,3) by (auto elim!: active_slot simp: leaked_def)
  show ?thesis
    using assms(1) x(1,2)
    by (rule dispatch_cases)
      (use assms(3) x(3) other in \<open>auto simp: leaked_def rearm_def drop_client_def admit_def Let_def\<close>)
qed

lemma leaked_steps:
  "reactor_step\<^sup>*\<^sup>* r r' \<Longrightarrow> reactor_inv r \<Longrightarrow> leaked fd r \<Longrightarrow> leaked fd r'"
proof (induction rule: rtranclp_induct)
  case (step r1 r2)
  then show ?case using leaked_step rx.inv_steps by blast
qed simp

section \<open>Properties\<close>

text \<open>A server with \<open>epfd = 3\<close> and listener \<open>4\<close>, and after its first client, on descriptor \<open>5\<close>.\<close>

definition boot :: reactor where
  "boot = \<lparr>Events = (\<lambda>_. zero_event)(MAXEVENT := \<lparr>ev_fd = 4, ev_events = EPOLLIN,
      ev_arg = Some MAXEVENT, ev_status = 1, ev_call_back = Some AcceptConnection\<rparr>),
    interest = [4 \<mapsto> (EPOLLIN, MAXEVENT)], descriptors = {0, 1, 2, 3, 4}\<rparr>"

lemma reactor_main_boot: "reactor_main 3 4 = Return boot"
  by (simp add: reactor_main_def epoll_ctl_def boot_def Let_def)

lemma MAXEVENT_pos [simp]: "0 < MAXEVENT" "MAXEVENT \<noteq> 0"
  by (simp_all add: MAXEVENT_def)

lemma boot_slot: "free_slot 0 (Events boot) = Some 0"
  by (simp add: boot_def free_slot.simps zero_event_def)

lemma boot_inv: "reactor_inv boot"
  using reactor_main_boot by (intro reactor_inv_init) (auto simp: reactor_init_def)

lemma boot_ready: "ready_ok boot (MAXEVENT, EPOLLIN, 5, a)" "fresh_ok boot (MAXEVENT, EPOLLIN, 5, a)"
  by (auto simp: ready_ok_def fresh_ok_def boot_def machine_simps)

lemma dispatch_accept:
  assumes "reactor_inv r" and "0 \<le> fd" and "fd \<notin> descriptors r" and "free_slot 0 (Events r) = Some j"
  shows "dispatch (MAXEVENT, EPOLLIN, fd, a) r = Return (admit fd j r)"
    and "reactor_step r (admit fd j r)"
proof -
  note lis = invD_listener [OF assms(1), unfolded listener_ok_def Let_def]
  have j: "j < MAXEVENT" using assms(4) by (auto dest: free_slot_Some)
  have "acceptconnection fd MAXEVENT r = Return (admit fd j r)"
    using assms by (rule accept_admits)
  moreover from j have "Events (admit fd j r) MAXEVENT = Events r MAXEVENT"
    by (simp add: admit_def)
  ultimately show d: "dispatch (MAXEVENT, EPOLLIN, fd, a) r = Return (admit fd j r)" for a
    using lis by (simp add: dispatch.simps run_call_back_def)
  have "EPOLLIN AND (EPOLLIN OR EPOLLERR OR EPOLLHUP) = EPOLLIN" by (simp add: machine_simps)
  with lis have "ready_ok r (MAXEVENT, EPOLLIN, fd, 1)" unfolding ready_ok_def by (metis fst_conv snd_conv)
  moreover have "fresh_ok r (MAXEVENT, EPOLLIN, fd, 1)" using assms(3) by (simp add: fresh_ok_def)
  ultimately show "reactor_step r (admit fd j r)"
    unfolding reactor_step_def using d [of 1] by (intro exI conjI)
qed

lemma boot_accept: "dispatch (MAXEVENT, EPOLLIN, 5, a) boot = Return (admit 5 0 boot)"
  and boot_step: "reactor_step boot (admit 5 0 boot)"
  using dispatch_accept [OF boot_inv _ _ boot_slot, of 5] by (simp_all add: boot_def)

lemma boot_acts: "dispatch_actions (MAXEVENT, EPOLLIN, 5, a) boot = [Arrive 5]"
proof -
  have lis: "ev_events (Events boot MAXEVENT) = EPOLLIN" "ev_call_back (Events boot MAXEVENT) = Some AcceptConnection"
    by (simp_all add: boot_def)
  with boot_slot show ?thesis
    by (simp add: dispatch_actions.simps handler_actions_def Let_def split: outcome.split)
qed

lemma boot_reach: "reach reactor_init reactor_step boot"
  using reactor_main_boot by (intro reach_init) (auto simp: reactor_init_def)

lemma client_reach: "reach reactor_init reactor_step (admit 5 0 boot)"
  using boot_reach boot_step by (rule reach_step)

text \<open>The state after the table has filled up with clients on descriptors \<open>5, 6, \<dots>\<close>.\<close>

fun filled :: "nat \<Rightarrow> reactor" where
  "filled 0 = boot"
| "filled (Suc n) = admit (5 + int n) n (filled n)"

lemma filled_state:
  "n \<le> MAXEVENT \<Longrightarrow> (\<forall>i < MAXEVENT. ev_status (Events (filled n) i) = (if i < n then 1 else 0)) \<and>
    descriptors (filled n) = {0..<5 + int n}"
  by (induction n) (auto simp: boot_def zero_event_def admit_def)

lemma filled_slot:
  assumes "n < MAXEVENT"
  shows "free_slot 0 (Events (filled n)) = Some n"
proof (cases "free_slot 0 (Events (filled n))")
  case None
  with assms filled_state [of n] show ?thesis by (auto simp: free_slot_None)
next
  case (Some j)
  have "free_slot i (Events (filled n)) = Some n" if "i \<le> n" for i
    using that assms filled_state [of n]
    by (induction i rule: inc_induct) (auto simp: free_slot.simps)
  then show ?thesis by simp
qed

lemma filled_reach: "n \<le> MAXEVENT \<Longrightarrow> reach reactor_init reactor_step (filled n)"
proof (induction n)
  case 0
  then show ?case by (simp add: boot_reach)
next
  case (Suc n)
  then have n: "n < MAXEVENT" and r: "reach reactor_init reactor_step (filled n)" by simp_all
  have "5 + int n \<notin> descriptors (filled n)" using filled_state [of n] n by simp
  with dispatch_accept(2) [OF rx.inv_reach [OF r] _ _ filled_slot [OF n]] r show ?case
    by (auto intro: reach_step)
qed

lemma filled_full: "free_slot 0 (Events (filled MAXEVENT)) = None"
  using filled_state [of MAXEVENT] by (simp add: free_slot_None)

text \<open>C1: the reactor never calls a null handler, and its table always agrees with the kernel's tree.
  From \<open>main\<close> on, over any results of \<open>epoll_wait\<close> the kernel may give, no run goes wrong, every
  state it passes satisfies \<open>reactor_inv\<close> (each slot in use is registered for exactly the event its
  handler serves, the free slots are not in the tree, the listener is armed), and only a failing
  \<open>accept\<close>, \<open>send\<close> or \<open>epoll_wait\<close> ends the server.\<close>

theorem reactor_runs:
  assumes "reactor_main epfd lfd = Return r" and "waits_ok r ws"
  shows "event_loop ws r \<noteq> Fault \<and> (\<forall>r'. event_loop ws r = Return r' \<longrightarrow> reactor_inv r') \<and>
    (list_all (\<lambda>w. \<exists>b. w = Some b \<and> list_all served b) ws \<longrightarrow> (\<exists>r'. event_loop ws r = Return r'))"
proof -
  from assms(1) have inv: "reactor_inv r" by (intro reactor_inv_init) (auto simp: reactor_init_def)
  with event_loop_ok [OF inv assms(2)] show ?thesis by (auto intro: rx.inv_steps)
qed

theorem reactor_runs_witness:
  "\<exists>r'. event_loop [Some [(MAXEVENT, EPOLLIN, 5, 1)]] boot = Return r' \<and> reactor_inv r'"
proof -
  have "waits_ok boot [Some [(MAXEVENT, EPOLLIN, 5, 1)]]"
    using boot_ready [of 1] by (simp add: batch_ok_def boot_accept)
  moreover have "list_all (\<lambda>w. \<exists>b. w = Some b \<and> list_all served b) [Some [(MAXEVENT, EPOLLIN, 5, 1)]]"
    by (simp add: served_def)
  ultimately show ?thesis using reactor_runs [OF reactor_main_boot] by blast
qed

text \<open>C2: seen from outside, the reactor implements a request-reply protocol. From \<open>main\<close> on, over
  any results of \<open>epoll_wait\<close> the kernel may give, the sequence of all actions on the connections
  (also of a run that ends in \<open>exit\<close>) is a trace of the protocol \<open>client_step\<close>: a connection is let
  in exactly while fewer than \<open>MAXEVENT\<close> clients are served, and a client then strictly alternates
  between a request received and one reply sent, and is let go only when no reply is due; whatever
  the other clients do. So at every time each client has as many replies as requests, or one fewer.\<close>

theorem reactor_refines:
  assumes "reactor_main epfd lfd = Return r" and "waits_ok r ws"
  shows "\<exists>m. trace client_step Map.empty (loop_actions ws r) m \<and>
    (\<forall>r'. event_loop ws r = Return r' \<longrightarrow> client_phase r' = m) \<and>
    (\<forall>fd. count_list (loop_actions ws r) (Request fd) =
       count_list (loop_actions ws r) (Reply fd) + (if m fd = Some AwaitReply then 1 else 0))"
proof -
  from assms(1) have init: "reactor_init r" by (auto simp: reactor_init_def)
  from loop_acts [OF reactor_inv_init [OF init] assms(2)] obtain ass r1 where
    r1: "trace reactor_acts r ass r1" "concat ass = loop_actions ws r"
      "\<forall>r'. event_loop ws r = Return r' \<longrightarrow> r1 = r'" by blast
  with rf.abs_run [OF init r1(1)] have "trace client_step Map.empty (loop_actions ws r) (client_phase r1)"
    by simp
  with r1(3) client_trace_counts [OF this] show ?thesis
    by (intro exI [of _ "client_phase r1"]) auto
qed

theorem reactor_refines_witness:
  "\<exists>m. trace client_step Map.empty [Arrive 5] m \<and>
    (\<forall>r'. event_loop [Some [(MAXEVENT, EPOLLIN, 5, 1)]] boot = Return r' \<longrightarrow> client_phase r' = m)"
proof -
  have ok: "waits_ok boot [Some [(MAXEVENT, EPOLLIN, 5, 1)]]"
    using boot_ready [of 1] by (simp add: batch_ok_def boot_accept)
  have "loop_actions [Some [(MAXEVENT, EPOLLIN, 5, 1)]] boot = [Arrive 5]"
    using boot_slot by (simp add: boot_accept boot_acts)
  with reactor_refines [OF reactor_main_boot ok] show ?thesis by auto
qed

text \<open>C32: one client that breaks its connection while its reply is due ends the server for everybody.
  In every reachable state, a \<open>recv\<close> that fails or finds the connection closed drops just that
  client; a \<open>send\<close> that fails exits, since \<open>sendData\<close> calls \<open>eventdel\<close> twice and the second call
  becomes an \<open>EPOLL_CTL_MOD\<close> with a null event.\<close>

theorem send_failure_kills_server:
  assumes "reach reactor_init reactor_step r" and "active r i" and "len \<le> 0"
  shows "sendData len i r = Exit EXIT_FAILURE \<and>
    (\<exists>r'. recvData len i r = Return r' \<and>
      client_phase r' = (client_phase r)(ev_fd (Events r i) := None) \<and>
      descriptors r' = descriptors r - {ev_fd (Events r i)} \<and> ev_status (Events r' i) = 0)"
proof -
  note inv = rx.inv_reach [OF assms(1)]
  show ?thesis
    using sendData_fails [OF inv assms(2,3)] recvData_gone [OF inv assms(2,3)]
    by (simp add: client_phase_drop) (simp add: drop_client_def Let_def)
qed

theorem send_failure_kills_server_witness:
  "sendData (- 1) 0 (admit 5 0 boot) = Exit EXIT_FAILURE \<and>
    (\<exists>r'. recvData 0 0 (admit 5 0 boot) = Return r' \<and> client_phase r' 5 = None)"
proof -
  have a: "active (admit 5 0 boot) 0" "ev_fd (Events (admit 5 0 boot) 0) = 5"
    by (simp_all add: active_def admit_def)
  show ?thesis
    using send_failure_kills_server [OF client_reach a(1), of "- 1"]
      send_failure_kills_server [OF client_reach a(1), of 0] a(2)
    by auto
qed

text \<open>a connection that finds the table full is never served and never closed. \<open>acceptconnection\<close>
  keeps no record of it, and its descriptor stays open, outside the tree, in every later state.\<close>

lemma full_table_leaks:
  assumes "reach reactor_init reactor_step r" and "free_slot 0 (Events r) = None"
    and "0 \<le> fd" and "fd \<notin> descriptors r"
  shows "\<exists>r'. acceptconnection fd MAXEVENT r = Return r' \<and>
    (\<forall>r''. reactor_step\<^sup>*\<^sup>* r' r'' \<longrightarrow> fd \<in> descriptors r'' \<and> interest r'' fd = None)"
proof -
  from assms(1) have inv: "reactor_inv r" by (rule rx.inv_reach)
  let ?r = "r\<lparr>descriptors := insert fd (descriptors r)\<rparr>"
  have "interest r fd = None" using inv assms(4) by (auto simp: inv_defs)
  then have "leaked fd ?r" by (simp add: leaked_def)
  moreover have "reactor_inv ?r" using inv by (rule descriptor_inv)
  moreover have "acceptconnection fd MAXEVENT r = Return ?r"
    using assms(2,3) by (simp add: accept_full)
  ultimately show ?thesis
    using leaked_steps by (auto simp: leaked_def)
qed

theorem full_table_leaks_witness:
  "\<exists>r'. acceptconnection 2000 MAXEVENT (filled MAXEVENT) = Return r' \<and>
    (\<forall>r''. reactor_step\<^sup>*\<^sup>* r' r'' \<longrightarrow> 2000 \<in> descriptors r'' \<and> interest r'' 2000 = None)"
  using full_table_leaks [OF filled_reach [OF order_refl] filled_full, of 2000]
    filled_state [of MAXEVENT] by (simp add: MAXEVENT_def)

text \<open>the server holds at most \<open>MAXEVENT\<close> clients at a time.\<close>

lemma reactor_capacity:
  assumes "reach reactor_init reactor_step r"
  shows "card (dom (client_phase r)) \<le> MAXEVENT"
  using clients_bounded [OF rx.inv_reach [OF assms]] by simp

theorem reactor_capacity_witness:
  "card (dom (client_phase (admit 5 0 boot))) \<le> 1024"
  using reactor_capacity [OF client_reach] by (simp add: MAXEVENT_def)

end
