(* ===== verification/Prod_Cons.thy ===== *)
theory Prod_Cons imports Systems begin

text \<open>
  \<^verbatim>\<open>src/producer_consumer_model.c\<close>: a producer and a consumer thread, a mutex and a condition
  variable. One step is one action between two scheduling points: a test, a mutex call, one pass
  through a critical region, a \<open>pthread_cond_signal\<close>. The mutex and condition calls do not fail
  here (the sources exit when they do).
\<close>

section \<open>The threads\<close>

definition TOTAL_COUNT :: int where "TOTAL_COUNT = 20000"

datatype thread = Producer | Consumer

datatype producer_pc = P_Test | P_Lock | P_Add | P_Unlock | P_Signal | P_Done
datatype consumer_pc = C_Test | C_Lock | C_While | C_Wait | C_Woken | C_Take | C_Unlock | C_Done

text \<open>\<open>C_Wait\<close> sleeps inside \<open>pthread_cond_wait\<close>, \<open>C_Woken\<close> has been woken and takes the mutex back.\<close>

record pc_state =
  p_pc :: producer_pc
  p_j :: int                     \<comment> \<open>\<open>j\<close> of \<open>producer\<close>\<close>
  c_pc :: consumer_pc
  c_i :: int                     \<comment> \<open>the static \<open>i\<close> of \<open>consumer\<close>\<close>
  pc_mtx :: "thread option"
  available :: int
  consumed :: int

text \<open>\<open>pthread_cond_signal\<close> wakes the consumer when it sleeps, and is lost otherwise.\<close>

definition cond_signal :: "pc_state \<Rightarrow> pc_state" where
  "cond_signal s = (if c_pc s = C_Wait then s\<lparr>c_pc := C_Woken\<rparr> else s)"

text \<open>A step of each thread; \<open>None\<close> when it is blocked or has returned.\<close>

definition producer_step :: "pc_state \<Rightarrow> pc_state option" where
  "producer_step s =
     (case p_pc s of
        P_Test \<Rightarrow> Some (s\<lparr>p_pc := if p_j s < TOTAL_COUNT then P_Lock else P_Done\<rparr>)
      | P_Lock \<Rightarrow> (if pc_mtx s = None then Some (s\<lparr>p_pc := P_Add, pc_mtx := Some Producer\<rparr>) else None)
      | P_Add \<Rightarrow> Some (s\<lparr>p_pc := P_Unlock, available := available s + 1\<rparr>)
      | P_Unlock \<Rightarrow> Some (s\<lparr>p_pc := P_Signal, pc_mtx := None\<rparr>)
      | P_Signal \<Rightarrow>
          (let s' = (if p_j s mod 10 = 0 then cond_signal s else s)
           in Some (s'\<lparr>p_pc := P_Test, p_j := p_j s + 1\<rparr>))
      | P_Done \<Rightarrow> None)"

definition consumer_step :: "pc_state \<Rightarrow> pc_state option" where
  "consumer_step s =
     (case c_pc s of
        C_Test \<Rightarrow> Some (s\<lparr>c_pc := if consumed s \<noteq> TOTAL_COUNT then C_Lock else C_Done\<rparr>)
      | C_Lock \<Rightarrow> (if pc_mtx s = None then Some (s\<lparr>c_pc := C_While, pc_mtx := Some Consumer\<rparr>) else None)
      | C_While \<Rightarrow>
          (if available s = 0 then Some (s\<lparr>c_pc := C_Wait, pc_mtx := None\<rparr>)
           else Some (s\<lparr>c_pc := C_Take\<rparr>))
      | C_Wait \<Rightarrow> None
      | C_Woken \<Rightarrow> (if pc_mtx s = None then Some (s\<lparr>c_pc := C_While, pc_mtx := Some Consumer\<rparr>) else None)
      | C_Take \<Rightarrow>
          (if available s > 0
           then Some (s\<lparr>c_i := c_i s + 1, consumed := consumed s + 1, available := available s - 1\<rparr>)
           else Some (s\<lparr>c_pc := C_Unlock\<rparr>))
      | C_Unlock \<Rightarrow> Some (s\<lparr>c_pc := C_Test, pc_mtx := None\<rparr>)
      | C_Done \<Rightarrow> None)"

definition pc_start :: pc_state where
  "pc_start = \<lparr>p_pc = P_Test, p_j = 0, c_pc = C_Test, c_i = 0, pc_mtx = None, available = 0, consumed = 0\<rparr>"

definition pc_thread_step :: "pc_state \<Rightarrow> pc_state \<Rightarrow> bool" where
  "pc_thread_step s t \<longleftrightarrow> producer_step s = Some t \<or> consumer_step s = Some t"

text \<open>POSIX lets \<open>pthread_cond_wait\<close> also return without a signal.\<close>

definition pc_step :: "pc_state \<Rightarrow> pc_state \<Rightarrow> bool" where
  "pc_step s t \<longleftrightarrow> pc_thread_step s t \<or> c_pc s = C_Wait \<and> t = s\<lparr>c_pc := C_Woken\<rparr>"

abbreviation pc_init :: "pc_state \<Rightarrow> bool" where "pc_init s \<equiv> s = pc_start"

text \<open>
  \<open>main\<close>, with the results of the two \<open>pthread_create\<close> and the state its threads have reached: \<open>None\<close>
  while it waits in \<open>pthread_join\<close>.
\<close>

definition pc_main :: "int \<Rightarrow> int \<Rightarrow> pc_state \<Rightarrow> unit outcome option" where
  "pc_main s1 s2 s =
     (if s1 > 0 then Some (Exit EXIT_FAILURE)
      else if s2 > 0 then Some (Exit EXIT_FAILURE)
      else if p_pc s = P_Done \<and> c_pc s = C_Done then Some (Return ())
      else None)"

section \<open>The invariant\<close>

text \<open>The units the producer has made, and the thread a program counter puts in the critical region.\<close>

definition made :: "pc_state \<Rightarrow> int" where
  "made s = p_j s + (if p_pc s = P_Unlock \<or> p_pc s = P_Signal then 1 else 0)"

definition pc_critical :: "pc_state \<Rightarrow> thread \<Rightarrow> bool" where
  "pc_critical s t \<longleftrightarrow> (case t of
       Producer \<Rightarrow> p_pc s = P_Add \<or> p_pc s = P_Unlock
     | Consumer \<Rightarrow> c_pc s = C_While \<or> c_pc s = C_Take \<or> c_pc s = C_Unlock)"

text \<open>The most units that can pile up while the consumer sleeps.\<close>

definition backlog :: "pc_state \<Rightarrow> int" where
  "backlog s = (p_j s + 9) mod 10 + (if p_pc s = P_Unlock \<or> p_pc s = P_Signal then 1 else 0)"

definition producer_ok :: "pc_state \<Rightarrow> bool" where
  "producer_ok s \<longleftrightarrow> 0 \<le> p_j s \<and>
     (if p_pc s = P_Test then p_j s \<le> TOTAL_COUNT
      else if p_pc s = P_Done then p_j s = TOTAL_COUNT
      else p_j s < TOTAL_COUNT)"

definition consumer_ok :: "pc_state \<Rightarrow> bool" where
  "consumer_ok s \<longleftrightarrow> c_i s = consumed s \<and>
     (c_pc s \<in> {C_Lock, C_While, C_Wait, C_Woken} \<longrightarrow> consumed s \<noteq> TOTAL_COUNT) \<and>
     (c_pc s = C_Done \<longrightarrow> consumed s = TOTAL_COUNT) \<and>
     (c_pc s = C_Wait \<longrightarrow> available s \<le> backlog s)"

definition units_ok :: "pc_state \<Rightarrow> bool" where
  "units_ok s \<longleftrightarrow> 0 \<le> available s \<and> 0 \<le> consumed s \<and> consumed s + available s = made s"

definition mutex_ok :: "pc_state \<Rightarrow> bool" where
  "mutex_ok s \<longleftrightarrow> (\<forall>t. pc_critical s t \<longleftrightarrow> pc_mtx s = Some t)"

definition pc_inv :: "pc_state \<Rightarrow> bool" where
  "pc_inv s \<longleftrightarrow> producer_ok s \<and> consumer_ok s \<and> units_ok s \<and> mutex_ok s"

lemmas pc_inv_defs = producer_ok_def consumer_ok_def units_ok_def made_def

lemma all_thread: "(\<forall>t. P t) \<longleftrightarrow> P Producer \<and> P Consumer"
  by (metis thread.exhaust)

lemma mutex_ok_iff:
  "mutex_ok s \<longleftrightarrow>
    (p_pc s \<in> {P_Add, P_Unlock} \<longleftrightarrow> pc_mtx s = Some Producer) \<and>
    (c_pc s \<in> {C_While, C_Take, C_Unlock} \<longleftrightarrow> pc_mtx s = Some Consumer)"
  by (simp add: mutex_ok_def pc_critical_def all_thread)

lemma backlog_next: "p_pc s = P_Signal \<Longrightarrow> p_j s mod 10 \<noteq> 0 \<Longrightarrow>
  backlog (s\<lparr>p_pc := P_Test, p_j := p_j s + 1\<rparr>) = backlog s"
  unfolding backlog_def by simp presburger

lemma backlog_nonneg: "0 \<le> backlog s"
  by (simp add: backlog_def)

lemma backlog_consumer [simp]: "backlog (s\<lparr>c_pc := q\<rparr>) = backlog s" "backlog (s\<lparr>pc_mtx := m\<rparr>) = backlog s"
  "backlog (s\<lparr>consumed := n\<rparr>) = backlog s" "backlog (s\<lparr>available := n\<rparr>) = backlog s"
  "backlog (s\<lparr>c_i := n\<rparr>) = backlog s"
  by (simp_all add: backlog_def)

lemma backlog_pc:
  "p_pc s \<in> {P_Test, P_Lock, P_Add, P_Done} \<Longrightarrow> q \<in> {P_Test, P_Lock, P_Add, P_Done} \<Longrightarrow>
    backlog (s\<lparr>p_pc := q\<rparr>) = backlog s"
  "p_pc s = P_Add \<Longrightarrow> backlog (s\<lparr>p_pc := P_Unlock\<rparr>) = backlog s + 1"
  "p_pc s = P_Unlock \<Longrightarrow> backlog (s\<lparr>p_pc := P_Signal\<rparr>) = backlog s"
  by (auto simp: backlog_def)

text \<open>What one step does, as cases.\<close>

lemma producer_step_cases:
  assumes "producer_step s = Some t"
  obtains "p_pc s = P_Test" "p_j s < TOTAL_COUNT" "t = s\<lparr>p_pc := P_Lock\<rparr>"
  | "p_pc s = P_Test" "\<not> p_j s < TOTAL_COUNT" "t = s\<lparr>p_pc := P_Done\<rparr>"
  | "p_pc s = P_Lock" "pc_mtx s = None" "t = s\<lparr>p_pc := P_Add, pc_mtx := Some Producer\<rparr>"
  | "p_pc s = P_Add" "t = s\<lparr>p_pc := P_Unlock, available := available s + 1\<rparr>"
  | "p_pc s = P_Unlock" "t = s\<lparr>p_pc := P_Signal, pc_mtx := None\<rparr>"
  | "p_pc s = P_Signal" "c_pc s \<noteq> C_Wait"
      "t = s\<lparr>p_pc := P_Test, p_j := p_j s + 1\<rparr>"
  | "p_pc s = P_Signal" "p_j s mod 10 = 0" "c_pc s = C_Wait"
      "t = s\<lparr>c_pc := C_Woken, p_pc := P_Test, p_j := p_j s + 1\<rparr>"
  | "p_pc s = P_Signal" "p_j s mod 10 \<noteq> 0" "c_pc s = C_Wait"
      "t = s\<lparr>p_pc := P_Test, p_j := p_j s + 1\<rparr>"
  using assms
  by (cases "p_pc s"; cases "c_pc s = C_Wait")
    (simp_all add: producer_step_def cond_signal_def Let_def split: if_splits)

lemma consumer_step_cases:
  assumes "consumer_step s = Some t"
  obtains "c_pc s = C_Test" "consumed s \<noteq> TOTAL_COUNT" "t = s\<lparr>c_pc := C_Lock\<rparr>"
  | "c_pc s = C_Test" "consumed s = TOTAL_COUNT" "t = s\<lparr>c_pc := C_Done\<rparr>"
  | "c_pc s = C_Lock \<or> c_pc s = C_Woken" "pc_mtx s = None" "t = s\<lparr>c_pc := C_While, pc_mtx := Some Consumer\<rparr>"
  | "c_pc s = C_While" "available s = 0" "t = s\<lparr>c_pc := C_Wait, pc_mtx := None\<rparr>"
  | "c_pc s = C_While" "available s \<noteq> 0" "t = s\<lparr>c_pc := C_Take\<rparr>"
  | "c_pc s = C_Take" "available s > 0"
      "t = s\<lparr>c_i := c_i s + 1, consumed := consumed s + 1, available := available s - 1\<rparr>"
  | "c_pc s = C_Take" "\<not> available s > 0" "t = s\<lparr>c_pc := C_Unlock\<rparr>"
  | "c_pc s = C_Unlock" "t = s\<lparr>c_pc := C_Test, pc_mtx := None\<rparr>"
  using assms
  by (cases "c_pc s") (simp_all add: consumer_step_def split: if_splits)

lemma producer_step_inv:
  assumes "pc_inv s" and step: "producer_step s = Some t"
  shows "pc_inv t"
proof -
  from assms(1) have inv: "producer_ok s" "consumer_ok s" "units_ok s" "mutex_ok s"
    by (simp_all add: pc_inv_def)
  from step have "producer_ok t"
    by (rule producer_step_cases) (use inv(1) in \<open>auto simp: producer_ok_def\<close>)
  moreover from step have "consumer_ok t"
    by (rule producer_step_cases)
      (use inv(2) in \<open>simp_all add: consumer_ok_def backlog_pc backlog_next\<close>)
  moreover from step have "units_ok t"
    by (rule producer_step_cases) (use inv(3) in \<open>simp_all add: units_ok_def made_def\<close>)
  moreover from step have "mutex_ok t"
    by (rule producer_step_cases) (use inv(4) in \<open>auto simp: mutex_ok_iff\<close>)
  ultimately show ?thesis by (simp add: pc_inv_def)
qed

lemma consumer_step_inv:
  assumes "pc_inv s" and step: "consumer_step s = Some t"
  shows "pc_inv t"
proof -
  from assms(1) have inv: "producer_ok s" "consumer_ok s" "units_ok s" "mutex_ok s"
    by (simp_all add: pc_inv_def)
  from step have "producer_ok t"
    by (rule consumer_step_cases) (use inv(1) in \<open>simp_all add: producer_ok_def\<close>)
  moreover from step have "consumer_ok t"
    by (rule consumer_step_cases) (use inv(2) backlog_nonneg [of s] in \<open>auto simp: consumer_ok_def\<close>)
  moreover from step have "units_ok t"
    by (rule consumer_step_cases) (use inv(3) in \<open>simp_all add: units_ok_def made_def\<close>)
  moreover from step have "mutex_ok t"
    by (rule consumer_step_cases) (use inv(4) in \<open>auto simp: mutex_ok_iff\<close>)
  ultimately show ?thesis by (simp add: pc_inv_def)
qed

lemma pc_inv_start: "pc_inv pc_start"
  by (simp add: pc_inv_def pc_inv_defs mutex_ok_iff pc_start_def TOTAL_COUNT_def)

lemma spurious_inv:
  assumes "pc_inv s" and "c_pc s = C_Wait"
  shows "pc_inv (s\<lparr>c_pc := C_Woken\<rparr>)"
  using assms by (simp add: pc_inv_def pc_inv_defs mutex_ok_iff)

lemma pc_step_inv: "pc_inv s \<Longrightarrow> pc_step s t \<Longrightarrow> pc_inv t"
  by (auto simp: pc_step_def pc_thread_step_def intro: producer_step_inv consumer_step_inv spurious_inv)

lemma pc_inv_mutex: "pc_inv s \<Longrightarrow> pc_critical s t \<Longrightarrow> pc_mtx s = Some t"
  by (simp add: pc_inv_def mutex_ok_def)

interpretation pl: locked_system pc_init pc_step pc_inv pc_mtx pc_critical
  by unfold_locales (simp_all add: pc_inv_start pc_step_inv pc_inv_mutex)

lemma thread_reach: "reach pc_init pc_thread_step s \<Longrightarrow> reach pc_init pc_step s"
proof (induction rule: reach.induct)
  case (reach_step s t)
  then show ?case by (meson pc_step_def reach.reach_step)
qed (rule reach_init)

section \<open>Runs end\<close>

text \<open>What is left to do, for each thread: the rounds to go and the place in the round.\<close>

definition producer_left :: "pc_state \<Rightarrow> int" where
  "producer_left s = 12 * (TOTAL_COUNT - p_j s) +
     (case p_pc s of P_Test \<Rightarrow> 6 | P_Lock \<Rightarrow> 5 | P_Add \<Rightarrow> 4 | P_Unlock \<Rightarrow> 3 | P_Signal \<Rightarrow> 2 | P_Done \<Rightarrow> 0)"

definition consumer_left :: "pc_state \<Rightarrow> int" where
  "consumer_left s = 8 * (TOTAL_COUNT - consumed s) +
     (case c_pc s of C_Test \<Rightarrow> 5 | C_Lock \<Rightarrow> 4 | C_Woken \<Rightarrow> 4 | C_While \<Rightarrow> 3 | C_Wait \<Rightarrow> 1
        | C_Take \<Rightarrow> (if available s > 0 then 0 else 7) | C_Unlock \<Rightarrow> 6 | C_Done \<Rightarrow> 0)"

lemma thread_step_left:
  assumes "pc_thread_step s t" and "0 \<le> available s"
  shows "producer_left t + consumer_left t < producer_left s + consumer_left s"
  using assms(1) [unfolded pc_thread_step_def]
proof
  assume "producer_step s = Some t"
  then show ?thesis
    by (rule producer_step_cases)
      (auto simp: producer_left_def consumer_left_def split: consumer_pc.splits)
next
  assume "consumer_step s = Some t"
  then show ?thesis
    by (rule consumer_step_cases)
      (use assms(2) in \<open>auto simp: producer_left_def consumer_left_def\<close>)
qed

lemma left_nonneg:
  assumes "pc_inv s"
  shows "0 \<le> producer_left s + consumer_left s"
proof -
  have "p_j s \<le> TOTAL_COUNT" "made s \<le> TOTAL_COUNT" "consumed s \<le> made s"
    using assms by (auto simp: pc_inv_def pc_inv_defs split: if_splits)
  then have "0 \<le> producer_left s" "0 \<le> consumer_left s"
    by (auto simp: producer_left_def consumer_left_def split: producer_pc.splits consumer_pc.splits)
  then show ?thesis by simp
qed

interpretation pc_runs: bounded_system pc_init pc_thread_step pc_inv "\<lambda>s. producer_left s + consumer_left s"
proof unfold_locales
  show "pc_inv t" if "pc_inv s" "pc_thread_step s t" for s t
    using that by (auto simp: pc_step_def intro: pc_step_inv)
  show "producer_left t + consumer_left t < producer_left s + consumer_left s"
    if "pc_inv s" "pc_thread_step s t" for s t
    using that by (intro thread_step_left) (simp_all add: pc_inv_def units_ok_def)
qed (simp_all add: pc_inv_start left_nonneg)

section \<open>Some runs\<close>

lemmas step_simps = pc_thread_step_def producer_step_def consumer_step_def cond_signal_def Let_def

text \<open>A round of the producer while the consumer cannot be woken.\<close>

lemma producer_round:
  assumes "p_pc s = P_Test" and "pc_mtx s = None" and "p_j s < TOTAL_COUNT"
    and "c_pc s \<noteq> C_Wait \<or> p_j s mod 10 \<noteq> 0"
  shows "pc_thread_step\<^sup>*\<^sup>* s (s\<lparr>p_j := p_j s + 1, available := available s + 1\<rparr>)"
proof -
  let ?a = "s\<lparr>p_pc := P_Lock\<rparr>" and ?b = "s\<lparr>p_pc := P_Add, pc_mtx := Some Producer\<rparr>"
  let ?c = "s\<lparr>p_pc := P_Unlock, pc_mtx := Some Producer, available := available s + 1\<rparr>"
  let ?d = "s\<lparr>p_pc := P_Signal, available := available s + 1\<rparr>"
  let ?e = "s\<lparr>p_j := p_j s + 1, available := available s + 1\<rparr>"
  have "pc_thread_step s ?a" "pc_thread_step ?a ?b" "pc_thread_step ?b ?c"
    using assms by (simp_all add: step_simps)
  moreover have "pc_thread_step ?c ?d" using assms(2) by (cases s) (simp add: step_simps)
  moreover have "pc_thread_step ?d ?e"
    using assms(1,4) by (cases s) (auto simp: step_simps)
  ultimately show ?thesis by (meson steps_before rtranclp.rtrancl_refl)
qed

lemma producer_rounds:
  assumes "p_pc s = P_Test" and "pc_mtx s = None" and "p_j s + int n \<le> TOTAL_COUNT"
    and "c_pc s \<noteq> C_Wait \<or> (\<forall>k < n. (p_j s + int k) mod 10 \<noteq> 0)"
  shows "pc_thread_step\<^sup>*\<^sup>* s (s\<lparr>p_j := p_j s + int n, available := available s + int n\<rparr>)"
  using assms(3,4)
proof (induction n)
  case (Suc n)
  let ?t = "s\<lparr>p_j := p_j s + int n, available := available s + int n\<rparr>"
  have "pc_thread_step\<^sup>*\<^sup>* s ?t" using Suc by (auto simp: less_Suc_eq)
  moreover have "pc_thread_step\<^sup>*\<^sup>* ?t (?t\<lparr>p_j := p_j ?t + 1, available := available ?t + 1\<rparr>)"
    using assms(1,2) Suc.prems by (intro producer_round) auto
  ultimately show ?case by (simp add: algebra_simps)
qed simp

text \<open>The consumer takes all there is and comes back to its test.\<close>

lemma consumer_takes:
  "c_pc s = C_Take \<Longrightarrow> available s = int n \<Longrightarrow>
    pc_thread_step\<^sup>*\<^sup>* s (s\<lparr>c_i := c_i s + int n, consumed := consumed s + int n, available := 0\<rparr>)"
proof (induction n arbitrary: s)
  case (Suc n)
  let ?t = "s\<lparr>c_i := c_i s + 1, consumed := consumed s + 1, available := int n\<rparr>"
  have "pc_thread_step s ?t" using Suc.prems by (simp add: step_simps)
  with Suc.IH [of ?t] Suc.prems show ?case
    by (auto simp: algebra_simps intro: steps_before)
next
  case 0
  then have "s\<lparr>c_i := c_i s, consumed := consumed s, available := 0\<rparr> = s" by (cases s) simp
  then show ?case by simp
qed

lemma consumer_round:
  assumes "c_pc s = C_Test" and "pc_mtx s = None" and "consumed s \<noteq> TOTAL_COUNT"
    and "available s = int n" and "0 < n"
  shows "pc_thread_step\<^sup>*\<^sup>* s (s\<lparr>c_i := c_i s + int n, consumed := consumed s + int n, available := 0\<rparr>)"
proof -
  let ?a = "s\<lparr>c_pc := C_Lock\<rparr>" and ?b = "s\<lparr>c_pc := C_While, pc_mtx := Some Consumer\<rparr>"
  let ?c = "s\<lparr>c_pc := C_Take, pc_mtx := Some Consumer\<rparr>"
  let ?e = "s\<lparr>c_i := c_i s + int n, consumed := consumed s + int n, available := 0\<rparr>"
  have "pc_thread_step s ?a" "pc_thread_step ?a ?b" "pc_thread_step ?b ?c"
    using assms by (simp_all add: step_simps)
  moreover have "pc_thread_step\<^sup>*\<^sup>* ?c (?e\<lparr>c_pc := C_Take, pc_mtx := Some Consumer\<rparr>)"
    using consumer_takes [of ?c n] assms(4) by (cases s) simp
  moreover have "pc_thread_step (?e\<lparr>c_pc := C_Take, pc_mtx := Some Consumer\<rparr>)
      (?e\<lparr>c_pc := C_Unlock, pc_mtx := Some Consumer\<rparr>)"
    by (simp add: step_simps)
  moreover have "pc_thread_step (?e\<lparr>c_pc := C_Unlock, pc_mtx := Some Consumer\<rparr>) ?e"
    using assms(1,2) by (cases s) (simp add: step_simps)
  ultimately show ?thesis by (meson steps_before steps_after)
qed

text \<open>The producer makes \<open>n\<close> units before the consumer runs for the first time.\<close>

lemma first_units:
  assumes "0 < n" and "int n \<le> TOTAL_COUNT"
  shows "reach pc_init pc_thread_step
    (pc_start\<lparr>p_j := int n, c_i := int n, consumed := int n\<rparr>)"
proof -
  let ?s = "pc_start\<lparr>p_j := int n, available := int n\<rparr>"
  have "pc_thread_step\<^sup>*\<^sup>* pc_start ?s"
    using producer_rounds [of pc_start n] assms(2) by (simp add: pc_start_def)
  moreover have "pc_thread_step\<^sup>*\<^sup>* ?s (pc_start\<lparr>p_j := int n, c_i := int n, consumed := int n\<rparr>)"
    using consumer_round [of ?s n] assms(1) by (simp add: pc_start_def TOTAL_COUNT_def)
  ultimately show ?thesis by (auto intro: reach_from_init rtranclp_trans)
qed

text \<open>The two ways a run can end.\<close>

definition finished :: pc_state where
  "finished = pc_start\<lparr>p_pc := P_Done, p_j := TOTAL_COUNT, c_pc := C_Done, c_i := TOTAL_COUNT,
     consumed := TOTAL_COUNT\<rparr>"

definition asleep :: pc_state where
  "asleep = pc_start\<lparr>p_pc := P_Done, p_j := TOTAL_COUNT, c_pc := C_Wait, c_i := TOTAL_COUNT - 9,
     available := 9, consumed := TOTAL_COUNT - 9\<rparr>"

lemma finished_reach: "reach pc_init pc_thread_step finished"
proof -
  let ?s = "pc_start\<lparr>p_j := TOTAL_COUNT, c_i := TOTAL_COUNT, consumed := TOTAL_COUNT\<rparr>"
  have "reach pc_init pc_thread_step ?s"
    using first_units [of "nat TOTAL_COUNT"] by (simp add: TOTAL_COUNT_def)
  moreover have "pc_thread_step ?s (?s\<lparr>p_pc := P_Done\<rparr>)"
    and "pc_thread_step (?s\<lparr>p_pc := P_Done\<rparr>) finished"
    by (simp_all add: step_simps pc_start_def finished_def)
  ultimately show ?thesis by (meson reach_step)
qed

lemma asleep_reach: "reach pc_init pc_thread_step asleep"
proof -
  let ?n = "TOTAL_COUNT - 9"
  let ?s = "pc_start\<lparr>p_j := ?n, c_i := ?n, consumed := ?n\<rparr>"
  let ?w = "?s\<lparr>c_pc := C_Wait\<rparr>"
  have "reach pc_init pc_thread_step ?s"
    using first_units [of "nat ?n"] by (simp add: TOTAL_COUNT_def)
  moreover have "pc_thread_step ?s (?s\<lparr>c_pc := C_Lock\<rparr>)"
    and "pc_thread_step (?s\<lparr>c_pc := C_Lock\<rparr>) (?s\<lparr>c_pc := C_While, pc_mtx := Some Consumer\<rparr>)"
    and "pc_thread_step (?s\<lparr>c_pc := C_While, pc_mtx := Some Consumer\<rparr>) ?w"
    by (simp_all add: step_simps pc_start_def TOTAL_COUNT_def)
  ultimately have "reach pc_init pc_thread_step ?w" by (meson reach_step)
  moreover have "(19991 + int k) mod 10 \<noteq> 0" if "k < 9" for k using that by presburger
  then have "pc_thread_step\<^sup>*\<^sup>* ?w (?w\<lparr>p_j := TOTAL_COUNT, available := 9\<rparr>)"
    using producer_rounds [of ?w 9] by (simp add: TOTAL_COUNT_def pc_start_def)
  moreover have "pc_thread_step (?w\<lparr>p_j := TOTAL_COUNT, available := 9\<rparr>) asleep"
    by (simp add: step_simps pc_start_def asleep_def)
  ultimately show ?thesis by (meson reach_step reach_steps)
qed

lemma stuck_cases:
  assumes "pc_inv s" and "stuck pc_thread_step s"
  shows "p_pc s = P_Done \<and> (c_pc s = C_Done \<or> c_pc s = C_Wait)"
proof -
  from assms(2) have p: "producer_step s = None" and c: "consumer_step s = None"
    unfolding stuck_def pc_thread_step_def by (metis not_None_eq)+
  from assms(1) have m: "mutex_ok s" by (simp add: pc_inv_def)
  from c have "c_pc s \<in> {C_Done, C_Wait} \<or> c_pc s \<in> {C_Lock, C_Woken} \<and> pc_mtx s \<noteq> None"
    by (cases "c_pc s") (auto simp: consumer_step_def split: if_splits)
  moreover from p have "p_pc s = P_Done \<or> p_pc s = P_Lock \<and> pc_mtx s \<noteq> None"
    by (cases "p_pc s") (auto simp: producer_step_def Let_def split: if_splits)
  moreover have "pc_mtx s \<noteq> None \<Longrightarrow> p_pc s \<in> {P_Add, P_Unlock} \<or> c_pc s \<in> {C_While, C_Take, C_Unlock}"
    using m unfolding mutex_ok_iff by (metis not_None_eq thread.exhaust)
  ultimately show ?thesis by auto
qed

section \<open>Properties\<close>

text \<open>C3: no unit is lost or counted twice, and no counter overflows. In every reachable state, spurious
  wake-ups included, the units consumed and the units available add up to the units made, and all
  three stay between \<open>0\<close> and \<open>TOTAL_COUNT\<close>.\<close>

theorem pc_conserves:
  assumes "reach pc_init pc_step s"
  shows "consumed s + available s = made s \<and> 0 \<le> available s \<and> 0 \<le> consumed s \<and>
    made s \<le> TOTAL_COUNT"
  using pl.inv_reach [OF assms] by (auto simp: pc_inv_def pc_inv_defs split: if_splits)

theorem pc_conserves_witness: "consumed asleep + available asleep = made asleep"
  using pc_conserves [OF thread_reach [OF asleep_reach]] by simp

text \<open>C26: the two threads are never in their critical regions at the same time, and while the mutex is
  free neither is.\<close>

theorem pc_exclusive:
  assumes "reach pc_init pc_step s"
  shows "\<not> (p_pc s \<in> {P_Add, P_Unlock} \<and> c_pc s \<in> {C_While, C_Take, C_Unlock}) \<and>
    (pc_mtx s = None \<longrightarrow> p_pc s \<notin> {P_Add, P_Unlock} \<and> c_pc s \<notin> {C_While, C_Take, C_Unlock})"
  using pl.mutual_exclusion [OF assms, of Producer Consumer] pl.critical_excludes_free [OF assms, of Producer]
    pl.critical_excludes_free [OF assms, of Consumer]
  by (auto simp: pc_critical_def)

theorem pc_exclusive_witness:
  "p_pc asleep \<notin> {P_Add, P_Unlock} \<and> c_pc asleep \<notin> {C_While, C_Take, C_Unlock}"
  using pc_exclusive [OF thread_reach [OF asleep_reach]] by (simp add: asleep_def pc_start_def)

text \<open>when the consumer returns, everything was produced and consumed.\<close>

lemma pc_complete:
  assumes "reach pc_init pc_step s" and "c_pc s = C_Done"
  shows "consumed s = TOTAL_COUNT \<and> available s = 0 \<and> made s = TOTAL_COUNT"
  using pl.inv_reach [OF assms(1)] assms(2)
  by (auto simp: pc_inv_def pc_inv_defs split: if_splits)

theorem pc_complete_witness: "made finished = 20000"
  using pc_complete [OF thread_reach [OF finished_reach]]
  by (simp add: finished_def TOTAL_COUNT_def)

text \<open>C6: every run ends. Without spurious wake-ups no schedule of the two threads makes more than
  \<open>20 * TOTAL_COUNT + 11\<close> steps, so neither busy-waits.\<close>

theorem pc_terminates:
  assumes "(pc_thread_step ^^ n) pc_start s"
  shows "int n \<le> 20 * TOTAL_COUNT + 11"
  using pc_runs.run_bound [OF pc_inv_start assms]
  by (simp add: pc_start_def producer_left_def consumer_left_def TOTAL_COUNT_def)

theorem pc_terminates_witness:
  "\<exists>n. (pc_thread_step ^^ n) pc_start finished \<and> int n \<le> 20 * TOTAL_COUNT + 11"
proof -
  obtain n where "(pc_thread_step ^^ n) pc_start finished"
    using reach_run [OF finished_reach] by (auto dest: rtranclp_imp_relpowp)
  with pc_terminates [OF this] show ?thesis by blast
qed

text \<open>C7: where runs end. A state in which no thread can move has the producer done and either the
  consumer done with all units consumed, or the consumer asleep with between one and nine units
  available that nobody will announce.\<close>

theorem pc_ends:
  assumes "reach pc_init pc_thread_step s" and "stuck pc_thread_step s"
  shows "p_pc s = P_Done \<and>
    (c_pc s = C_Done \<and> consumed s = TOTAL_COUNT \<and> pc_main 0 0 s = Some (Return ()) \<or>
     c_pc s = C_Wait \<and> 1 \<le> available s \<and> available s \<le> 9 \<and> pc_main 0 0 s = None)"
proof -
  have inv: "pc_inv s" using assms(1) by (intro pl.inv_reach thread_reach)
  with stuck_cases [OF inv assms(2)] show ?thesis
    by (auto simp: pc_inv_def pc_inv_defs backlog_def TOTAL_COUNT_def pc_main_def)
qed

theorem pc_ends_witness:
  "c_pc asleep = C_Done \<and> consumed asleep = TOTAL_COUNT \<or> c_pc asleep = C_Wait \<and> available asleep \<le> 9"
proof -
  have "stuck pc_thread_step asleep" by (simp add: stuck_def step_simps asleep_def pc_start_def)
  from pc_ends [OF asleep_reach this] show ?thesis by blast
qed

text \<open>C28: the lost wake-up. The producer signals only when \<open>j % 10 == 0\<close>, so there is a schedule after
  which the producer has returned, the consumer sleeps in \<open>pthread_cond_wait\<close> with nine units
  available, no thread can move, and \<open>main\<close> waits for ever in \<open>pthread_join(cons)\<close>.\<close>

theorem pc_lost_wakeup:
  "\<exists>s. reach pc_init pc_thread_step s \<and> stuck pc_thread_step s \<and> p_pc s = P_Done \<and> c_pc s = C_Wait \<and>
    available s = 9 \<and> consumed s = TOTAL_COUNT - 9 \<and> pc_main 0 0 s = None"
  using asleep_reach
  by (intro exI [of _ asleep]) (simp add: stuck_def step_simps asleep_def pc_start_def pc_main_def)

end
