(* ===== verification/Polling.thy ===== *)
theory Polling imports Systems begin

text \<open>
  \<^verbatim>\<open>src/prod_no_condvar.c\<close>: one producer thread per argument, and a \<open>main\<close> that polls for their
  units. \<open>po_args\<close> holds what \<open>atoi\<close> makes of the arguments. A step is one action between two
  scheduling points; when \<open>main\<close> returns the process ends, with every thread of it. The counters are
  \<open>int\<close>s (\<open>wrap32\<close>).
\<close>

section \<open>The threads\<close>

datatype po_who = Main | Worker nat

datatype worker_pc = W_Test | W_Lock | W_Add | W_Unlock | W_Done
datatype po_main_pc = M_Create | M_Lock | M_Take | M_Unlock | M_Done | M_Exit

record worker =
  w_pc :: worker_pc
  w_cnt :: int
  w_j :: int

record po_state =
  po_args :: "int list"
  workers :: "worker list"         \<comment> \<open>the threads created so far\<close>
  po_pc :: po_main_pc
  totalRequired :: int
  po_done :: bool
  po_mtx :: "po_who option"
  avail :: int
  numConsumed :: int

definition set_worker :: "nat \<Rightarrow> worker \<Rightarrow> po_state \<Rightarrow> po_state" where
  "set_worker i w s = s\<lparr>workers := (workers s)[i := w]\<rparr>"

definition worker_step :: "nat \<Rightarrow> po_state \<Rightarrow> po_state option" where
  "worker_step i s =
     (let w = workers s ! i in
      if length (workers s) \<le> i \<or> po_pc s = M_Exit then None
      else (case w_pc w of
        W_Test \<Rightarrow> Some (set_worker i (w\<lparr>w_pc := if w_j w < w_cnt w then W_Lock else W_Done\<rparr>) s)
      | W_Lock \<Rightarrow> (if po_mtx s = None
          then Some ((set_worker i (w\<lparr>w_pc := W_Add\<rparr>) s)\<lparr>po_mtx := Some (Worker i)\<rparr>) else None)
      | W_Add \<Rightarrow> Some ((set_worker i (w\<lparr>w_pc := W_Unlock\<rparr>) s)\<lparr>avail := wrap32 (avail s + 1)\<rparr>)
      | W_Unlock \<Rightarrow>
          Some ((set_worker i (w\<lparr>w_pc := W_Test, w_j := w_j w + 1\<rparr>) s)\<lparr>po_mtx := None\<rparr>)
      | W_Done \<Rightarrow> None))"

text \<open>\<open>main\<close>; its \<open>j\<close> is the number of threads created.\<close>

definition main_step :: "po_state \<Rightarrow> po_state option" where
  "main_step s =
     (case po_pc s of
        M_Create \<Rightarrow>
          (let j = length (workers s) in
           if j < length (po_args s)
           then Some (s\<lparr>totalRequired := wrap32 (totalRequired s + po_args s ! j),
                        workers := workers s @ [\<lparr>w_pc = W_Test, w_cnt = po_args s ! j, w_j = 0\<rparr>]\<rparr>)
           else Some (s\<lparr>po_pc := M_Lock\<rparr>))
      | M_Lock \<Rightarrow> (if po_mtx s = None then Some (s\<lparr>po_pc := M_Take, po_mtx := Some Main\<rparr>) else None)
      | M_Take \<Rightarrow>
          (if avail s > 0
           then Some (s\<lparr>numConsumed := wrap32 (numConsumed s + 1), avail := wrap32 (avail s - 1),
                        po_done := wrap32 (numConsumed s + 1) \<ge> totalRequired s\<rparr>)
           else Some (s\<lparr>po_pc := M_Unlock\<rparr>))
      | M_Unlock \<Rightarrow> Some (s\<lparr>po_pc := M_Done, po_mtx := None\<rparr>)
      | M_Done \<Rightarrow> Some (s\<lparr>po_pc := if po_done s then M_Exit else M_Lock\<rparr>)
      | M_Exit \<Rightarrow> None)"

definition po_start :: "int list \<Rightarrow> po_state" where
  "po_start args = \<lparr>po_args = args, workers = [], po_pc = M_Create, totalRequired = 0, po_done = False,
     po_mtx = None, avail = 0, numConsumed = 0\<rparr>"

inductive po_step :: "po_state \<Rightarrow> po_state \<Rightarrow> bool" where
  po_main: "main_step s = Some t \<Longrightarrow> po_step s t"
| po_worker: "worker_step i s = Some t \<Longrightarrow> po_step s t"

section \<open>The invariant\<close>

definition w_made :: "worker \<Rightarrow> int" where
  "w_made w = w_j w + (if w_pc w = W_Unlock then 1 else 0)"

definition po_made :: "po_state \<Rightarrow> int" where
  "po_made s = sum_list (map w_made (workers s))"

definition po_critical :: "po_state \<Rightarrow> po_who \<Rightarrow> bool" where
  "po_critical s who \<longleftrightarrow> (case who of
       Main \<Rightarrow> po_pc s = M_Take \<or> po_pc s = M_Unlock
     | Worker i \<Rightarrow> i < length (workers s) \<and> (w_pc (workers s ! i) = W_Add \<or> w_pc (workers s ! i) = W_Unlock))"

definition worker_ok :: "worker \<Rightarrow> bool" where
  "worker_ok w \<longleftrightarrow> 0 \<le> w_j w \<and>
     (case w_pc w of W_Test \<Rightarrow> w_j w \<le> max 0 (w_cnt w) | W_Done \<Rightarrow> w_j w = max 0 (w_cnt w) | _ \<Rightarrow> w_j w < w_cnt w)"

definition workers_ok :: "po_state \<Rightarrow> bool" where
  "workers_ok s \<longleftrightarrow> list_all worker_ok (workers s) \<and>
     map w_cnt (workers s) = take (length (workers s)) (po_args s)"

definition main_ok :: "int list \<Rightarrow> po_state \<Rightarrow> bool" where
  "main_ok args s \<longleftrightarrow> po_args s = args \<and> length (workers s) \<le> length args \<and>
     totalRequired s = wrap32 (sum_list (take (length (workers s)) args)) \<and>
     (po_pc s \<noteq> M_Create \<longrightarrow> length (workers s) = length args) \<and>
     (po_done s \<longrightarrow> po_pc s \<noteq> M_Create \<and> totalRequired s \<le> numConsumed s) \<and>
     (po_pc s = M_Exit \<longrightarrow> po_done s)"

text \<open>The arguments are \<open>int\<close>s and so is the number of units they ask for.\<close>

definition po_fits :: "int list \<Rightarrow> bool" where
  "po_fits args \<longleftrightarrow> sum_list (map (max 0) args) < 2 ^ 31"

definition po_units_ok :: "po_state \<Rightarrow> bool" where
  "po_units_ok s \<longleftrightarrow> (po_fits (po_args s) \<longrightarrow>
     0 \<le> avail s \<and> 0 \<le> numConsumed s \<and> numConsumed s + avail s = po_made s \<and>
     (po_done s \<longrightarrow> 0 < numConsumed s))"

definition po_mutex_ok :: "po_state \<Rightarrow> bool" where
  "po_mutex_ok s \<longleftrightarrow> lock_ok (po_mtx s) (po_critical s)"

definition po_inv :: "int list \<Rightarrow> po_state \<Rightarrow> bool" where
  "po_inv args s \<longleftrightarrow> workers_ok s \<and> main_ok args s \<and> po_units_ok s \<and> po_mutex_ok s"

lemma po_made_update:
  "i < length (workers s) \<Longrightarrow>
    po_made (set_worker i w s) = po_made s - w_made (workers s ! i) + w_made w"
  by (simp add: po_made_def set_worker_def sum_list_map_update)

lemma po_made_frame [simp]:
  "po_made (s\<lparr>po_mtx := m\<rparr>) = po_made s" "po_made (s\<lparr>avail := n\<rparr>) = po_made s"
  "po_made (s\<lparr>po_pc := p\<rparr>) = po_made s" "po_made (s\<lparr>numConsumed := n\<rparr>) = po_made s"
  "po_made (s\<lparr>po_done := d\<rparr>) = po_made s" "po_made (s\<lparr>totalRequired := n\<rparr>) = po_made s"
  by (simp_all add: po_made_def)

lemma set_worker_simps [simp]:
  "workers (set_worker i w s) = (workers s)[i := w]" "po_args (set_worker i w s) = po_args s"
  "po_pc (set_worker i w s) = po_pc s" "totalRequired (set_worker i w s) = totalRequired s"
  "po_done (set_worker i w s) = po_done s" "po_mtx (set_worker i w s) = po_mtx s"
  "avail (set_worker i w s) = avail s" "numConsumed (set_worker i w s) = numConsumed s"
  by (simp_all add: set_worker_def)

lemma worker_step_cases:
  assumes "worker_step i s = Some t"
  obtains w where "i < length (workers s)" and "w = workers s ! i" and "po_pc s \<noteq> M_Exit"
    and "w_pc w = W_Test" and "t = set_worker i (w\<lparr>w_pc := if w_j w < w_cnt w then W_Lock else W_Done\<rparr>) s"
  | w where "i < length (workers s)" and "w = workers s ! i" and "po_pc s \<noteq> M_Exit"
    and "w_pc w = W_Lock" and "po_mtx s = None"
    and "t = (set_worker i (w\<lparr>w_pc := W_Add\<rparr>) s)\<lparr>po_mtx := Some (Worker i)\<rparr>"
  | w where "i < length (workers s)" and "w = workers s ! i" and "po_pc s \<noteq> M_Exit"
    and "w_pc w = W_Add" and "t = (set_worker i (w\<lparr>w_pc := W_Unlock\<rparr>) s)\<lparr>avail := wrap32 (avail s + 1)\<rparr>"
  | w where "i < length (workers s)" and "w = workers s ! i" and "po_pc s \<noteq> M_Exit"
    and "w_pc w = W_Unlock"
    and "t = (set_worker i (w\<lparr>w_pc := W_Test, w_j := w_j w + 1\<rparr>) s)\<lparr>po_mtx := None\<rparr>"
proof -
  have runs: "i < length (workers s)" "po_pc s \<noteq> M_Exit"
    using assms by (auto simp: worker_step_def Let_def split: if_split_asm)
  note case_intros = that [OF runs(1) refl runs(2)]
  show thesis
  proof (cases "w_pc (workers s ! i)")
    case W_Test
    with assms runs show thesis by (intro case_intros(1)) (simp_all add: worker_step_def Let_def)
  next
    case W_Lock
    then have "po_mtx s = None"
      using assms runs by (cases "po_mtx s") (simp_all add: worker_step_def Let_def)
    with W_Lock assms runs show thesis by (intro case_intros(2)) (simp_all add: worker_step_def Let_def)
  next
    case W_Add
    with assms runs show thesis by (intro case_intros(3)) (simp_all add: worker_step_def Let_def)
  next
    case W_Unlock
    with assms runs show thesis by (intro case_intros(4)) (simp_all add: worker_step_def Let_def)
  next
    case W_Done
    with assms runs show thesis by (simp add: worker_step_def Let_def)
  qed
qed

lemma main_step_cases:
  assumes "main_step s = Some t"
  obtains "po_pc s = M_Create" "length (workers s) < length (po_args s)"
    "t = s\<lparr>totalRequired := wrap32 (totalRequired s + po_args s ! length (workers s)),
      workers := workers s @ [\<lparr>w_pc = W_Test, w_cnt = po_args s ! length (workers s), w_j = 0\<rparr>]\<rparr>"
  | "po_pc s = M_Create" "\<not> length (workers s) < length (po_args s)" "t = s\<lparr>po_pc := M_Lock\<rparr>"
  | "po_pc s = M_Lock" "po_mtx s = None" "t = s\<lparr>po_pc := M_Take, po_mtx := Some Main\<rparr>"
  | "po_pc s = M_Take" "avail s > 0" "t = s\<lparr>numConsumed := wrap32 (numConsumed s + 1), avail := wrap32 (avail s - 1),
      po_done := wrap32 (numConsumed s + 1) \<ge> totalRequired s\<rparr>"
  | "po_pc s = M_Take" "\<not> avail s > 0" "t = s\<lparr>po_pc := M_Unlock\<rparr>"
  | "po_pc s = M_Unlock" "t = s\<lparr>po_pc := M_Done, po_mtx := None\<rparr>"
  | "po_pc s = M_Done" "t = s\<lparr>po_pc := if po_done s then M_Exit else M_Lock\<rparr>"
proof (cases "po_pc s")
  case M_Create
  with assms that(1,2) show thesis by (simp add: main_step_def Let_def split: if_split_asm)
next
  case M_Lock
  then have "po_mtx s = None" using assms by (cases "po_mtx s") (simp_all add: main_step_def)
  with M_Lock assms show thesis by (intro that(3)) (simp_all add: main_step_def)
next
  case M_Take
  show thesis
  proof (cases "avail s > 0")
    case True
    with M_Take assms show thesis by (intro that(4)) (simp_all add: main_step_def)
  next
    case False
    with M_Take assms show thesis by (intro that(5)) (simp_all add: main_step_def)
  qed
next
  case M_Unlock
  with assms show thesis by (intro that(6)) (simp_all add: main_step_def)
next
  case M_Done
  with assms show thesis by (intro that(7)) (simp_all add: main_step_def)
qed (use assms in \<open>simp add: main_step_def\<close>)

section \<open>No counter overflows\<close>

lemma made_bound: "worker_ok w \<Longrightarrow> w_made w \<le> max 0 (w_cnt w)"
  by (auto simp: worker_ok_def w_made_def split: worker_pc.splits)

lemma total_made:
  assumes "workers_ok s"
  shows "po_made s \<le> sum_list (map (max 0) (po_args s))"
proof -
  have "po_made s \<le> sum_list (map (\<lambda>w. max 0 (w_cnt w)) (workers s))"
    unfolding po_made_def using assms made_bound
    by (intro sum_list_mono) (auto simp: workers_ok_def list_all_iff)
  also have "\<dots> = sum_list (map (max 0) (map w_cnt (workers s)))" by (simp add: comp_def)
  also have "\<dots> = sum_list (map (max 0) (take (length (workers s)) (po_args s)))"
    using assms by (simp add: workers_ok_def)
  also have "\<dots> \<le> sum_list (map (max 0) (take (length (workers s)) (po_args s))) +
      sum_list (map (max 0) (drop (length (workers s)) (po_args s)))"
    by (simp, rule sum_list_nonneg) auto
  also have "\<dots> = sum_list (map (max 0) (po_args s))"
    by (metis append_take_drop_id map_append sum_list_append)
  finally show ?thesis .
qed

lemma made_fits: "workers_ok s \<Longrightarrow> po_fits (po_args s) \<Longrightarrow> po_made s < 2 ^ 31"
  using total_made [of s] by (simp add: po_fits_def)

lemma po_fits_simps [simp]: "po_fits []" "c \<le> 0 \<Longrightarrow> po_fits (c # cs) = po_fits cs"
  by (simp_all add: po_fits_def max_def)

section \<open>Every step keeps the invariant\<close>

lemma po_critical_worker:
  "i < length (workers s) \<Longrightarrow> po_critical (set_worker i w s) who =
    (if who = Worker i then w_pc w = W_Add \<or> w_pc w = W_Unlock else po_critical s who)"
  by (cases who) (auto simp: po_critical_def nth_list_update)

lemma po_critical_simps [simp]:
  "po_critical s Main \<longleftrightarrow> po_pc s = M_Take \<or> po_pc s = M_Unlock"
  "po_critical s (Worker i) \<longleftrightarrow> i < length (workers s) \<and>
    (w_pc (workers s ! i) = W_Add \<or> w_pc (workers s ! i) = W_Unlock)"
  by (simp_all add: po_critical_def)

lemma po_critical_frame [simp]:
  "po_critical (s\<lparr>po_mtx := m\<rparr>) = po_critical s" "po_critical (s\<lparr>avail := n\<rparr>) = po_critical s"
  by (auto simp: po_critical_def fun_eq_iff split: po_who.splits)

lemma workers_ok_frame [simp]:
  "workers_ok (s\<lparr>po_mtx := m\<rparr>) = workers_ok s" "workers_ok (s\<lparr>avail := n\<rparr>) = workers_ok s"
  by (simp_all add: workers_ok_def)

lemma workers_ok_update:
  assumes "workers_ok s" and "i < length (workers s)" and "worker_ok w" and "w_cnt w = w_cnt (workers s ! i)"
  shows "workers_ok (set_worker i w s)"
  using assms by (auto simp: workers_ok_def list_all_length nth_list_update map_update_same)

lemma main_ok_frame [simp]:
  "main_ok args (s\<lparr>po_mtx := m\<rparr>) = main_ok args s" "main_ok args (s\<lparr>avail := n\<rparr>) = main_ok args s"
  "main_ok args (set_worker i w s) = main_ok args s"
  by (simp_all add: main_ok_def)

lemma worker_step_inv:
  assumes "po_inv args s" and step: "worker_step i s = Some t"
  shows "po_inv args t"
proof -
  from assms(1) have inv: "workers_ok s" "main_ok args s" "po_units_ok s" "po_mutex_ok s"
    by (simp_all add: po_inv_def)
  have w: "worker_ok (workers s ! i)" if "i < length (workers s)"
    using inv(1) that by (simp add: workers_ok_def list_all_length)
  from step have "workers_ok t"
    by (rule worker_step_cases) (use w in \<open>auto simp: worker_ok_def intro!: workers_ok_update [OF inv(1)]\<close>)
  moreover from step have "main_ok args t"
    by (rule worker_step_cases) (use inv(2) in simp_all)
  moreover from step have "po_units_ok t"
  proof (rule worker_step_cases)
    fix w
    assume w: "i < length (workers s)" "w = workers s ! i" "w_pc w = W_Add"
      and t: "t = (set_worker i (w\<lparr>w_pc := W_Unlock\<rparr>) s)\<lparr>avail := wrap32 (avail s + 1)\<rparr>"
    from w t have made: "po_made t = po_made s + 1" by (simp add: po_made_update w_made_def)
    show "po_units_ok t"
      unfolding po_units_ok_def
    proof (intro impI)
      assume fits: "po_fits (po_args t)"
      with t have u: "0 \<le> avail s" "0 \<le> numConsumed s" "numConsumed s + avail s = po_made s"
        "po_done s \<longrightarrow> 0 < numConsumed s" using inv(3) by (simp_all add: po_units_ok_def)
      have "po_made s + 1 < 2 ^ 31" using made_fits [OF \<open>workers_ok t\<close> fits] made by simp
      with u have "wrap32 (avail s + 1) = avail s + 1" by (intro wrap32_id) auto
      with u t made show "0 \<le> avail t \<and> 0 \<le> numConsumed t \<and> numConsumed t + avail t = po_made t \<and>
        (po_done t \<longrightarrow> 0 < numConsumed t)" by simp
    qed
  qed (use inv(3) in \<open>auto simp: po_units_ok_def po_made_update w_made_def\<close>)
  moreover from step have "po_mutex_ok t"
    unfolding po_mutex_ok_def
    by (rule worker_step_cases)
      (rule lock_ok_step [OF inv(4) [unfolded po_mutex_ok_def], of "Worker i"];
        auto simp: po_critical_worker)+
  ultimately show ?thesis by (simp add: po_inv_def)
qed

lemma main_step_inv:
  assumes "po_inv args s" and step: "main_step s = Some t"
  shows "po_inv args t"
proof -
  from assms(1) have inv: "workers_ok s" "main_ok args s" "po_units_ok s" "po_mutex_ok s"
    by (simp_all add: po_inv_def)
  from step have "workers_ok t"
    by (rule main_step_cases) (use inv(1) in \<open>auto simp: workers_ok_def worker_ok_def take_Suc_conv_app_nth\<close>)
  moreover from step have "main_ok args t"
    by (rule main_step_cases) (use inv(2) in \<open>auto simp: main_ok_def take_Suc_conv_app_nth\<close>)
  moreover from step have "po_units_ok t"
  proof (rule main_step_cases)
    assume "avail s > 0" and t: "t = s\<lparr>numConsumed := wrap32 (numConsumed s + 1),
      avail := wrap32 (avail s - 1), po_done := wrap32 (numConsumed s + 1) \<ge> totalRequired s\<rparr>"
    show "po_units_ok t"
      unfolding po_units_ok_def
    proof (intro impI)
      assume "po_fits (po_args t)"
      with t have fits: "po_fits (po_args s)" by simp
      with made_fits [OF inv(1)] inv(3) have u: "0 \<le> avail s" "0 \<le> numConsumed s"
        "numConsumed s + avail s = po_made s" "po_made s < 2 ^ 31" by (simp_all add: po_units_ok_def)
      with \<open>avail s > 0\<close> have "wrap32 (numConsumed s + 1) = numConsumed s + 1"
        "wrap32 (avail s - 1) = avail s - 1" by (auto intro!: wrap32_id)
      with u t \<open>avail s > 0\<close> show "0 \<le> avail t \<and> 0 \<le> numConsumed t \<and> numConsumed t + avail t = po_made t \<and>
        (po_done t \<longrightarrow> 0 < numConsumed t)" by simp
    qed
  qed (use inv(3) in \<open>auto simp: po_units_ok_def po_made_def w_made_def\<close>)
  moreover from step have "po_mutex_ok t"
    unfolding po_mutex_ok_def
    by (rule main_step_cases)
      (rule lock_ok_step [OF inv(4) [unfolded po_mutex_ok_def], of Main];
        auto simp: po_critical_def nth_append split: po_who.splits)+
  ultimately show ?thesis by (simp add: po_inv_def)
qed

lemma po_start_inv: "po_inv args (po_start args)"
  by (simp add: po_inv_def workers_ok_def main_ok_def po_units_ok_def po_mutex_ok_def po_start_def
      po_made_def lock_ok_def po_critical_def wrap32_def split: po_who.splits)

lemma po_step_inv: "po_inv args s \<Longrightarrow> po_step s t \<Longrightarrow> po_inv args t"
  by (erule po_step.cases) (auto intro: main_step_inv worker_step_inv)

lemma po_inv_mutex: "po_inv args s \<Longrightarrow> po_critical s who \<Longrightarrow> po_mtx s = Some who"
  unfolding po_inv_def po_mutex_ok_def by (blast intro: lock_okD)

interpretation po: locked_system "\<lambda>s. s = po_start args" po_step "po_inv args" po_mtx po_critical
  for args
  by unfold_locales (simp_all add: po_start_inv po_step_inv po_inv_mutex)

text \<open>A step of any thread, and some schedules.\<close>

definition po_thread :: "po_who \<Rightarrow> po_state \<Rightarrow> po_state option" where
  "po_thread who = (case who of Main \<Rightarrow> main_step | Worker i \<Rightarrow> worker_step i)"

lemma po_schedule:
  "run_schedule po_thread ts (po_start args) = Some s \<Longrightarrow> reach (\<lambda>s. s = po_start args) po_step s"
  by (rule run_schedule_reach [of po_thread _ _ "po_start args"])
    (auto simp: po_thread_def split: po_who.splits intro: po_step.intros)

lemmas po_run_simps = po_thread_def main_step_def worker_step_def set_worker_def po_start_def wrap32_def Let_def

text \<open>One unit is asked for, made and consumed.\<close>

definition po_exit :: po_state where
  "po_exit = \<lparr>po_args = [1], workers = [\<lparr>w_pc = W_Test, w_cnt = 1, w_j = 1\<rparr>], po_pc = M_Exit,
     totalRequired = 1, po_done = True, po_mtx = None, avail = 0, numConsumed = 1\<rparr>"

lemma po_exit_reach: "reach (\<lambda>s. s = po_start [1]) po_step po_exit"
proof (rule po_schedule)
  show "run_schedule po_thread
      [Main, Main, Worker 0, Worker 0, Worker 0, Worker 0, Main, Main, Main, Main, Main] (po_start [1]) =
    Some po_exit"
    by (simp add: po_run_simps po_exit_def)
qed

text \<open>When \<open>main\<close> cannot move.\<close>

lemma main_step_None: "main_step s = None \<longleftrightarrow> po_pc s = M_Exit \<or> po_pc s = M_Lock \<and> po_mtx s \<noteq> None"
proof (cases "po_pc s")
  case M_Lock
  then show ?thesis by (cases "po_mtx s") (simp_all add: main_step_def)
qed (simp_all add: main_step_def Let_def)

lemma none_made:
  assumes "workers_ok s" and "\<forall>c \<in> set (po_args s). c \<le> 0" and "w \<in> set (workers s)"
  shows "w_made w = 0 \<and> w_pc w \<in> {W_Test, W_Done}"
proof -
  have "w_cnt w \<in> set (take (length (workers s)) (po_args s))"
    using assms(1,3) unfolding workers_ok_def by (metis imageI list.set_map)
  with assms(2) have "w_cnt w \<le> 0" by (auto dest: in_set_takeD)
  moreover have "worker_ok w" using assms(1,3) by (simp add: workers_ok_def list_all_iff)
  ultimately show ?thesis by (auto simp: worker_ok_def w_made_def split: worker_pc.splits)
qed

section \<open>Properties\<close>

text \<open>C40: the polling consumer loses nothing. In every reachable state the mutex's holder is the one
  thread inside a critical region; and as long as the units the arguments ask for number at most
  \<open>INT_MAX\<close>, the units consumed and available add up to the units the threads have made, and neither
  is negative.\<close>

theorem po_conserves:
  assumes "reach (\<lambda>s. s = po_start args) po_step s"
  shows "(\<forall>who. po_critical s who \<longleftrightarrow> po_mtx s = Some who) \<and>
    (sum_list (map (max 0) args) < 2 ^ 31 \<longrightarrow>
      numConsumed s + avail s = po_made s \<and> 0 \<le> avail s \<and> 0 \<le> numConsumed s)"
proof -
  from po.inv_reach [OF assms] have "po_args s = args" "po_units_ok s" "lock_ok (po_mtx s) (po_critical s)"
    by (simp_all add: po_inv_def main_ok_def po_mutex_ok_def)
  then show ?thesis by (auto simp: po_units_ok_def po_fits_def lock_ok_def)
qed

theorem po_conserves_witness: "po_made po_exit = 1"
  using po_conserves [OF po_exit_reach] by (simp add: po_exit_def)

text \<open>C14: when \<open>main\<close> returns, no argument is negative and their sum is at most \<open>INT_MAX\<close>, it has
  consumed exactly the units asked for and none is left.\<close>

theorem po_exits:
  assumes "reach (\<lambda>s. s = po_start args) po_step s" and "po_pc s = M_Exit"
    and "\<forall>c \<in> set args. 0 \<le> c" and "sum_list args < 2 ^ 31"
  shows "numConsumed s = sum_list args \<and> avail s = 0"
proof -
  have same: "map (max 0) args = args" using assms(3) by (auto intro: map_idI)
  have pos: "0 \<le> sum_list args" using assms(3) by (auto intro: sum_list_nonneg)
  from po.inv_reach [OF assms(1)] have inv: "workers_ok s" "main_ok args s" "po_units_ok s"
    by (simp_all add: po_inv_def)
  with assms(2) have "totalRequired s = sum_list args" "totalRequired s \<le> numConsumed s" "po_args s = args"
    using pos assms(4) by (auto simp: main_ok_def wrap32_id)
  with inv(3) total_made [OF inv(1)] assms(4) same show ?thesis
    by (auto simp: po_units_ok_def po_fits_def)
qed

theorem po_exits_witness: "numConsumed po_exit = 1 \<and> avail po_exit = 0"
proof -
  have "po_pc po_exit = M_Exit" "\<forall>c \<in> set [1::int]. 0 \<le> c" "sum_list [1::int] < 2 ^ 31"
    by (simp_all add: po_exit_def)
  from po_exits [OF po_exit_reach this] show ?thesis by simp
qed

text \<open>arguments whose sum is no \<open>int\<close> make \<open>main\<close> return early: the sum of line 61 overflows, on the
  machine to a negative number, and one consumed unit is enough.\<close>

lemma po_overflow:
  "\<exists>s. reach (\<lambda>s. s = po_start [2147483647, 2147483647]) po_step s \<and> po_pc s = M_Exit \<and>
    numConsumed s = 1 \<and> totalRequired s = - 2"
proof -
  let ?s = "\<lparr>po_args = [2147483647, 2147483647], workers = [\<lparr>w_pc = W_Test, w_cnt = 2147483647, w_j = 1\<rparr>,
      \<lparr>w_pc = W_Test, w_cnt = 2147483647, w_j = 0\<rparr>], po_pc = M_Exit, totalRequired = - 2, po_done = True,
      po_mtx = None, avail = 0, numConsumed = 1\<rparr>"
  have "run_schedule po_thread
      [Main, Main, Main, Worker 0, Worker 0, Worker 0, Worker 0, Main, Main, Main, Main, Main]
      (po_start [2147483647, 2147483647]) = Some ?s"
    by (simp add: po_run_simps)
  from po_schedule [OF this] show ?thesis by (intro exI [of _ ?s]) simp
qed

text \<open>without a unit to make, \<open>main\<close> polls for ever. \<open>done\<close> is computed only in the loop that
  consumes a unit, so with no arguments, or none positive, \<open>main\<close> can always move but never returns.\<close>

lemma po_never_exits:
  assumes "reach (\<lambda>s. s = po_start args) po_step s" and "\<forall>c \<in> set args. c \<le> 0"
  shows "po_pc s \<noteq> M_Exit \<and> main_step s \<noteq> None"
proof -
  from po.inv_reach [OF assms(1)]
  have inv: "workers_ok s" "main_ok args s" "po_units_ok s" "po_mutex_ok s"
    by (simp_all add: po_inv_def)
  with assms(2) have none: "w_made w = 0" "w_pc w \<in> {W_Test, W_Done}" if "w \<in> set (workers s)" for w
    using none_made [OF inv(1) _ that] by (auto simp: main_ok_def)
  then have "map w_made (workers s) = map (\<lambda>w. 0) (workers s)" by simp
  then have "po_made s = 0" unfolding po_made_def by (simp only:) simp
  moreover have "po_fits args"
    using assms(2) by (induction args) simp_all
  ultimately have "po_pc s \<noteq> M_Exit" using inv by (auto simp: main_ok_def po_units_ok_def)
  moreover have "po_mtx s \<noteq> Some (Worker i)" for i
  proof
    assume "po_mtx s = Some (Worker i)"
    then have "po_critical s (Worker i)" using inv(4) unfolding po_mutex_ok_def lock_ok_def by blast
    then have i: "i < length (workers s)" "w_pc (workers s ! i) \<in> {W_Add, W_Unlock}" by simp_all
    with none(2) [OF nth_mem [OF i(1)]] show False by auto
  qed
  then have "po_mtx s = None \<or> po_mtx s = Some Main" by (metis not_None_eq po_who.exhaust)
  moreover have "po_critical s Main \<longleftrightarrow> po_mtx s = Some Main"
    using inv(4) unfolding po_mutex_ok_def lock_ok_def by blast
  then have "\<not> (po_pc s = M_Lock \<and> po_mtx s = Some Main)" by auto
  ultimately show ?thesis unfolding main_step_None by auto
qed

theorem po_never_exits_witness: "main_step (po_start []) \<noteq> None"
  using po_never_exits [of "[]", OF reach_init] by simp

text \<open>a negative argument makes \<open>main\<close> return early: it lowers \<open>totalRequired\<close> but makes no thread
  produce less. With the arguments \<open>2\<close> and \<open>-1\<close> there is a run that ends after one unit.\<close>

lemma po_negative_argument:
  "\<exists>s. reach (\<lambda>s. s = po_start [2, - 1]) po_step s \<and> po_pc s = M_Exit \<and> numConsumed s = 1 \<and>
    w_j (workers s ! 0) = 1 \<and> w_cnt (workers s ! 0) = 2"
proof -
  let ?s = "\<lparr>po_args = [2, - 1], workers = [\<lparr>w_pc = W_Test, w_cnt = 2, w_j = 1\<rparr>,
      \<lparr>w_pc = W_Test, w_cnt = - 1, w_j = 0\<rparr>], po_pc = M_Exit, totalRequired = 1, po_done = True,
      po_mtx = None, avail = 0, numConsumed = 1\<rparr>"
  have "run_schedule po_thread
      [Main, Main, Main, Worker 0, Worker 0, Worker 0, Worker 0, Main, Main, Main, Main, Main]
      (po_start [2, - 1]) = Some ?s"
    by (simp add: po_run_simps)
  from po_schedule [OF this] show ?thesis by (intro exI [of _ ?s]) simp
qed

text \<open>The polling program never blocks: until \<open>main\<close> returns, some thread can move.\<close>

lemma po_progress:
  assumes "reach (\<lambda>s. s = po_start args) po_step s" and "po_pc s \<noteq> M_Exit"
  shows "\<exists>t. po_step s t"
proof (cases "main_step s")
  case None
  then have "po_pc s = M_Lock" "po_mtx s \<noteq> None"
    using assms(2) by (simp_all add: main_step_None)
  moreover have crit: "po_critical s who \<longleftrightarrow> po_mtx s = Some who" for who
    using po.inv_reach [OF assms(1)] by (simp add: po_inv_def po_mutex_ok_def lock_ok_def)
  ultimately obtain i where "po_critical s (Worker i)"
    using po_critical_simps(1) [of s] by (metis not_None_eq po_main_pc.distinct(11,13) po_who.exhaust)
  then have "\<exists>t. worker_step i s = Some t"
    using assms(2) by (auto simp: worker_step_def Let_def)
  then show ?thesis by (auto intro: po_worker)
qed (auto intro: po_main)

end
