(* ===== verification/Proc_Server.thy ===== *)
theory Proc_Server imports Systems begin

text \<open>
  \<^verbatim>\<open>src/webprogramming/multi_processor_server.c\<close>: a server that forks a process per connection. A
  process has a descriptor table, the local \<open>communicatefd\<close> and a program counter; the answers of
  the kernel to its calls are the labels of its steps. A client is a number.
\<close>

section \<open>Descriptor tables\<close>

datatype fd_object = Stdin | Stdout | Stderr | Listener | Conn nat

text \<open>The kernel gives out the lowest free descriptor.\<close>

fun fd_alloc :: "fd_object \<Rightarrow> fd_object option list \<Rightarrow> nat \<times> fd_object option list" where
  "fd_alloc x [] = (0, [Some x])"
| "fd_alloc x (None # fs) = (0, Some x # fs)"
| "fd_alloc x (Some y # fs) = (let (i, fs') = fd_alloc x fs in (Suc i, Some y # fs'))"

definition fd_get :: "fd_object option list \<Rightarrow> int \<Rightarrow> fd_object option" where
  "fd_get fs fd = (if 0 \<le> fd \<and> fd < int (length fs) then fs ! nat fd else None)"

definition fd_close :: "int \<Rightarrow> fd_object option list \<Rightarrow> fd_object option list" where
  "fd_close fd fs = (if 0 \<le> fd then fs[nat fd := None] else fs)"

section \<open>A process\<close>

datatype proc_pc = A_Accept | A_Fork | A_Close_Listener | A_Read | A_Write | A_Disconnect | A_Parent | A_Exited

record process =
  fds :: "fd_object option list"
  listenfd :: int
  communicatefd :: int
  proc_pc :: proc_pc

text \<open>What the kernel answers to the call a process is at; \<open>Proceed\<close> where there is no choice.\<close>

datatype answer = Accepted nat | Accept_Err errno | Forked | Fork_Err | Got "byte list" | Eof
  | Read_Err errno | Broken_Pipe | Proceed

definition response_text :: string where
  "response_text = ''Server Response: Received Successfully'' @ [CHR 0x0A]"

definition response :: "byte list" where
  "response = read_into 64 (map of_char response_text)"

text \<open>
  Line 126 assigns the value of the comparison: \<open>communicatefd = (accept(...) == -1 && errno == EINTR)\<close>.
\<close>

definition accept_value :: "int sysres \<Rightarrow> int" where
  "accept_value ret = (if (case ret of Ok fd \<Rightarrow> fd = - 1 | Err e \<Rightarrow> e = EINTR) then 1 else 0)"

text \<open>One step: the process after it, the child it forks, and what it writes to which object.\<close>

definition proc_step :: "answer \<Rightarrow> process \<Rightarrow> (process \<times> process option \<times> (fd_object \<times> byte list) option) option"
where
  "proc_step a p =
     (let comm = fd_get (fds p) (communicatefd p) in
      case proc_pc p of
        A_Accept \<Rightarrow>
          (case a of
             Accepted c \<Rightarrow>
               (if fd_get (fds p) (listenfd p) = Some Listener
                then (let (fd, fs) = fd_alloc (Conn c) (fds p) in
                      Some (p\<lparr>fds := fs, communicatefd := accept_value (Ok (int fd)), proc_pc := A_Fork\<rparr>,
                            None, None))
                else None)
           | Accept_Err e \<Rightarrow>
               (if fd_get (fds p) (listenfd p) = Some Listener \<or> e = EBADF
                then (let v = accept_value (Err e) in
                      Some (p\<lparr>communicatefd := v, proc_pc := if v \<noteq> 0 then A_Accept else A_Fork\<rparr>, None, None))
                else None)
           | _ \<Rightarrow> None)
      | A_Fork \<Rightarrow>
          (case a of
             Forked \<Rightarrow> Some (p\<lparr>proc_pc := A_Parent\<rparr>, Some (p\<lparr>proc_pc := A_Close_Listener\<rparr>), None)
           | Fork_Err \<Rightarrow> Some (p\<lparr>proc_pc := A_Exited\<rparr>, None, None)
           | _ \<Rightarrow> None)
      | A_Close_Listener \<Rightarrow>
          (if a = Proceed
           then Some (p\<lparr>fds := fd_close (listenfd p) (fds p), proc_pc := A_Read\<rparr>, None, None) else None)
      | A_Read \<Rightarrow>
          (case a of
             Got bs \<Rightarrow> (if comm \<noteq> None \<and> bs \<noteq> [] \<and> length bs \<le> 1024
               then Some (p\<lparr>proc_pc := A_Write\<rparr>, None, None) else None)
           | Eof \<Rightarrow> (if comm \<noteq> None then Some (p\<lparr>proc_pc := A_Disconnect\<rparr>, None, None) else None)
           | Read_Err e \<Rightarrow> (if comm \<noteq> None \<or> e = EBADF then Some (p, None, None) else None)
           | _ \<Rightarrow> None)
      | A_Write \<Rightarrow>
          (case a of
             Proceed \<Rightarrow> Some (p\<lparr>proc_pc := A_Read\<rparr>, None, map_option (\<lambda>x. (x, response)) comm)
           | Broken_Pipe \<Rightarrow> Some (p\<lparr>proc_pc := A_Exited\<rparr>, None, None)
           | _ \<Rightarrow> None)
      | A_Disconnect \<Rightarrow>
          (if a = Proceed
           then Some (p\<lparr>fds := fd_close (communicatefd p) (fds p), proc_pc := A_Accept\<rparr>, None, None) else None)
      | A_Parent \<Rightarrow>
          (if a = Proceed
           then Some (p\<lparr>fds := fd_close (communicatefd p) (fds p), proc_pc := A_Accept\<rparr>, None, None) else None)
      | A_Exited \<Rightarrow> None)"

text \<open>The handler of \<open>SIGCHLD\<close>: \<open>zombies\<close> are the children \<open>waitpid\<close> finds, one per call.\<close>

fun recycle :: "nat list \<Rightarrow> nat list \<Rightarrow> nat list \<times> nat list" where
  "recycle [] recycled = ([], recycled)"
| "recycle (pid # zombies) recycled = recycle zombies (recycled @ [pid])"

section \<open>The wrappers and the start of \<open>main\<close>\<close>

definition P_Socket :: "fd_object option list sysres \<Rightarrow> (int \<times> fd_object option list) outcome" where
  "P_Socket ret = (case ret of
       Err e \<Rightarrow> Exit EXIT_FAILURE
     | Ok fs \<Rightarrow> (let (fd, fs') = fd_alloc Listener fs in Return (int fd, fs')))"

definition P_Bind :: "unit sysres \<Rightarrow> unit outcome" where
  "P_Bind ret = (case ret of Err e \<Rightarrow> Exit EXIT_FAILURE | Ok _ \<Rightarrow> Return ())"

definition P_Listen :: "unit sysres \<Rightarrow> unit outcome" where
  "P_Listen ret = (case ret of Err e \<Rightarrow> Exit EXIT_FAILURE | Ok _ \<Rightarrow> Return ())"

definition proc_main :: "fd_object option list sysres \<Rightarrow> unit sysres \<Rightarrow> unit sysres \<Rightarrow> int \<Rightarrow> process outcome" where
  "proc_main sock bnd lstn junk =
     and_then (P_Socket sock) (\<lambda>(fd, fs).
     and_then (P_Bind bnd) (\<lambda>_.
     and_then (P_Listen lstn) (\<lambda>_.
       Return \<lparr>fds = fs, listenfd = fd, communicatefd = junk, proc_pc = A_Accept\<rparr>)))"

section \<open>All processes\<close>

record proc_system =
  procs :: "process list"
  clients :: "nat set"                          \<comment> \<open>those that have connected\<close>
  replies :: "(fd_object \<times> byte list) list"     \<comment> \<open>what was written, and to what\<close>

definition start_fds :: "fd_object option list" where
  "start_fds = [Some Stdin, Some Stdout, Some Stderr]"

definition ps_init :: "proc_system \<Rightarrow> bool" where
  "ps_init s \<longleftrightarrow> (\<exists>junk p. proc_main (Ok start_fds) (Ok ()) (Ok ()) junk = Return p \<and>
     s = \<lparr>procs = [p], clients = {}, replies = []\<rparr>)"

inductive ps_step :: "proc_system \<Rightarrow> proc_system \<Rightarrow> bool" where
  ps_step: "i < length (procs s) \<Longrightarrow> proc_step a (procs s ! i) = Some (p, child, reply) \<Longrightarrow>
    (\<And>c. a = Accepted c \<Longrightarrow> c \<notin> clients s) \<Longrightarrow>
    t = \<lparr>procs = (procs s)[i := p] @ (case child of None \<Rightarrow> [] | Some q \<Rightarrow> [q]),
         clients = clients s \<union> {c. a = Accepted c},
         replies = replies s @ (case reply of None \<Rightarrow> [] | Some r \<Rightarrow> [r])\<rparr> \<Longrightarrow>
    ps_step s t"

section \<open>Facts on descriptor tables\<close>

lemma fd_alloc_slot: "fd_alloc x fs = (i, fs') \<Longrightarrow> i \<le> length fs \<and> (i < length fs \<longrightarrow> fs ! i = None) \<and>
    fs' = (if i < length fs then fs[i := Some x] else fs @ [Some x]) \<and> (\<forall>j < i. fs ! j \<noteq> None)"
proof (induction x fs arbitrary: i fs' rule: fd_alloc.induct)
  case (3 x y fs)
  obtain j gs where j: "fd_alloc x fs = (j, gs)" by (cases "fd_alloc x fs")
  with "3.prems" have "i = Suc j" "fs' = Some y # gs" by simp_all
  with "3.IH" [OF j] show ?case by (auto simp: nth_Cons split: nat.splits)
qed auto

lemma fd_alloc_keeps:
  assumes "fd_alloc x fs = (i, fs')" and "j < length fs" and "fs ! j \<noteq> None"
  shows "j < length fs' \<and> fs' ! j = fs ! j"
  using fd_alloc_slot [OF assms(1)] assms(2,3) by (auto simp: nth_append nth_list_update)

lemma fd_alloc_new:
  assumes "fd_alloc x fs = (i, fs')" and "j < length fs'" and "fs' ! j = Some y"
  shows "y = x \<or> j < length fs \<and> fs ! j = Some y"
  using fd_alloc_slot [OF assms(1)] assms(2,3)
  by (auto simp: nth_append nth_list_update less_Suc_eq split: if_splits)

section \<open>What a step does\<close>

text \<open>\<open>communicatefd\<close> is \<open>0\<close> outside the accept loop, and only the server keeps its listener.\<close>

definition proc_ok :: "process \<Rightarrow> bool" where
  "proc_ok p \<longleftrightarrow> listenfd p = 3 \<and> (proc_pc p \<noteq> A_Accept \<longrightarrow> communicatefd p = 0) \<and>
     (proc_pc p \<in> {A_Read, A_Write, A_Disconnect} \<longrightarrow> fd_get (fds p) 3 = None)"

definition ps_inv :: "proc_system \<Rightarrow> bool" where
  "ps_inv s \<longleftrightarrow> procs s \<noteq> [] \<and> list_all proc_ok (procs s)"

lemma accept_value_Ok [simp]: "accept_value (Ok (int fd)) = 0"
  by (simp add: accept_value_def)

lemma accept_value_Err [simp]: "accept_value (Err e) = (if e = EINTR then 1 else 0)"
  by (simp add: accept_value_def)

lemma proc_step_cases:
  assumes "proc_step a p = Some (p', child, reply)"
  obtains (accepted) c i fs where "proc_pc p = A_Accept" "a = Accepted c" "fd_get (fds p) (listenfd p) = Some Listener"
      "fd_alloc (Conn c) (fds p) = (i, fs)" "p' = p\<lparr>fds := fs, communicatefd := 0, proc_pc := A_Fork\<rparr>"
      "child = None" "reply = None"
  | (retry) e where "proc_pc p = A_Accept" "a = Accept_Err e" "p' = p\<lparr>communicatefd := 1, proc_pc := A_Accept\<rparr>"
      "child = None" "reply = None"
  | (ignored) e where "proc_pc p = A_Accept" "a = Accept_Err e" "p' = p\<lparr>communicatefd := 0, proc_pc := A_Fork\<rparr>"
      "child = None" "reply = None"
  | (forked) "proc_pc p = A_Fork" "a = Forked" "p' = p\<lparr>proc_pc := A_Parent\<rparr>"
      "child = Some (p\<lparr>proc_pc := A_Close_Listener\<rparr>)" "reply = None"
  | (no_fork) "proc_pc p = A_Fork" "a = Fork_Err" "p' = p\<lparr>proc_pc := A_Exited\<rparr>" "child = None" "reply = None"
  | (no_listener) "proc_pc p = A_Close_Listener" "a = Proceed"
      "p' = p\<lparr>fds := fd_close (listenfd p) (fds p), proc_pc := A_Read\<rparr>" "child = None" "reply = None"
  | (got) bs where "proc_pc p = A_Read" "a = Got bs" "fd_get (fds p) (communicatefd p) \<noteq> None"
      "p' = p\<lparr>proc_pc := A_Write\<rparr>" "child = None" "reply = None"
  | (eof) "proc_pc p = A_Read" "a = Eof" "fd_get (fds p) (communicatefd p) \<noteq> None"
      "p' = p\<lparr>proc_pc := A_Disconnect\<rparr>" "child = None" "reply = None"
  | (read_err) e where "proc_pc p = A_Read" "a = Read_Err e" "p' = p" "child = None" "reply = None"
  | (wrote) "proc_pc p = A_Write" "a = Proceed" "p' = p\<lparr>proc_pc := A_Read\<rparr>" "child = None"
      "reply = map_option (\<lambda>x. (x, response)) (fd_get (fds p) (communicatefd p))"
  | (broken) "proc_pc p = A_Write" "a = Broken_Pipe" "p' = p\<lparr>proc_pc := A_Exited\<rparr>" "child = None" "reply = None"
  | (closed) "proc_pc p = A_Disconnect \<or> proc_pc p = A_Parent" "a = Proceed"
      "p' = p\<lparr>fds := fd_close (communicatefd p) (fds p), proc_pc := A_Accept\<rparr>" "child = None" "reply = None"
proof (cases "proc_pc p")
  case A_Accept
  show thesis
  proof (cases a)
    case (Accepted c)
    obtain i fs where "fd_alloc (Conn c) (fds p) = (i, fs)" by (cases "fd_alloc (Conn c) (fds p)")
    with A_Accept Accepted assms show thesis
      by (intro accepted [of c i fs]) (simp_all add: proc_step_def split: if_split_asm)
  next
    case (Accept_Err e)
    show thesis
    proof (cases "e = EINTR")
      case True
      with A_Accept Accept_Err assms show thesis
        by (intro retry [of e]) (simp_all add: proc_step_def Let_def split: if_split_asm)
    next
      case False
      with A_Accept Accept_Err assms show thesis
        by (intro ignored [of e]) (simp_all add: proc_step_def Let_def split: if_split_asm)
    qed
  qed (use A_Accept assms in \<open>simp_all add: proc_step_def\<close>)
next
  case A_Fork
  with assms forked no_fork show thesis by (cases a) (simp_all add: proc_step_def)
next
  case A_Close_Listener
  with assms no_listener show thesis by (simp add: proc_step_def split: if_split_asm)
next
  case A_Read
  with assms got eof read_err show thesis
    by (cases a) (simp_all add: proc_step_def Let_def split: if_split_asm)
next
  case A_Write
  with assms wrote broken show thesis by (cases a) (simp_all add: proc_step_def)
next
  case A_Disconnect
  with assms closed show thesis by (simp add: proc_step_def split: if_split_asm)
next
  case A_Parent
  with assms closed show thesis by (simp add: proc_step_def split: if_split_asm)
qed (use assms in \<open>simp add: proc_step_def\<close>)

lemma fd_get_close: "fd_get (fd_close fd fs) fd' = (if fd = fd' then None else fd_get fs fd')"
  by (auto simp: fd_get_def fd_close_def nth_list_update)

lemma proc_step_ok:
  assumes "proc_ok p" and "proc_step a p = Some (p', child, reply)"
  shows "proc_ok p' \<and> (\<forall>q. child = Some q \<longrightarrow> proc_ok q)"
  using assms(2)
  by (rule proc_step_cases) (use assms(1) in \<open>simp_all add: proc_ok_def fd_get_close\<close>)

lemma ps_step_inv: "ps_inv s \<Longrightarrow> ps_step s t \<Longrightarrow> ps_inv t"
proof (erule ps_step.cases)
  fix i s' a p child reply t'
  assume "ps_inv s" "s = s'" "t = t'" and i: "i < length (procs s')"
    and step: "proc_step a (procs s' ! i) = Some (p, child, reply)"
    and t: "t' = \<lparr>procs = (procs s')[i := p] @ (case child of None \<Rightarrow> [] | Some q \<Rightarrow> [q]),
      clients = clients s' \<union> {c. a = Accepted c},
      replies = replies s' @ (case reply of None \<Rightarrow> [] | Some r \<Rightarrow> [r])\<rparr>"
  then have "proc_ok (procs s' ! i)" by (simp add: ps_inv_def list_all_length)
  from proc_step_ok [OF this step] \<open>ps_inv s\<close> \<open>s = s'\<close> \<open>t = t'\<close> i t show "ps_inv t"
    by (auto simp: ps_inv_def list_all_update split: option.splits)
qed

lemma ps_init_state:
  assumes "ps_init s"
  obtains junk where "s = \<lparr>procs = [\<lparr>fds = start_fds @ [Some Listener], listenfd = 3,
    communicatefd = junk, proc_pc = A_Accept\<rparr>], clients = {}, replies = []\<rparr>"
  using assms
  by (auto simp: ps_init_def proc_main_def P_Socket_def P_Bind_def P_Listen_def start_fds_def Let_def)

interpretation ps: invariant_system ps_init ps_step ps_inv
proof unfold_locales
  fix s assume "ps_init s"
  then show "ps_inv s" by (rule ps_init_state) (simp add: ps_inv_def proc_ok_def)
qed (rule ps_step_inv)

section \<open>A connection that is not on descriptor \<open>0\<close>\<close>

text \<open>\<open>c\<close>'s connection sits in slot \<open>4\<close> of every process, is on slot \<open>0\<close> of none, and was never answered.\<close>

definition unserved_in :: "nat \<Rightarrow> process \<Rightarrow> bool" where
  "unserved_in c p \<longleftrightarrow> 4 < length (fds p) \<and> fds p ! 4 = Some (Conn c) \<and> fds p ! 0 \<noteq> Some (Conn c)"

definition unserved :: "nat \<Rightarrow> proc_system \<Rightarrow> bool" where
  "unserved c s \<longleftrightarrow> c \<in> clients s \<and> list_all (unserved_in c) (procs s) \<and> Conn c \<notin> fst ` set (replies s)"

lemma unserved_close:
  "unserved_in c p \<Longrightarrow> fd = 0 \<or> fd = 3 \<Longrightarrow> unserved_in c (p\<lparr>fds := fd_close fd (fds p), proc_pc := q\<rparr>)"
  by (cases "fds p") (auto simp: unserved_in_def fd_close_def)

lemma unserved_alloc:
  assumes "unserved_in c p" and "fd_alloc (Conn d) (fds p) = (i, fs)" and "c \<noteq> d"
  shows "4 < length fs \<and> fs ! 4 = Some (Conn c) \<and> fs ! 0 \<noteq> Some (Conn c)"
proof -
  have four: "4 < length fs \<and> fs ! 4 = Some (Conn c)"
    using assms(1) fd_alloc_keeps [OF assms(2), of 4] by (simp add: unserved_in_def)
  moreover from four have "fs \<noteq> []" by auto
  then have "fs ! 0 \<noteq> Some (Conn c)"
    using assms(1,3) fd_alloc_new [OF assms(2), of 0 "Conn c"] four by (auto simp: unserved_in_def)
  ultimately show ?thesis by blast
qed

lemma proc_step_unserved:
  assumes "proc_ok p" and "unserved_in c p" and "proc_step a p = Some (p', child, reply)"
    and "a \<noteq> Accepted c"
  shows "unserved_in c p' \<and> (\<forall>q. child = Some q \<longrightarrow> unserved_in c q) \<and> (\<forall>r. reply = Some r \<longrightarrow> fst r \<noteq> Conn c)"
  using assms(3)
proof (rule proc_step_cases)
  fix d i fs
  assume "a = Accepted d" "fd_alloc (Conn d) (fds p) = (i, fs)"
    "p' = p\<lparr>fds := fs, communicatefd := 0, proc_pc := A_Fork\<rparr>" "child = None" "reply = None"
  with unserved_alloc [OF assms(2), of d i fs] assms(4) show ?thesis by (simp add: unserved_in_def)
next
  assume "proc_pc p = A_Write" "p' = p\<lparr>proc_pc := A_Read\<rparr>" "child = None"
    "reply = map_option (\<lambda>x. (x, response)) (fd_get (fds p) (communicatefd p))"
  with assms(1,2) show ?thesis
    by (auto simp: unserved_in_def proc_ok_def fd_get_def)
qed (use assms(1,2) in \<open>auto simp: proc_ok_def intro: unserved_close, auto simp: unserved_in_def\<close>)

lemma unserved_step:
  assumes "ps_inv s" and "unserved c s" and "ps_step s t"
  shows "unserved c t"
  using assms(3)
proof cases
  case (ps_step i a p child reply)
  with assms(1,2) have "proc_ok (procs s ! i)" "unserved_in c (procs s ! i)" "a \<noteq> Accepted c"
    by (auto simp: ps_inv_def unserved_def list_all_length)
  from proc_step_unserved [OF this(1,2) ps_step(2) this(3)] ps_step assms(2) show ?thesis
    by (auto simp: unserved_def list_all_update split: option.splits)
qed

lemma unserved_steps: "ps_step\<^sup>*\<^sup>* s t \<Longrightarrow> ps_inv s \<Longrightarrow> unserved c s \<Longrightarrow> unserved c t"
proof (induction rule: rtranclp_induct)
  case (step t u)
  then show ?case using unserved_step ps.inv_steps by blast
qed simp

section \<open>One process on its own\<close>

text \<open>A process answered by a list of answers: it, the children it forks and what it writes.\<close>

fun proc_run :: "answer list \<Rightarrow> process \<Rightarrow> (process \<times> process list \<times> (fd_object \<times> byte list) list) option"
where
  "proc_run [] p = Some (p, [], [])"
| "proc_run (a # as) p =
     (case proc_step a p of
        None \<Rightarrow> None
      | Some (p', child, reply) \<Rightarrow>
          (case proc_run as p' of
             None \<Rightarrow> None
           | Some (p'', qs, rs) \<Rightarrow>
               Some (p'', (case child of None \<Rightarrow> qs | Some q \<Rightarrow> q # qs),
                     (case reply of None \<Rightarrow> rs | Some r \<Rightarrow> r # rs))))"

lemma proc_run_steps:
  assumes "proc_run as p = Some (p', qs, rs)" and "i < length (procs s)" and "procs s ! i = p"
    and "\<forall>c. Accepted c \<notin> set as"
  shows "\<exists>t. ps_step\<^sup>*\<^sup>* s t \<and> procs t ! i = p' \<and> length (procs t) = length (procs s) + length qs \<and>
    clients t = clients s \<and> replies t = replies s @ rs"
  using assms
proof (induction as arbitrary: p qs rs s)
  case (Cons a as)
  obtain p1 child reply qs1 rs1 where step: "proc_step a p = Some (p1, child, reply)"
    and run: "proc_run as p1 = Some (p', qs1, rs1)"
    and qs: "qs = (case child of None \<Rightarrow> qs1 | Some q \<Rightarrow> q # qs1)"
    and rs: "rs = (case reply of None \<Rightarrow> rs1 | Some r \<Rightarrow> r # rs1)"
    using Cons.prems(1) by (auto split: option.splits prod.splits)
  let ?t = "\<lparr>procs = (procs s)[i := p1] @ (case child of None \<Rightarrow> [] | Some q \<Rightarrow> [q]),
    clients = clients s \<union> {c. a = Accepted c},
    replies = replies s @ (case reply of None \<Rightarrow> [] | Some r \<Rightarrow> [r])\<rparr>"
  have "ps_step s ?t"
    using Cons.prems step by (intro ps_step.intros [of i s a p1 child reply]) auto
  moreover have t: "procs ?t ! i = p1" "i < length (procs ?t)" "clients ?t = clients s"
    using Cons.prems(2,4) by (auto simp: nth_append)
  obtain u where "ps_step\<^sup>*\<^sup>* ?t u" "procs u ! i = p'" "length (procs u) = length (procs ?t) + length qs1"
    "clients u = clients ?t" "replies u = replies ?t @ rs1"
    using Cons.IH [OF run t(2,1)] Cons.prems(4) by auto
  ultimately show ?case
    using t(3) qs rs by (intro exI [of _ u] conjI) (auto intro: steps_before split: option.splits)
qed auto

text \<open>A child whose client has gone goes on forking, and its own child spins in \<open>read\<close>.\<close>

lemma orphan_forks:
  assumes "proc_pc p = A_Accept" and "listenfd p = 3" and "fd_get (fds p) 3 = None"
    and "fd_get (fds p) 0 = None"
  shows "\<exists>p' q. proc_run [Accept_Err EBADF, Forked, Proceed] p = Some (p', [q], []) \<and>
    proc_pc p' = A_Accept \<and> listenfd p' = 3 \<and> fd_get (fds p') 3 = None \<and> fd_get (fds p') 0 = None"
  using assms by (auto simp: proc_step_def Let_def fd_get_close)

lemma orphan_forks_on:
  assumes "proc_pc p = A_Accept" and "listenfd p = 3" and "fd_get (fds p) 3 = None"
    and "fd_get (fds p) 0 = None" and "i < length (procs s)" and "procs s ! i = p"
  shows "\<exists>t. ps_step\<^sup>*\<^sup>* s t \<and> length (procs t) = length (procs s) + n \<and> clients t = clients s \<and>
    replies t = replies s"
  using assms
proof (induction n arbitrary: s p)
  case (Suc n)
  obtain p' q where run: "proc_run [Accept_Err EBADF, Forked, Proceed] p = Some (p', [q], [])"
    and p': "proc_pc p' = A_Accept" "listenfd p' = 3" "fd_get (fds p') 3 = None" "fd_get (fds p') 0 = None"
    using orphan_forks [OF Suc.prems(1-4)] by blast
  obtain t where t: "ps_step\<^sup>*\<^sup>* s t" "procs t ! i = p'" "length (procs t) = length (procs s) + 1"
    "clients t = clients s" "replies t = replies s"
    using proc_run_steps [OF run Suc.prems(5,6)] by auto
  with Suc.IH [OF p', of t] Suc.prems(5) obtain u where "ps_step\<^sup>*\<^sup>* t u"
    "length (procs u) = length (procs t) + n" "clients u = clients t" "replies u = replies t"
    by auto
  with t show ?case by (intro exI [of _ u]) (auto intro: rtranclp_trans)
qed auto

lemma session:
  assumes "proc_pc p = A_Read" and "fd_get (fds p) (communicatefd p) = Some x"
    and "\<forall>m \<in> set msgs. m \<noteq> [] \<and> length m \<le> 1024"
  shows "proc_run (concat (map (\<lambda>m. [Got m, Proceed]) msgs)) p =
    Some (p, [], replicate (length msgs) (x, response))"
  using assms(3)
proof (induction msgs)
  case (Cons m msgs)
  moreover from assms(1) have same: "p\<lparr>proc_pc := A_Read\<rparr> = p" by (cases p) simp
  ultimately show ?case using assms(1,2) by (simp add: proc_step_def Let_def same)
qed simp

lemma proc_run_append:
  "proc_run (as @ bs) p = (case proc_run as p of None \<Rightarrow> None
     | Some (p', qs, rs) \<Rightarrow> (case proc_run bs p' of None \<Rightarrow> None
         | Some (p'', qs', rs') \<Rightarrow> Some (p'', qs @ qs', rs @ rs')))"
  by (induction as arbitrary: p) (auto split: option.splits prod.splits)

text \<open>A process that reads a closed descriptor never does anything else.\<close>

lemma spin_step:
  assumes "ps_step s t" and "i < length (procs s)" and "proc_pc (procs s ! i) = A_Read"
    and "fd_get (fds (procs s ! i)) (communicatefd (procs s ! i)) = None"
  shows "i < length (procs t) \<and> procs t ! i = procs s ! i"
  using assms(1)
proof cases
  case (ps_step j a p child reply)
  have "p = procs s ! i" if "j = i"
    using ps_step(2) assms(3,4) that by (auto elim!: proc_step_cases)
  with ps_step assms(2) show ?thesis
    by (auto simp: nth_append nth_list_update split: option.splits)
qed

lemma spin_steps:
  assumes "ps_step\<^sup>*\<^sup>* s t" and "i < length (procs s)" and "proc_pc (procs s ! i) = A_Read"
    and "fd_get (fds (procs s ! i)) (communicatefd (procs s ! i)) = None"
  shows "i < length (procs t) \<and> procs t ! i = procs s ! i"
  using assms
proof (induction rule: rtranclp_induct)
  case (step t u)
  then show ?case using spin_step [of t u i] by metis
qed simp

lemma recycle_all: "recycle zombies recycled = ([], recycled @ zombies)"
  by (induction zombies recycled rule: recycle.induct) auto

section \<open>Properties\<close>

text \<open>Some states of the server: at the start, and when descriptor \<open>0\<close> is free.\<close>

definition server_start :: process where
  "server_start = \<lparr>fds = start_fds @ [Some Listener], listenfd = 3, communicatefd = 0, proc_pc = A_Accept\<rparr>"

definition server_later :: process where
  "server_later = \<lparr>fds = [None, Some Stdout, Some Stderr, Some Listener, Some (Conn 1)], listenfd = 3,
     communicatefd = 0, proc_pc = A_Accept\<rparr>"

definition system_start :: proc_system where
  "system_start = \<lparr>procs = [server_start], clients = {}, replies = []\<rparr>"

definition system_first :: proc_system where
  "system_first = \<lparr>procs = [server_start\<lparr>fds := fds server_start @ [Some (Conn 1)], communicatefd := 0,
     proc_pc := A_Fork\<rparr>], clients = {1}, replies = []\<rparr>"

lemmas start_defs = system_start_def system_first_def server_start_def server_later_def start_fds_def

lemma system_start_init: "ps_init system_start"
  by (auto simp: ps_init_def proc_main_def P_Socket_def P_Bind_def P_Listen_def start_defs)

lemma system_first_step: "ps_step system_start system_first"
  by (rule ps_step.intros [of 0 _ "Accepted 1" _ None None])
    (auto simp: start_defs proc_step_def fd_get_def Let_def)

text \<open>C9: a client whose connection is given descriptor \<open>0\<close> is served. The server forks a child for it and
  is ready for the next, back where it was; the child answers each message with the \<open>64\<close> bytes of the
  response, on the client's connection and on no other, until the client disconnects.\<close>

theorem later_client_served:
  assumes "proc_pc p = A_Accept" and "fd_get (fds p) (listenfd p) = Some Listener"
    and "fds p = None # rest" and "\<forall>m \<in> set msgs. m \<noteq> [] \<and> length m \<le> 1024"
  shows "\<exists>p1 q q'. proc_run [Accepted c, Forked] p = Some (p1, [q], []) \<and>
    proc_run [Proceed] p1 = Some (p\<lparr>communicatefd := 0\<rparr>, [], []) \<and>
    proc_run ([Proceed] @ concat (map (\<lambda>m. [Got m, Proceed]) msgs) @ [Eof]) q =
      Some (q', [], replicate (length msgs) (Conn c, response)) \<and>
    proc_pc q' = A_Disconnect \<and> fd_get (fds q') (listenfd p) = None"
proof -
  let ?q = "p\<lparr>fds := Some (Conn c) # rest, communicatefd := 0, proc_pc := A_Close_Listener\<rparr>"
  let ?r = "?q\<lparr>fds := fd_close (listenfd p) (Some (Conn c) # rest), proc_pc := A_Read\<rparr>"
  have "listenfd p \<noteq> 0" using assms(2,3) by (auto simp: fd_get_def)
  then have zero: "fd_get (fds ?r) (communicatefd ?r) = Some (Conn c)"
    by (simp add: fd_get_close) (simp add: fd_get_def)
  have "proc_run (concat (map (\<lambda>m. [Got m, Proceed]) msgs)) ?r =
      Some (?r, [], replicate (length msgs) (Conn c, response))"
    by (rule session [OF _ zero assms(4)]) simp
  moreover have "proc_run [Proceed] ?q = Some (?r, [], [])" by (simp add: proc_step_def)
  moreover have "proc_run [Eof] ?r = Some (?r\<lparr>proc_pc := A_Disconnect\<rparr>, [], [])"
    using zero by (simp add: proc_step_def Let_def)
  ultimately have child: "proc_run ([Proceed] @ concat (map (\<lambda>m. [Got m, Proceed]) msgs) @ [Eof]) ?q =
      Some (?r\<lparr>proc_pc := A_Disconnect\<rparr>, [], replicate (length msgs) (Conn c, response))"
    unfolding proc_run_append by simp
  have server: "proc_run [Accepted c, Forked] p = Some (?q\<lparr>proc_pc := A_Parent\<rparr>, [?q], [])"
    using assms(1-3) by (simp add: proc_step_def Let_def)
  have parent: "proc_run [Proceed] (?q\<lparr>proc_pc := A_Parent\<rparr>) = Some (p\<lparr>communicatefd := 0\<rparr>, [], [])"
    using assms(1,3) by (cases p) (simp add: proc_step_def fd_close_def)
  show ?thesis
    by (rule exI)+ (intro conjI, rule server, rule parent, rule child, simp_all add: fd_get_close)
qed

theorem later_client_served_witness:
  "\<exists>q q'. proc_run ([Proceed] @ concat (map (\<lambda>m. [Got m, Proceed]) [[104, 105]]) @ [Eof]) q =
    Some (q', [], replicate 1 (Conn 2, response))"
  using later_client_served [of server_later "[Some Stdout, Some Stderr, Some Listener, Some (Conn 1)]"
      "[[104, 105]]" 2]
  by (auto simp: start_defs fd_get_def)

text \<open>C27: the first client is never served. When the server's first \<open>accept\<close> succeeds, the connection gets
  descriptor \<open>4\<close> but \<open>communicatefd\<close> gets \<open>0\<close>, by the assignment of line 126. In every later state
  every process outside the accept loop reads and writes descriptor \<open>0\<close>, no process has this client
  on it, no process has written to the client, and every process keeps the connection open.\<close>

theorem first_client_lost:
  assumes "ps_init s" and "ps_step s t" and "clients t = {c}" and "ps_step\<^sup>*\<^sup>* t u"
  shows "(\<exists>p. procs t = [p] \<and> proc_pc p = A_Fork \<and> fd_get (fds p) 4 = Some (Conn c) \<and> communicatefd p = 0) \<and>
    Conn c \<notin> fst ` set (replies u) \<and>
    (\<forall>p \<in> set (procs u). (proc_pc p \<noteq> A_Accept \<longrightarrow> communicatefd p = 0) \<and>
      fd_get (fds p) 4 = Some (Conn c) \<and> fd_get (fds p) 0 \<noteq> Some (Conn c))"
proof -
  obtain junk where s: "s = \<lparr>procs = [\<lparr>fds = start_fds @ [Some Listener], listenfd = 3,
    communicatefd = junk, proc_pc = A_Accept\<rparr>], clients = {}, replies = []\<rparr>"
    using assms(1) by (rule ps_init_state)
  from assms(2) have first: "unserved c t \<and> (\<exists>p. procs t = [p] \<and> proc_pc p = A_Fork \<and> communicatefd p = 0)"
    using assms(3)
    by cases (auto simp: s unserved_def unserved_in_def start_fds_def elim!: proc_step_cases)
  have t: "ps_inv t" using assms(1,2) ps.inv_init ps_step_inv by blast
  then have "unserved c u" "ps_inv u" using first assms(4) unserved_steps ps.inv_steps by blast+
  then have "\<forall>p \<in> set (procs u). (proc_pc p \<noteq> A_Accept \<longrightarrow> communicatefd p = 0) \<and>
      fd_get (fds p) 4 = Some (Conn c) \<and> fd_get (fds p) 0 \<noteq> Some (Conn c)"
    by (force simp: unserved_def unserved_in_def ps_inv_def proc_ok_def list_all_iff fd_get_def)
  moreover have "Conn c \<notin> fst ` set (replies u)" using \<open>unserved c u\<close> by (simp add: unserved_def)
  moreover from first have "\<exists>p. procs t = [p] \<and> proc_pc p = A_Fork \<and> fd_get (fds p) 4 = Some (Conn c) \<and> communicatefd p = 0"
    by (force simp: unserved_def unserved_in_def fd_get_def)
  ultimately show ?thesis by blast
qed

theorem first_client_lost_witness: "Conn 1 \<notin> fst ` set (replies system_first)"
  using first_client_lost [OF system_start_init system_first_step, of 1 system_first]
  by (simp add: system_first_def)

text \<open>C31: a child whose client has disconnected forks for ever. It leaves the loop of the communication
  but not the loop of the server, whose listener it has closed: \<open>accept\<close> fails, the failure is
  ignored, and \<open>Fork\<close> is called again. From every reachable state with such a child, any number of
  processes more can come about with no client taking part.\<close>

theorem child_fork_bomb:
  assumes "reach ps_init ps_step s" and "i < length (procs s)" and "proc_pc (procs s ! i) = A_Disconnect"
  shows "\<exists>t. ps_step\<^sup>*\<^sup>* s t \<and> length (procs t) = length (procs s) + n \<and> clients t = clients s \<and>
    replies t = replies s"
proof -
  let ?p = "procs s ! i"
  let ?p1 = "?p\<lparr>fds := fd_close 0 (fds ?p), proc_pc := A_Accept\<rparr>"
  have ok: "proc_ok ?p" using ps.inv_reach [OF assms(1)] assms(2) by (simp add: ps_inv_def list_all_length)
  with assms(3) have "proc_run [Proceed] ?p = Some (?p1, [], [])"
    by (simp add: proc_step_def proc_ok_def)
  from proc_run_steps [OF this assms(2) refl] obtain r where r: "ps_step\<^sup>*\<^sup>* s r" "procs r ! i = ?p1"
    "length (procs r) = length (procs s)" "clients r = clients s" "replies r = replies s"
    by auto
  have "\<exists>t. ps_step\<^sup>*\<^sup>* r t \<and> length (procs t) = length (procs r) + n \<and> clients t = clients r \<and>
      replies t = replies r"
    using ok assms(2,3) r(2,3)
    by (intro orphan_forks_on [of ?p1 i]) (simp_all add: proc_ok_def fd_get_close)
  with r show ?thesis by (metis rtranclp_trans)
qed

text \<open>The first client's child reads the server's terminal, and finds it closed.\<close>

lemma orphan_reach:
  "\<exists>s. reach ps_init ps_step s \<and> 1 < length (procs s) \<and> proc_pc (procs s ! 1) = A_Disconnect"
proof -
  let ?p = "procs system_first ! 0"
  let ?s = "\<lparr>procs = [?p\<lparr>proc_pc := A_Parent\<rparr>, ?p\<lparr>proc_pc := A_Close_Listener\<rparr>], clients = {1}, replies = []\<rparr>"
  have "ps_step system_first ?s"
    by (rule ps_step.intros [of 0 _ Forked "?p\<lparr>proc_pc := A_Parent\<rparr>"
        "Some (?p\<lparr>proc_pc := A_Close_Listener\<rparr>)" None])
      (auto simp: start_defs proc_step_def)
  then have "reach ps_init ps_step ?s"
    using system_start_init system_first_step by (meson reach_init reach_step)
  moreover have "proc_run [Proceed, Eof] (?p\<lparr>proc_pc := A_Close_Listener\<rparr>) =
      Some (?p\<lparr>fds := fd_close 3 (fds ?p), proc_pc := A_Disconnect\<rparr>, [], [])"
    by (simp add: start_defs proc_step_def fd_get_def fd_close_def)
  from proc_run_steps [OF this, of 1 ?s] obtain t where "ps_step\<^sup>*\<^sup>* ?s t" "1 < length (procs t)"
    "proc_pc (procs t ! 1) = A_Disconnect"
    by auto
  ultimately show ?thesis by (meson reach_steps)
qed

theorem child_fork_bomb_witness:
  "\<exists>s t. reach ps_init ps_step s \<and> ps_step\<^sup>*\<^sup>* s t \<and> length (procs t) = length (procs s) + 1000000"
proof -
  obtain s where s: "reach ps_init ps_step s" "1 < length (procs s)" "proc_pc (procs s ! 1) = A_Disconnect"
    using orphan_reach by blast
  from child_fork_bomb [OF this, of 1000000] s(1) show ?thesis by blast
qed

text \<open>a failing \<open>read\<close> is retried for ever. The branch for \<open>-1\<close> has no \<open>break\<close>; a process whose
  descriptor is closed, such as each child of the previous property, never changes again.\<close>

lemma read_error_spins:
  assumes "ps_step\<^sup>*\<^sup>* s t" and "i < length (procs s)" and "proc_pc (procs s ! i) = A_Read"
    and "fd_get (fds (procs s ! i)) (communicatefd (procs s ! i)) = None"
  shows "procs t ! i = procs s ! i"
  using spin_steps [OF assms] by simp

theorem read_error_spins_witness:
  "\<exists>t. ps_step (system_start\<lparr>procs := [server_start, server_later\<lparr>proc_pc := A_Read\<rparr>]\<rparr>) t \<and>
    procs t ! 1 = server_later\<lparr>proc_pc := A_Read\<rparr>"
proof -
  let ?s = "system_start\<lparr>procs := [server_start, server_later\<lparr>proc_pc := A_Read\<rparr>]\<rparr>"
  let ?t = "\<lparr>procs = [server_start\<lparr>communicatefd := 1\<rparr>, server_later\<lparr>proc_pc := A_Read\<rparr>],
    clients = {}, replies = []\<rparr>"
  have "ps_step ?s ?t"
    by (rule ps_step.intros [of 0 _ "Accept_Err EINTR" "server_start\<lparr>communicatefd := 1\<rparr>" None None])
      (simp_all add: start_defs proc_step_def fd_get_def)
  with read_error_spins [of ?s ?t 1] show ?thesis
    by (auto simp: start_defs fd_get_def)
qed

end
