(* ===== verification/Thread_Server.thy ===== *)
theory Thread_Server imports Systems begin

text \<open>
  \<^verbatim>\<open>src/webprogramming/multi_thread_server.c\<close>: a server with a thread per connection and a table of
  \<open>THREAD_LIMIT\<close> slots that it shares with the threads without a lock. One step is one access to the
  table or one system call; what the kernel answers is the label of the step.
\<close>

section \<open>The state\<close>

definition THREAD_LIMIT :: nat where "THREAD_LIMIT = 3"

record sock_info =
  slot_on :: int
  slot_cfd :: int

datatype server_pc = S_Scan | S_Accept | S_Accept_Again | S_Create | S_Set_On | S_Detach | S_Suspend | S_Exited
datatype serve_pc = R_Read | R_Write | R_Clear | R_Clear_Err | R_Raise | R_Ended

record thread_state =
  socks :: "sock_info list"
  s_pc :: server_pc
  s_i :: nat                                \<comment> \<open>\<open>i\<close> of \<open>main\<close>\<close>
  threads :: "(nat \<times> serve_pc) list"       \<comment> \<open>the slot each thread was given, and where it is\<close>
  open_cfds :: "int set"

datatype reply_to = Acc "int sysres" | Created bool | Detached bool | Received "string option" | Recv_Err | Go

text \<open>The text that makes a worker stop; \<open>None\<close> in \<open>Received\<close> is the end of the stream.\<close>

definition stop_password :: string where
  "stop_password = ''SERVER STOP PASSWORD''"

definition set_sock :: "nat \<Rightarrow> (sock_info \<Rightarrow> sock_info) \<Rightarrow> thread_state \<Rightarrow> thread_state" where
  "set_sock i f s = s\<lparr>socks := (socks s)[i := f (socks s ! i)]\<rparr>"

text \<open>\<open>socks[i].cfd = accept(...)\<close>; the kernel's descriptor is one that is not in use.\<close>

definition accept_into :: "int sysres \<Rightarrow> thread_state \<Rightarrow> thread_state" where
  "accept_into ret s =
     (case ret of
        Err e \<Rightarrow> set_sock (s_i s) (\<lambda>k. k\<lparr>slot_cfd := - 1\<rparr>) s
      | Ok fd \<Rightarrow> (set_sock (s_i s) (\<lambda>k. k\<lparr>slot_cfd := fd\<rparr>) s)\<lparr>open_cfds := insert fd (open_cfds s)\<rparr>)"

definition accept_possible :: "int sysres \<Rightarrow> thread_state \<Rightarrow> bool" where
  "accept_possible ret s = (case ret of Err e \<Rightarrow> True | Ok fd \<Rightarrow> 0 \<le> fd \<and> fd \<notin> open_cfds s)"

section \<open>The server\<close>

definition server_step :: "reply_to \<Rightarrow> thread_state \<Rightarrow> thread_state option" where
  "server_step a s =
     (case (s_pc s, a) of
        (S_Scan, Go) \<Rightarrow>
          (if s_i s < THREAD_LIMIT
           then (if slot_on (socks s ! s_i s) = 0 then Some (s\<lparr>s_pc := S_Accept\<rparr>)
                 else Some (s\<lparr>s_i := s_i s + 1\<rparr>))
           else Some (s\<lparr>s_pc := S_Suspend\<rparr>))
      | (S_Accept, Acc ret) \<Rightarrow>
          (if accept_possible ret s
           then Some ((accept_into ret s)\<lparr>s_pc := case ret of Err e \<Rightarrow> S_Accept_Again | Ok fd \<Rightarrow> S_Create\<rparr>)
           else None)
      | (S_Accept_Again, Acc ret) \<Rightarrow>
          (if accept_possible ret s then Some ((accept_into ret s)\<lparr>s_pc := S_Accept\<rparr>) else None)
      | (S_Create, Created ok) \<Rightarrow>
          (if ok then Some (s\<lparr>threads := threads s @ [(s_i s, R_Read)], s_pc := S_Set_On\<rparr>)
           else Some (s\<lparr>s_pc := S_Exited\<rparr>))
      | (S_Set_On, Go) \<Rightarrow> Some ((set_sock (s_i s) (\<lambda>k. k\<lparr>slot_on := 1\<rparr>) s)\<lparr>s_pc := S_Detach\<rparr>)
      | (S_Detach, Detached ok) \<Rightarrow>
          (if ok then Some (s\<lparr>s_i := 0, s_pc := S_Scan\<rparr>) else Some (s\<lparr>s_pc := S_Exited\<rparr>))
      | _ \<Rightarrow> None)"

section \<open>The workers\<close>

definition set_thread :: "nat \<Rightarrow> serve_pc \<Rightarrow> thread_state \<Rightarrow> thread_state" where
  "set_thread k pc s = s\<lparr>threads := (threads s)[k := (fst (threads s ! k), pc)]\<rparr>"

text \<open>
  A step of thread \<open>k\<close>. \<open>raise(SIGUSR1)\<close> sends the signal to the calling thread, which runs the
  handler \<open>wake\<close>; it is not the signal \<open>main\<close> waits for. Threads end with \<open>main\<close>.
\<close>

definition serve_step :: "nat \<Rightarrow> reply_to \<Rightarrow> thread_state \<Rightarrow> thread_state option" where
  "serve_step k a s =
     (if length (threads s) \<le> k \<or> s_pc s = S_Exited then None
      else (let (i, pc) = threads s ! k in
        case (pc, a) of
          (R_Read, Recv_Err) \<Rightarrow> Some (set_thread k R_Clear_Err s)
        | (R_Read, Received None) \<Rightarrow>
            Some ((set_thread k R_Clear s)\<lparr>open_cfds := open_cfds s - {slot_cfd (socks s ! i)}\<rparr>)
        | (R_Read, Received (Some cont)) \<Rightarrow>
            Some (set_thread k (if cont \<noteq> stop_password then R_Write else R_Clear) s)
        | (R_Write, Go) \<Rightarrow> Some (set_thread k R_Read s)
        | (R_Clear, Go) \<Rightarrow> Some (set_thread k R_Raise (set_sock i (\<lambda>x. x\<lparr>slot_on := 0\<rparr>) s))
        | (R_Clear_Err, Go) \<Rightarrow> Some (set_thread k R_Ended (set_sock i (\<lambda>x. x\<lparr>slot_on := 0\<rparr>) s))
        | (R_Raise, Go) \<Rightarrow> Some (set_thread k R_Ended s)
        | _ \<Rightarrow> None))"

section \<open>Runs\<close>

text \<open>\<open>main\<close> up to the loop, with the results of \<open>socket\<close>, \<open>bind\<close> and \<open>listen\<close>.\<close>

definition thread_main :: "int sysres \<Rightarrow> unit sysres \<Rightarrow> unit sysres \<Rightarrow> thread_state outcome" where
  "thread_main sock bnd lstn =
     (case sock of Err e \<Rightarrow> Exit EXIT_FAILURE
      | Ok lfd \<Rightarrow> (case bnd of Err e \<Rightarrow> Exit EXIT_FAILURE
        | Ok _ \<Rightarrow> (case lstn of Err e \<Rightarrow> Exit EXIT_FAILURE
          | Ok _ \<Rightarrow> Return \<lparr>socks = replicate THREAD_LIMIT \<lparr>slot_on = 0, slot_cfd = 0\<rparr>, s_pc = S_Scan,
              s_i = 0, threads = [], open_cfds = {0, 1, 2, lfd}\<rparr>)))"

definition ts_init :: "thread_state \<Rightarrow> bool" where
  "ts_init s \<longleftrightarrow> (\<exists>lfd. 0 \<le> lfd \<and> thread_main (Ok lfd) (Ok ()) (Ok ()) = Return s)"

inductive ts_step :: "thread_state \<Rightarrow> thread_state \<Rightarrow> bool" where
  ts_main: "server_step a s = Some t \<Longrightarrow> ts_step s t"
| ts_thread: "serve_step k a s = Some t \<Longrightarrow> ts_step s t"

inductive_cases ts_stepE: "ts_step s t"

text \<open>A \<open>SIGUSR1\<close> from outside the process ends a \<open>sigsuspend\<close>.\<close>

definition external_signal :: "thread_state \<Rightarrow> thread_state \<Rightarrow> bool" where
  "external_signal s t \<longleftrightarrow> s_pc s = S_Suspend \<and> t = s\<lparr>s_i := 0, s_pc := S_Scan\<rparr>"

definition ts_any :: "thread_state \<Rightarrow> thread_state \<Rightarrow> bool" where
  "ts_any s t \<longleftrightarrow> ts_step s t \<or> external_signal s t"

section \<open>The invariant\<close>

text \<open>The threads that still use their slot, by their number.\<close>

definition serving :: "thread_state \<Rightarrow> nat \<Rightarrow> bool" where
  "serving s k \<longleftrightarrow> k < length (threads s) \<and> snd (threads s ! k) \<in> {R_Read, R_Write, R_Clear, R_Clear_Err}"

definition slot_of :: "thread_state \<Rightarrow> nat \<Rightarrow> nat" where
  "slot_of s k = fst (threads s ! k)"

definition claiming :: "thread_state \<Rightarrow> bool" where
  "claiming s \<longleftrightarrow> s_pc s \<in> {S_Accept, S_Accept_Again, S_Create}"

definition ts_inv :: "thread_state \<Rightarrow> bool" where
  "ts_inv s \<longleftrightarrow> length (socks s) = THREAD_LIMIT \<and>
     (s_pc s \<in> {S_Accept, S_Accept_Again, S_Create, S_Set_On} \<longrightarrow> s_i s < THREAD_LIMIT) \<and>
     (\<forall>k. serving s k \<longrightarrow> slot_of s k < THREAD_LIMIT \<and>
        (slot_on (socks s ! slot_of s k) \<noteq> 0 \<or> s_pc s = S_Set_On \<and> s_i s = slot_of s k) \<and>
        \<not> (claiming s \<and> s_i s = slot_of s k)) \<and>
     (\<forall>k l. serving s k \<and> serving s l \<and> slot_of s k = slot_of s l \<longrightarrow> k = l)"

lemma server_step_cases:
  assumes "server_step a s = Some t"
  obtains (free) "s_pc s = S_Scan" "s_i s < THREAD_LIMIT" "slot_on (socks s ! s_i s) = 0" "t = s\<lparr>s_pc := S_Accept\<rparr>"
  | (in_use) "s_pc s = S_Scan" "s_i s < THREAD_LIMIT" "slot_on (socks s ! s_i s) \<noteq> 0" "t = s\<lparr>s_i := s_i s + 1\<rparr>"
  | (full) "s_pc s = S_Scan" "\<not> s_i s < THREAD_LIMIT" "t = s\<lparr>s_pc := S_Suspend\<rparr>"
  | (accepted) fd where "s_pc s = S_Accept" "0 \<le> fd" "fd \<notin> open_cfds s" "a = Acc (Ok fd)"
      "t = (set_sock (s_i s) (\<lambda>k. k\<lparr>slot_cfd := fd\<rparr>) s)\<lparr>open_cfds := insert fd (open_cfds s), s_pc := S_Create\<rparr>"
  | (failed) e where "s_pc s = S_Accept" "a = Acc (Err e)"
      "t = (set_sock (s_i s) (\<lambda>k. k\<lparr>slot_cfd := - 1\<rparr>) s)\<lparr>s_pc := S_Accept_Again\<rparr>"
  | (again) fd where "s_pc s = S_Accept_Again" "0 \<le> fd" "fd \<notin> open_cfds s" "a = Acc (Ok fd)"
      "t = (set_sock (s_i s) (\<lambda>k. k\<lparr>slot_cfd := fd\<rparr>) s)\<lparr>open_cfds := insert fd (open_cfds s), s_pc := S_Accept\<rparr>"
  | (failed_again) e where "s_pc s = S_Accept_Again" "a = Acc (Err e)"
      "t = (set_sock (s_i s) (\<lambda>k. k\<lparr>slot_cfd := - 1\<rparr>) s)\<lparr>s_pc := S_Accept\<rparr>"
  | (created) "s_pc s = S_Create" "t = s\<lparr>threads := threads s @ [(s_i s, R_Read)], s_pc := S_Set_On\<rparr>"
  | (turned_on) "s_pc s = S_Set_On" "t = (set_sock (s_i s) (\<lambda>k. k\<lparr>slot_on := 1\<rparr>) s)\<lparr>s_pc := S_Detach\<rparr>"
  | (detached) "s_pc s = S_Detach" "t = s\<lparr>s_i := 0, s_pc := S_Scan\<rparr>"
  | (exited) "s_pc s = S_Create \<or> s_pc s = S_Detach" "t = s\<lparr>s_pc := S_Exited\<rparr>"
proof (cases "s_pc s")
  case S_Scan
  show thesis
  proof (cases "s_i s < THREAD_LIMIT")
    case True
    with S_Scan assms free in_use show thesis
      by (cases a) (simp_all add: server_step_def split: if_split_asm)
  next
    case False
    with S_Scan assms full show thesis by (cases a) (simp_all add: server_step_def)
  qed
next
  case S_Accept
  then obtain ret where "a = Acc ret" using assms by (cases a) (simp_all add: server_step_def)
  with S_Accept assms accepted failed show thesis
    by (cases ret) (simp_all add: server_step_def accept_possible_def accept_into_def split: if_split_asm)
next
  case S_Accept_Again
  then obtain ret where "a = Acc ret" using assms by (cases a) (simp_all add: server_step_def)
  with S_Accept_Again assms again failed_again show thesis
    by (cases ret) (simp_all add: server_step_def accept_possible_def accept_into_def split: if_split_asm)
next
  case S_Create
  with assms created exited show thesis by (cases a) (simp_all add: server_step_def split: if_split_asm)
next
  case S_Set_On
  with assms turned_on show thesis by (cases a) (simp_all add: server_step_def)
next
  case S_Detach
  with assms detached exited show thesis by (cases a) (simp_all add: server_step_def split: if_split_asm)
qed (use assms in \<open>simp_all add: server_step_def\<close>)

lemma serve_step_cases:
  assumes "serve_step k a s = Some t"
  obtains (serves) pc where "serving s k" "s_pc s \<noteq> S_Exited" "pc \<in> {R_Read, R_Write, R_Clear, R_Clear_Err}"
      "t = set_thread k pc s"
  | (closes) "serving s k" "s_pc s \<noteq> S_Exited"
      "t = (set_thread k R_Clear s)\<lparr>open_cfds := open_cfds s - {slot_cfd (socks s ! slot_of s k)}\<rparr>"
  | (clears) pc where "serving s k" "s_pc s \<noteq> S_Exited" "pc \<in> {R_Raise, R_Ended}"
      "t = set_thread k pc (set_sock (slot_of s k) (\<lambda>x. x\<lparr>slot_on := 0\<rparr>) s)"
  | (ends) "\<not> serving s k" "k < length (threads s)" "s_pc s \<noteq> S_Exited" "t = set_thread k R_Ended s"
proof -
  have k: "k < length (threads s)" "s_pc s \<noteq> S_Exited"
    using assms by (auto simp: serve_step_def split: if_split_asm)
  obtain i pc where ip: "threads s ! k = (i, pc)" by (cases "threads s ! k")
  note d = serve_step_def serving_def slot_of_def
  show thesis
  proof (cases pc)
    case R_Read
    then show thesis
      using assms k ip serves [of R_Write] serves [of R_Clear] serves [of R_Clear_Err] closes
      by (cases a) (auto simp: d split: option.splits if_splits)
  next
    case R_Write
    with assms k ip serves [of R_Read] show thesis by (cases a) (auto simp: d)
  next
    case R_Clear
    with assms k ip clears [of R_Raise] show thesis by (cases a) (auto simp: d)
  next
    case R_Clear_Err
    with assms k ip clears [of R_Ended] show thesis by (cases a) (auto simp: d)
  next
    case R_Raise
    with assms k ip ends show thesis by (cases a) (auto simp: d)
  next
    case R_Ended
    with assms k ip show thesis by (cases a) (auto simp: d)
  qed
qed

section \<open>Every step keeps the invariant\<close>

lemma serving_simps [simp]:
  "serving (s\<lparr>s_pc := q\<rparr>) = serving s" "serving (s\<lparr>s_i := i\<rparr>) = serving s"
  "serving (s\<lparr>open_cfds := fs\<rparr>) = serving s" "serving (set_sock i f s) = serving s"
  "slot_of (s\<lparr>s_pc := q\<rparr>) = slot_of s" "slot_of (s\<lparr>s_i := i\<rparr>) = slot_of s"
  "slot_of (s\<lparr>open_cfds := fs\<rparr>) = slot_of s" "slot_of (set_sock i f s) = slot_of s"
  by (auto simp: serving_def slot_of_def set_sock_def)

lemma set_simps [simp]:
  "s_pc (set_thread k pc s) = s_pc s" "s_i (set_thread k pc s) = s_i s" "socks (set_thread k pc s) = socks s"
  "open_cfds (set_thread k pc s) = open_cfds s" "length (threads (set_thread k pc s)) = length (threads s)"
  "s_pc (set_sock i f s) = s_pc s" "s_i (set_sock i f s) = s_i s" "threads (set_sock i f s) = threads s"
  "open_cfds (set_sock i f s) = open_cfds s" "socks (set_sock i f s) = (socks s)[i := f (socks s ! i)]"
  by (simp_all add: set_thread_def set_sock_def)

lemma serving_set_thread:
  "k < length (threads s) \<Longrightarrow> serving (set_thread k pc s) l =
    (if l = k then pc \<in> {R_Read, R_Write, R_Clear, R_Clear_Err} else serving s l)"
  by (auto simp: serving_def set_thread_def nth_list_update)

lemma slot_of_set_thread [simp]: "slot_of (set_thread k pc s) = slot_of s"
  by (cases "k < length (threads s)") (auto simp: fun_eq_iff slot_of_def set_thread_def nth_list_update list_update_beyond)

lemma serving_length: "serving s k \<Longrightarrow> k < length (threads s)"
  by (simp add: serving_def)

lemma serving_created:
  "serving (s\<lparr>threads := threads s @ [(i, R_Read)]\<rparr>) k \<longleftrightarrow> serving s k \<or> k = length (threads s)"
  by (auto simp: serving_def nth_append)

lemma slot_created: "serving s k \<Longrightarrow> slot_of (s\<lparr>threads := threads s @ [(i, R_Read)]\<rparr>) k = slot_of s k"
  and slot_new: "slot_of (s\<lparr>threads := threads s @ [(i, R_Read)]\<rparr>) (length (threads s)) = i"
  by (auto simp: serving_def slot_of_def nth_append)

lemma ts_invD:
  assumes "ts_inv s" and "serving s k"
  shows "slot_of s k < THREAD_LIMIT"
    and "slot_on (socks s ! slot_of s k) \<noteq> 0 \<or> s_pc s = S_Set_On \<and> s_i s = slot_of s k"
    and "\<not> (claiming s \<and> s_i s = slot_of s k)"
    and "serving s l \<Longrightarrow> slot_of s k = slot_of s l \<Longrightarrow> k = l"
  using assms unfolding ts_inv_def by blast+

lemma ts_invI:
  assumes "length (socks s) = THREAD_LIMIT"
    and "s_pc s \<in> {S_Accept, S_Accept_Again, S_Create, S_Set_On} \<Longrightarrow> s_i s < THREAD_LIMIT"
    and "\<And>k. serving s k \<Longrightarrow> slot_of s k < THREAD_LIMIT \<and>
      (slot_on (socks s ! slot_of s k) \<noteq> 0 \<or> s_pc s = S_Set_On \<and> s_i s = slot_of s k) \<and>
      \<not> (claiming s \<and> s_i s = slot_of s k)"
    and "\<And>k l. serving s k \<Longrightarrow> serving s l \<Longrightarrow> slot_of s k = slot_of s l \<Longrightarrow> k = l"
  shows "ts_inv s"
  using assms unfolding ts_inv_def by blast

text \<open>A step that starts no thread, and changes no slot that a thread uses.\<close>

lemma ts_inv_frame:
  assumes "ts_inv s" and "length (socks t) = length (socks s)"
    and "s_pc t \<in> {S_Accept, S_Accept_Again, S_Create, S_Set_On} \<Longrightarrow> s_i t < THREAD_LIMIT"
    and "slot_of t = slot_of s" and "\<And>k. serving t k \<Longrightarrow> serving s k"
    and "\<And>k. serving t k \<Longrightarrow> slot_of s k < THREAD_LIMIT \<Longrightarrow>
      slot_on (socks s ! slot_of s k) \<noteq> 0 \<or> s_pc s = S_Set_On \<and> s_i s = slot_of s k \<Longrightarrow>
      \<not> (claiming s \<and> s_i s = slot_of s k) \<Longrightarrow>
      (slot_on (socks t ! slot_of s k) \<noteq> 0 \<or> s_pc t = S_Set_On \<and> s_i t = slot_of s k) \<and>
      \<not> (claiming t \<and> s_i t = slot_of s k)"
  shows "ts_inv t"
proof (rule ts_invI)
  show "length (socks t) = THREAD_LIMIT" using assms(1,2) by (simp add: ts_inv_def)
next
  fix k assume k: "serving t k"
  with assms(5) have "serving s k" by blast
  note d = ts_invD [OF assms(1) this]
  show "slot_of t k < THREAD_LIMIT \<and>
      (slot_on (socks t ! slot_of t k) \<noteq> 0 \<or> s_pc t = S_Set_On \<and> s_i t = slot_of t k) \<and>
      \<not> (claiming t \<and> s_i t = slot_of t k)"
    using assms(6) [OF k d(1-3)] d(1) assms(4) by simp
next
  fix k l assume "serving t k" "serving t l" "slot_of t k = slot_of t l"
  with assms(4,5) ts_invD(4) [OF assms(1)] show "k = l" by metis
qed (rule assms(3))

lemma server_step_inv:
  assumes inv: "ts_inv s" and "server_step a s = Some t"
  shows "ts_inv t"
proof -
  from inv have len: "length (socks s) = THREAD_LIMIT"
    and i: "s_pc s \<in> {S_Accept, S_Accept_Again, S_Create, S_Set_On} \<Longrightarrow> s_i s < THREAD_LIMIT"
    by (auto simp: ts_inv_def)
  note d = claiming_def nth_list_update
  from assms(2) show ?thesis
  proof (rule server_step_cases)
    assume c: "s_pc s = S_Create" "t = s\<lparr>threads := threads s @ [(s_i s, R_Read)], s_pc := S_Set_On\<rparr>"
    show ?thesis
    proof (rule ts_invI)
      show "length (socks t) = THREAD_LIMIT" "s_i t < THREAD_LIMIT" using c len i by simp_all
    next
      fix k assume "serving t k"
      then show "slot_of t k < THREAD_LIMIT \<and>
          (slot_on (socks t ! slot_of t k) \<noteq> 0 \<or> s_pc t = S_Set_On \<and> s_i t = slot_of t k) \<and>
          \<not> (claiming t \<and> s_i t = slot_of t k)"
        using c i ts_invD [OF inv, of k]
        by (auto simp: serving_created slot_created slot_new d)
    next
      fix k l assume kl: "serving t k" "serving t l" "slot_of t k = slot_of t l"
      have new: "slot_of s j \<noteq> s_i s" if "serving s j" for j
        using ts_invD(3) [OF inv that] c(1) by (auto simp: claiming_def)
      from kl show "k = l"
        using c ts_invD(4) [OF inv, of k l] new [of k] new [of l]
        by (auto simp: serving_created slot_created slot_new)
    qed
  qed (use len i in \<open>auto simp: d intro!: ts_inv_frame [OF inv] split: if_split_asm\<close>)
qed

lemma serve_step_inv:
  assumes inv: "ts_inv s" and "serve_step k a s = Some t"
  shows "ts_inv t"
proof -
  from inv have len: "length (socks s) = THREAD_LIMIT"
    and i: "s_pc s \<in> {S_Accept, S_Accept_Again, S_Create, S_Set_On} \<Longrightarrow> s_i s < THREAD_LIMIT"
    by (auto simp: ts_inv_def)
  from assms(2) show ?thesis
  proof (rule serve_step_cases)
    fix pc assume c: "serving s k" "pc \<in> {R_Raise, R_Ended}"
      "t = set_thread k pc (set_sock (slot_of s k) (\<lambda>x. x\<lparr>slot_on := 0\<rparr>) s)"
    have other: "serving s l \<Longrightarrow> l \<noteq> k \<Longrightarrow> slot_of s k \<noteq> slot_of s l" for l
      using ts_invD(4) [OF inv c(1), of l] by auto
    from c other len i show ?thesis
      by (intro ts_inv_frame [OF inv])
        (auto simp: serving_set_thread serving_length claiming_def nth_list_update split: if_splits)
  qed (use i in \<open>auto simp: serving_set_thread serving_length claiming_def
      intro!: ts_inv_frame [OF inv] split: if_splits\<close>)
qed

lemma ts_start_inv: "ts_init s \<Longrightarrow> ts_inv s"
  by (auto simp: ts_init_def thread_main_def ts_inv_def serving_def)

lemma ts_any_inv:
  assumes "ts_inv s" and "ts_any s t"
  shows "ts_inv t"
  using assms(2) unfolding ts_any_def
proof
  assume "ts_step s t"
  then show ?thesis using assms(1) by (elim ts_stepE) (auto intro: server_step_inv serve_step_inv)
next
  assume "external_signal s t"
  then show ?thesis
    using assms(1) by (auto simp: external_signal_def claiming_def intro!: ts_inv_frame [OF assms(1)])
qed

interpretation ts: invariant_system ts_init ts_any ts_inv
  by unfold_locales (simp_all add: ts_start_inv ts_any_inv)

section \<open>Slots that are lost\<close>

definition dead_slot :: "thread_state \<Rightarrow> nat \<Rightarrow> bool" where
  "dead_slot s i \<longleftrightarrow> i < length (socks s) \<and> slot_on (socks s ! i) \<noteq> 0 \<and>
     (\<forall>k. serving s k \<longrightarrow> slot_of s k \<noteq> i) \<and> \<not> (claiming s \<and> s_i s = i)"

lemma dead_slot_server:
  assumes "dead_slot s i" and "server_step a s = Some t"
  shows "dead_slot t i"
  using assms(2)
  by (rule server_step_cases)
    (use assms(1) in \<open>auto simp: dead_slot_def claiming_def nth_update_read serving_created
      slot_created slot_new split: if_split_asm\<close>)

lemma dead_slot_serve:
  assumes "dead_slot s i" and "serve_step k a s = Some t"
  shows "dead_slot t i"
  using assms(2)
  by (rule serve_step_cases)
    (use assms(1) in \<open>auto simp: dead_slot_def claiming_def nth_update_read serving_set_thread
      serving_length split: if_split_asm\<close>)

lemma dead_slot_any:
  assumes "dead_slot s i" and "ts_any s t"
  shows "dead_slot t i"
  using assms(2) unfolding ts_any_def
proof
  assume "ts_step s t"
  then show ?thesis using assms(1) by (elim ts_stepE) (auto intro: dead_slot_server dead_slot_serve)
next
  assume "external_signal s t"
  then show ?thesis using assms(1) by (simp add: external_signal_def dead_slot_def claiming_def)
qed

lemma dead_slot_forever: "ts_any\<^sup>*\<^sup>* s t \<Longrightarrow> dead_slot s i \<Longrightarrow> dead_slot t i"
  by (induction rule: rtranclp_induct) (auto intro: dead_slot_any)

section \<open>Schedules\<close>

text \<open>A move is a step of \<open>main\<close> or of a thread, with the answer it gets.\<close>

definition ts_move :: "nat option \<times> reply_to \<Rightarrow> thread_state \<Rightarrow> thread_state option" where
  "ts_move m = (case m of (None, a) \<Rightarrow> server_step a | (Some k, a) \<Rightarrow> serve_step k a)"

lemma ts_move_step: "ts_move m s = Some t \<Longrightarrow> ts_any s t"
  by (auto simp: ts_move_def ts_any_def split: prod.splits option.splits intro: ts_step.intros)

definition ts_start :: thread_state where
  "ts_start = \<lparr>socks = replicate THREAD_LIMIT \<lparr>slot_on = 0, slot_cfd = 0\<rparr>, s_pc = S_Scan, s_i = 0,
     threads = [], open_cfds = {0, 1, 2, 3}\<rparr>"

lemma ts_start_init: "ts_init ts_start"
  by (auto simp: ts_init_def thread_main_def ts_start_def intro!: exI [of _ 3])

lemma ts_schedule: "run_schedule ts_move ms ts_start = Some s \<Longrightarrow> reach ts_init ts_any s"
  by (rule run_schedule_reach [where f = ts_move and step = ts_any and s = ts_start])
    (auto intro: ts_move_step ts_start_init)

lemmas ts_run_simps = ts_move_def server_step_def serve_step_def set_sock_def set_thread_def
  accept_into_def accept_possible_def ts_start_def THREAD_LIMIT_def

text \<open>A client on \<open>fd\<close> connects, is given slot \<open>i\<close> and thread \<open>i\<close>, and leaves before \<open>main\<close> goes on.\<close>

definition hasty_client :: "nat \<Rightarrow> int \<Rightarrow> (nat option \<times> reply_to) list" where
  "hasty_client i fd = replicate (Suc i) (None, Go) @
     [(None, Acc (Ok fd)), (None, Created True), (Some i, Received None), (Some i, Go),
      (None, Go), (None, Detached True)]"

definition ts_dead :: thread_state where
  "ts_dead = \<lparr>socks = [\<lparr>slot_on = 1, slot_cfd = 4\<rparr>, \<lparr>slot_on = 1, slot_cfd = 4\<rparr>, \<lparr>slot_on = 1, slot_cfd = 4\<rparr>],
     s_pc = S_Suspend, s_i = 3, threads = [(0, R_Raise), (1, R_Raise), (2, R_Raise)], open_cfds = {0, 1, 2, 3}\<rparr>"

lemma ts_dead_reach: "reach ts_init ts_any ts_dead"
proof (rule ts_schedule)
  show "run_schedule ts_move (hasty_client 0 4 @ hasty_client 1 4 @ hasty_client 2 4 @ replicate 4 (None, Go))
      ts_start = Some ts_dead"
    by (simp add: ts_run_simps hasty_client_def ts_dead_def numeral_eq_Suc)
qed

lemma suspended_server: "s_pc s = S_Suspend \<Longrightarrow> server_step a s = None"
  by (cases a) (simp_all add: server_step_def)

lemma suspended_step:
  assumes "ts_step s t" and "s_pc s = S_Suspend"
  shows "s_pc t = S_Suspend \<and> length (threads t) = length (threads s) \<and> open_cfds t \<subseteq> open_cfds s"
  using assms(1)
proof cases
  case (ts_main a)
  with suspended_server [OF assms(2)] show ?thesis by simp
next
  case (ts_thread k a)
  then show ?thesis by (rule serve_step_cases) (use assms(2) in auto)
qed

lemma suspended_steps:
  "ts_step\<^sup>*\<^sup>* s t \<Longrightarrow> s_pc s = S_Suspend \<Longrightarrow>
    s_pc t = S_Suspend \<and> length (threads t) = length (threads s) \<and> open_cfds t \<subseteq> open_cfds s"
proof (induction rule: rtranclp_induct)
  case (step t u)
  then show ?case using suspended_step [of t u] by auto
qed simp

text \<open>With every slot lost, nobody serves, now or later.\<close>

lemma all_dead_idle:
  assumes "ts_inv s" and "\<forall>i < THREAD_LIMIT. dead_slot s i"
  shows "\<not> serving s k"
proof
  assume k: "serving s k"
  with ts_invD(1) [OF assms(1) k] assms(2) show False by (auto simp: dead_slot_def)
qed

lemma ts_dead_slots: "i < THREAD_LIMIT \<Longrightarrow> dead_slot ts_dead i"
  by (auto simp: dead_slot_def ts_dead_def serving_def claiming_def THREAD_LIMIT_def less_Suc_eq
      numeral_eq_Suc nth_Cons split: nat.splits)

section \<open>Properties\<close>

text \<open>C8: threads never share a slot. In every reachable state, signals from outside included, two
  threads that serve clients have different slots, so at most \<open>THREAD_LIMIT\<close> serve at a time, and
  \<open>main\<close> accepts only into a slot that no thread uses.\<close>

theorem ts_exclusive:
  assumes "reach ts_init ts_any s"
  shows "(\<forall>k l. serving s k \<and> serving s l \<and> slot_of s k = slot_of s l \<longrightarrow> k = l) \<and>
    (\<forall>k. serving s k \<longrightarrow> slot_of s k < THREAD_LIMIT \<and> \<not> (claiming s \<and> s_i s = slot_of s k)) \<and>
    card {k. serving s k} \<le> THREAD_LIMIT"
proof -
  from assms have inv: "ts_inv s" by (rule ts.inv_reach)
  then have "inj_on (slot_of s) {k. serving s k}" by (auto simp: inj_on_def ts_inv_def)
  moreover have "slot_of s ` {k. serving s k} \<subseteq> {..<THREAD_LIMIT}" using inv by (auto simp: ts_inv_def)
  ultimately have "card {k. serving s k} \<le> THREAD_LIMIT"
    using card_inj_on_le [of "slot_of s" "{k. serving s k}" "{..<THREAD_LIMIT}"] by simp
  with inv show ?thesis by (auto simp: ts_inv_def)
qed

theorem ts_exclusive_witness: "card {k. serving ts_dead k} \<le> 3"
  using ts_exclusive [OF ts_dead_reach] by (simp add: THREAD_LIMIT_def)

text \<open>a slot that is lost stays lost. \<open>main\<close> sets \<open>on\<close> after it has created the thread, so a thread that
  ends first has its \<open>on = 0\<close> overwritten. A slot that is \<open>on\<close> without a thread is never given
  out again, whatever the kernel, the threads and signals from outside do.\<close>

lemma ts_lost_slot:
  assumes "reach ts_init ts_any s" and "dead_slot s i" and "ts_any\<^sup>*\<^sup>* s t"
  shows "slot_on (socks t ! i) \<noteq> 0 \<and> (\<forall>k. serving t k \<longrightarrow> slot_of t k \<noteq> i)"
  using dead_slot_forever [OF assms(3,2)] by (simp add: dead_slot_def)

theorem ts_lost_slot_witness: "slot_on (socks (ts_dead\<lparr>s_i := 0, s_pc := S_Scan\<rparr>) ! 1) \<noteq> 0"
proof -
  have "ts_any ts_dead (ts_dead\<lparr>s_i := 0, s_pc := S_Scan\<rparr>)"
    by (simp add: ts_any_def external_signal_def ts_dead_def)
  then have "ts_any\<^sup>*\<^sup>* ts_dead (ts_dead\<lparr>s_i := 0, s_pc := S_Scan\<rparr>)" by blast
  from ts_lost_slot [OF ts_dead_reach ts_dead_slots this, of 1] show ?thesis
    by (simp add: THREAD_LIMIT_def)
qed

text \<open>C29: three hasty clients end the service. There is a run after which only the descriptors of the start
  are open, so no client is connected any more, all slots are lost (\<open>on\<close>, but without a thread),
  \<open>main\<close> sleeps in \<open>sigsuspend\<close>, and in every later state all slots are still lost and no thread
  serves, even if \<open>SIGUSR1\<close> is sent from outside.\<close>

theorem ts_dies:
  "\<exists>s. reach ts_init ts_any s \<and> s_pc s = S_Suspend \<and> length (threads s) = 3 \<and>
    open_cfds s = open_cfds ts_start \<and>
    (\<forall>t. ts_any\<^sup>*\<^sup>* s t \<longrightarrow> (\<forall>i < THREAD_LIMIT. dead_slot t i) \<and> (\<forall>k. \<not> serving t k))"
proof (intro exI [of _ ts_dead] conjI allI impI)
  fix t assume run: "ts_any\<^sup>*\<^sup>* ts_dead t"
  show dead: "dead_slot t i" if "i < THREAD_LIMIT" for i
    using dead_slot_forever [OF run] ts_dead_slots that by blast
  have "ts_inv t" using run ts.inv_reach [OF ts_dead_reach] by (rule ts.inv_steps)
  then show "\<not> serving t k" for k using dead by (intro all_dead_idle allI impI)
qed (simp_all add: ts_dead_reach, simp_all add: ts_dead_def ts_start_def)

theorem ts_dies_witness: "\<exists>s. reach ts_init ts_any s \<and> s_pc s = S_Suspend \<and> \<not> serving s 0"
  using ts_dies by blast

text \<open>a busy server never wakes up by itself. \<open>raise(SIGUSR1)\<close> signals the worker that calls it, not
  \<open>main\<close>: once \<open>main\<close> is in \<open>sigsuspend\<close>, no step of any thread gets it out, although threads end
  and free their slots, and no connection is accepted any more.\<close>

lemma ts_never_woken:
  assumes "s_pc s = S_Suspend" and "ts_step\<^sup>*\<^sup>* s t"
  shows "s_pc t = S_Suspend \<and> length (threads t) = length (threads s) \<and> open_cfds t \<subseteq> open_cfds s"
  using suspended_steps [OF assms(2,1)] .

theorem ts_never_woken_witness:
  "\<exists>t. ts_step\<^sup>*\<^sup>* (ts_dead\<lparr>threads := [(0, R_Clear), (1, R_Read), (2, R_Read)]\<rparr>) t \<and>
    slot_on (socks t ! 0) = 0 \<and> s_pc t = S_Suspend"
proof -
  let ?s = "ts_dead\<lparr>threads := [(0, R_Clear), (1, R_Read), (2, R_Read)]\<rparr>"
  let ?t = "set_thread 0 R_Raise (set_sock 0 (\<lambda>x. x\<lparr>slot_on := 0\<rparr>) ?s)"
  have "serve_step 0 Go ?s = Some ?t" by (simp add: serve_step_def ts_dead_def)
  then have "ts_step\<^sup>*\<^sup>* ?s ?t" by (blast intro: ts_thread)
  with ts_never_woken [of ?s ?t] show ?thesis
    by (intro exI [of _ ?t]) (auto simp: ts_dead_def)
qed

text \<open>a connection is dropped when \<open>accept\<close> fails once. The loop calls \<open>accept\<close> in its body and again in
  its condition, so the connection the body accepts is overwritten: it stays open, and the thread
  is created for the next one.\<close>

lemma ts_drops_connection:
  assumes "s_pc s = S_Accept" and "s_i s < length (socks s)" and "0 \<le> a" and "0 \<le> b" and "a \<noteq> b"
    and "a \<notin> open_cfds s" and "b \<notin> open_cfds s"
  shows "\<exists>t. run_schedule ts_move
      [(None, Acc (Err e)), (None, Acc (Ok a)), (None, Acc (Ok b)), (None, Created True)] s = Some t \<and>
    threads t = threads s @ [(s_i s, R_Read)] \<and> slot_cfd (socks t ! s_i s) = b \<and> a \<in> open_cfds t"
  using assms by (simp add: ts_move_def server_step_def accept_possible_def accept_into_def set_sock_def)

theorem ts_drops_connection_witness:
  "\<exists>t. run_schedule ts_move
      [(None, Acc (Err ECONNABORTED)), (None, Acc (Ok 4)), (None, Acc (Ok 5)), (None, Created True)]
      (ts_start\<lparr>s_pc := S_Accept\<rparr>) = Some t \<and> slot_cfd (socks t ! 0) = 5 \<and> 4 \<in> open_cfds t"
  using ts_drops_connection [of "ts_start\<lparr>s_pc := S_Accept\<rparr>" 4 5 ECONNABORTED]
  by (auto simp: ts_start_def THREAD_LIMIT_def)

end
