(* ===== verification/Thread_Inc.thy ===== *)
theory Thread_Inc imports Systems begin

text \<open>
  \<^verbatim>\<open>src/thread_inc.c\<close>: two threads increment \<open>glob\<close> \<open>loops\<close> times each, without a lock or, compiled with
  \<open>USE_LOCK\<close>, each holding the mutex for its whole loop. \<open>glob ++\<close> is a load and a store, and \<open>glob\<close> is an \<open>int\<close>
  (\<open>wrap32\<close>).
\<close>

section \<open>The threads\<close>

datatype inc_who = Thr1 | Thr2
datatype inc_pc = I_Start | I_Test | I_Load | I_Store | I_Unlock | I_Done

record inc_thread =
  inc_pc :: inc_pc
  inc_i :: int
  inc_reg :: int        \<comment> \<open>the value of \<open>glob\<close> that was loaded\<close>

record inc_state =
  glob :: int
  inc_mtx :: "inc_who option"
  thr :: "inc_who \<Rightarrow> inc_thread"

definition set_thr :: "inc_who \<Rightarrow> inc_thread \<Rightarrow> inc_state \<Rightarrow> inc_state" where
  "set_thr w x s = s\<lparr>thr := (thr s)(w := x)\<rparr>"

definition inc_step :: "bool \<Rightarrow> int \<Rightarrow> inc_who \<Rightarrow> inc_state \<Rightarrow> inc_state option" where
  "inc_step use_lock loops w s =
     (let x = thr s w in
      case inc_pc x of
        I_Start \<Rightarrow>
          (if \<not> use_lock then Some (set_thr w (x\<lparr>inc_pc := I_Test\<rparr>) s)
           else if inc_mtx s = None then Some ((set_thr w (x\<lparr>inc_pc := I_Test\<rparr>) s)\<lparr>inc_mtx := Some w\<rparr>)
           else None)
      | I_Test \<Rightarrow> Some (set_thr w (x\<lparr>inc_pc := if inc_i x < loops then I_Load else I_Unlock\<rparr>) s)
      | I_Load \<Rightarrow> Some (set_thr w (x\<lparr>inc_pc := I_Store, inc_reg := glob s\<rparr>) s)
      | I_Store \<Rightarrow> Some ((set_thr w (x\<lparr>inc_pc := I_Test, inc_i := inc_i x + 1\<rparr>) s)\<lparr>glob := wrap32 (inc_reg x + 1)\<rparr>)
      | I_Unlock \<Rightarrow>
          (let s' = set_thr w (x\<lparr>inc_pc := I_Done\<rparr>) s in
           Some (if use_lock then s'\<lparr>inc_mtx := None\<rparr> else s'))
      | I_Done \<Rightarrow> None)"

text \<open>\<open>main\<close> reads \<open>loops\<close> from its argument, \<open>arg\<close> being what \<open>atoi\<close> makes of it, and starts both threads.\<close>

definition inc_start :: inc_state where
  "inc_start = \<lparr>glob = 0, inc_mtx = None, thr = \<lambda>_. \<lparr>inc_pc = I_Start, inc_i = 0, inc_reg = 0\<rparr>\<rparr>"

definition inc_main :: "int option \<Rightarrow> (int \<times> inc_state) outcome" where
  "inc_main arg =
     (case arg of
        None \<Rightarrow> Return (1000, inc_start)
      | Some loops \<Rightarrow> if loops \<le> 0 then Exit EXIT_FAILURE else Return (loops, inc_start))"

text \<open>Both threads have been joined; \<open>main\<close> prints \<open>glob\<close>.\<close>

definition inc_joined :: "inc_state \<Rightarrow> bool" where
  "inc_joined s \<longleftrightarrow> inc_pc (thr s Thr1) = I_Done \<and> inc_pc (thr s Thr2) = I_Done"

definition inc_any :: "bool \<Rightarrow> int \<Rightarrow> inc_state \<Rightarrow> inc_state \<Rightarrow> bool" where
  "inc_any use_lock loops s t \<longleftrightarrow> (\<exists>w. inc_step use_lock loops w s = Some t)"

definition inc_init :: "int \<Rightarrow> inc_state \<Rightarrow> bool" where
  "inc_init loops s \<longleftrightarrow> (\<exists>arg. inc_main arg = Return (loops, s))"

lemma inc_init_iff: "inc_init loops s \<longleftrightarrow> 0 < loops \<and> s = inc_start"
proof
  assume "0 < loops \<and> s = inc_start"
  then have "inc_main (Some loops) = Return (loops, s)" by (simp add: inc_main_def)
  then show "inc_init loops s" by (auto simp: inc_init_def)
next
  assume "inc_init loops s"
  then obtain arg where arg: "inc_main arg = Return (loops, s)" unfolding inc_init_def by blast
  show "0 < loops \<and> s = inc_start"
  proof (cases arg)
    case None
    with arg show ?thesis by (simp add: inc_main_def)
  next
    case (Some n)
    with arg show ?thesis by (cases "n \<le> 0") (simp_all add: inc_main_def)
  qed
qed

lemma inc_step_cases:
  assumes "inc_step l loops w s = Some t"
  obtains (start) "inc_pc (thr s w) = I_Start" "\<not> l" "t = set_thr w ((thr s w)\<lparr>inc_pc := I_Test\<rparr>) s"
  | (lock) "inc_pc (thr s w) = I_Start" "l" "inc_mtx s = None"
      "t = (set_thr w ((thr s w)\<lparr>inc_pc := I_Test\<rparr>) s)\<lparr>inc_mtx := Some w\<rparr>"
  | (loop) "inc_pc (thr s w) = I_Test" "inc_i (thr s w) < loops" "t = set_thr w ((thr s w)\<lparr>inc_pc := I_Load\<rparr>) s"
  | (finish) "inc_pc (thr s w) = I_Test" "\<not> inc_i (thr s w) < loops" "t = set_thr w ((thr s w)\<lparr>inc_pc := I_Unlock\<rparr>) s"
  | (load) "inc_pc (thr s w) = I_Load" "t = set_thr w ((thr s w)\<lparr>inc_pc := I_Store, inc_reg := glob s\<rparr>) s"
  | (store) "inc_pc (thr s w) = I_Store"
      "t = (set_thr w ((thr s w)\<lparr>inc_pc := I_Test, inc_i := inc_i (thr s w) + 1\<rparr>) s)\<lparr>glob := wrap32 (inc_reg (thr s w) + 1)\<rparr>"
  | (unlock) "inc_pc (thr s w) = I_Unlock" "l" "t = (set_thr w ((thr s w)\<lparr>inc_pc := I_Done\<rparr>) s)\<lparr>inc_mtx := None\<rparr>"
  | (no_unlock) "inc_pc (thr s w) = I_Unlock" "\<not> l" "t = set_thr w ((thr s w)\<lparr>inc_pc := I_Done\<rparr>) s"
proof (cases "inc_pc (thr s w)")
  case I_Start
  with assms start lock show thesis by (simp add: inc_step_def Let_def split: if_split_asm)
next
  case I_Test
  show thesis
  proof (cases "inc_i (thr s w) < loops")
    case True
    with I_Test assms loop show thesis by (simp add: inc_step_def Let_def)
  next
    case False
    with I_Test assms finish show thesis by (simp add: inc_step_def Let_def)
  qed
next
  case I_Load
  with assms load show thesis by (simp add: inc_step_def Let_def)
next
  case I_Store
  with assms store show thesis by (simp add: inc_step_def Let_def)
next
  case I_Unlock
  with assms unlock no_unlock show thesis by (cases l) (simp_all add: inc_step_def Let_def)
qed (use assms in \<open>simp add: inc_step_def Let_def\<close>)

lemma set_thr_simps [simp]:
  "thr (set_thr w x s) = (thr s)(w := x)" "glob (set_thr w x s) = glob s" "inc_mtx (set_thr w x s) = inc_mtx s"
  by (simp_all add: set_thr_def)

section \<open>Without a lock\<close>

text \<open>The increments the threads have stored.\<close>

definition stored :: "inc_state \<Rightarrow> int" where
  "stored s = inc_i (thr s Thr1) + inc_i (thr s Thr2)"

text \<open>How far a thread is, and what it has read; the latter as long as \<open>2 * loops\<close> is an \<open>int\<close>.\<close>

definition thread_ok :: "int \<Rightarrow> inc_thread \<Rightarrow> bool" where
  "thread_ok loops x \<longleftrightarrow> 0 \<le> inc_i x \<and> inc_i x \<le> loops \<and>
     (inc_pc x \<in> {I_Load, I_Store} \<longrightarrow> inc_i x < loops) \<and>
     (inc_pc x \<in> {I_Unlock, I_Done} \<longrightarrow> inc_i x = loops)"

definition reg_ok :: "inc_state \<Rightarrow> inc_thread \<Rightarrow> bool" where
  "reg_ok s x \<longleftrightarrow> (inc_pc x = I_Store \<longrightarrow>
     0 \<le> inc_reg x \<and> inc_reg x \<le> stored s \<and> (1 \<le> inc_i x \<longrightarrow> 1 \<le> inc_reg x))"

definition values_ok :: "inc_state \<Rightarrow> bool" where
  "values_ok s \<longleftrightarrow> (\<forall>w. reg_ok s (thr s w)) \<and> 0 \<le> glob s \<and> glob s \<le> stored s \<and>
     (1 \<le> stored s \<longrightarrow> 1 \<le> glob s) \<and>
     (2 \<le> glob s \<or> inc_i (thr s Thr1) \<le> 1 \<or> inc_i (thr s Thr2) \<le> 1)"

definition threads_ok :: "int \<Rightarrow> inc_state \<Rightarrow> bool" where
  "threads_ok loops s \<longleftrightarrow> (\<forall>w. thread_ok loops (thr s w))"

definition inc_inv :: "int \<Rightarrow> inc_state \<Rightarrow> bool" where
  "inc_inv loops s \<longleftrightarrow> threads_ok loops s \<and> (2 * loops < 2 ^ 31 \<longrightarrow> values_ok s)"

lemma all_who: "(\<forall>w. P w) \<longleftrightarrow> P Thr1 \<and> P Thr2"
  by (metis inc_who.exhaust)

lemma stored_set: "stored (set_thr w x s) = stored s - inc_i (thr s w) + inc_i x"
  by (cases w) (simp_all add: stored_def)

lemma stored_glob [simp]: "stored (s\<lparr>glob := g\<rparr>) = stored s" "stored (s\<lparr>inc_mtx := m\<rparr>) = stored s"
  by (simp_all add: stored_def)

lemma stored_mono:
  assumes "inc_step l loops w s = Some t"
  shows "stored s \<le> stored t"
  using assms by (rule inc_step_cases) (simp_all add: stored_set)

lemma other_thread:
  assumes "inc_step l loops w s = Some t" and "v \<noteq> w"
  shows "thr t v = thr s v"
  using assms(1) by (rule inc_step_cases) (use assms(2) in simp_all)

lemma threads_ok_step:
  assumes "threads_ok loops s" and step: "inc_step l loops w s = Some t"
  shows "threads_ok loops t"
  unfolding threads_ok_def
proof
  fix v
  from assms(1) have ok: "thread_ok loops (thr s w)" and v: "thread_ok loops (thr s v)"
    by (simp_all add: threads_ok_def)
  from step have "thread_ok loops (thr t w)"
    by (rule inc_step_cases) (use ok in \<open>simp_all add: thread_ok_def\<close>)
  with v other_thread [OF step] show "thread_ok loops (thr t v)" by (cases "v = w") simp_all
qed

lemma stored_small:
  assumes "threads_ok loops s" and "inc_pc (thr s w) = I_Store"
  shows "stored s < 2 * loops"
proof -
  have "inc_i (thr s Thr1) \<le> loops" "inc_i (thr s Thr2) \<le> loops" "inc_i (thr s w) < loops"
    using assms by (auto simp: threads_ok_def thread_ok_def)
  then show ?thesis by (cases w) (simp_all add: stored_def)
qed

lemma store_exact:
  assumes "threads_ok loops s" and "2 * loops < 2 ^ 31" and "values_ok s" and "inc_pc (thr s w) = I_Store"
  shows "wrap32 (inc_reg (thr s w) + 1) = inc_reg (thr s w) + 1"
proof -
  have "0 \<le> inc_reg (thr s w)" "inc_reg (thr s w) \<le> stored s"
    using assms(3,4) by (auto simp: values_ok_def reg_ok_def)
  then show ?thesis using stored_small [OF assms(1,4)] assms(2) by (intro wrap32_id) simp_all
qed

lemma reg_ok_step:
  assumes "threads_ok loops s" and "values_ok s" and step: "inc_step l loops w s = Some t"
  shows "reg_ok t (thr t v)"
proof (cases "v = w")
  case True
  from assms(2) have g: "0 \<le> glob s" "glob s \<le> stored s" and one: "1 \<le> stored s \<longrightarrow> 1 \<le> glob s"
    by (auto simp: values_ok_def)
  have nonneg: "0 \<le> inc_i (thr s Thr1)" "0 \<le> inc_i (thr s Thr2)"
    using assms(1) by (auto simp: threads_ok_def thread_ok_def)
  then have le: "inc_i (thr s w) \<le> stored s" by (cases w) (simp_all add: stored_def)
  from step have "reg_ok t (thr t w)"
    by (rule inc_step_cases) (use g one le in \<open>simp_all add: reg_ok_def stored_set\<close>)
  with True show ?thesis by simp
next
  case False
  then show ?thesis
    using assms(2) other_thread [OF step False] stored_mono [OF step] by (auto simp: values_ok_def reg_ok_def)
qed

lemma values_ok_step:
  assumes threads: "threads_ok loops s" and small: "2 * loops < 2 ^ 31" and vals: "values_ok s"
    and step: "inc_step l loops w s = Some t"
  shows "values_ok t"
proof -
  from vals have reg: "reg_ok s (thr s w)" and g: "0 \<le> glob s" "glob s \<le> stored s"
    "1 \<le> stored s \<longrightarrow> 1 \<le> glob s"
    and two: "2 \<le> glob s \<or> inc_i (thr s Thr1) \<le> 1 \<or> inc_i (thr s Thr2) \<le> 1"
    by (simp_all add: values_ok_def)
  have ok: "thread_ok loops (thr s w)" using threads by (simp add: threads_ok_def)
  note exact = store_exact [OF threads small vals]
  have "0 \<le> glob t \<and> glob t \<le> stored t \<and> (1 \<le> stored t \<longrightarrow> 1 \<le> glob t)"
    using step
    by (rule inc_step_cases) (use reg g exact in \<open>simp_all add: reg_ok_def stored_set\<close>)
  moreover have "2 \<le> glob t \<or> inc_i (thr t Thr1) \<le> 1 \<or> inc_i (thr t Thr2) \<le> 1"
    using step
    by (rule inc_step_cases; cases w) (use reg two exact in \<open>auto simp: reg_ok_def\<close>)
  ultimately show ?thesis
    using reg_ok_step [OF threads vals step] by (simp add: values_ok_def)
qed

lemma inc_inv_step: "inc_inv loops s \<Longrightarrow> inc_step l loops w s = Some t \<Longrightarrow> inc_inv loops t"
  unfolding inc_inv_def using threads_ok_step values_ok_step by blast

lemma inc_inv_init: "inc_init loops s \<Longrightarrow> inc_inv loops s"
  by (simp add: inc_init_iff inc_start_def inc_inv_def threads_ok_def thread_ok_def values_ok_def reg_ok_def stored_def)

interpretation ti: invariant_system "inc_init loops" "inc_any l loops" "inc_inv loops" for l loops
  by unfold_locales (auto simp: inc_any_def intro: inc_inv_init inc_inv_step)

section \<open>With the lock\<close>

definition inc_critical :: "inc_state \<Rightarrow> inc_who \<Rightarrow> bool" where
  "inc_critical s w \<longleftrightarrow> inc_pc (thr s w) \<in> {I_Test, I_Load, I_Store, I_Unlock}"

definition locked_inv :: "int \<Rightarrow> inc_state \<Rightarrow> bool" where
  "locked_inv loops s \<longleftrightarrow> threads_ok loops s \<and> lock_ok (inc_mtx s) (inc_critical s) \<and> glob s = wrap32 (stored s) \<and>
     (\<forall>w. inc_pc (thr s w) = I_Store \<longrightarrow> inc_reg (thr s w) = glob s)"

lemma inc_critical_set: "inc_critical (set_thr w x s) v \<longleftrightarrow>
    (if v = w then inc_pc x \<in> {I_Test, I_Load, I_Store, I_Unlock} else inc_critical s v)"
  by (simp add: inc_critical_def)

lemma inc_critical_frame [simp]:
  "inc_critical (s\<lparr>glob := g\<rparr>) = inc_critical s" "inc_critical (s\<lparr>inc_mtx := m\<rparr>) = inc_critical s"
  by (simp_all add: inc_critical_def fun_eq_iff)

lemma locked_inv_step:
  assumes "locked_inv loops s" and step: "inc_step True loops w s = Some t"
  shows "locked_inv loops t"
proof -
  from assms(1) have inv: "threads_ok loops s" "lock_ok (inc_mtx s) (inc_critical s)" "glob s = wrap32 (stored s)"
    and reg: "\<And>w. inc_pc (thr s w) = I_Store \<Longrightarrow> inc_reg (thr s w) = glob s"
    by (simp_all add: locked_inv_def)
  have other: "inc_critical s w \<Longrightarrow> v \<noteq> w \<Longrightarrow> inc_pc (thr s v) \<noteq> I_Store" for v
    using inv(2) unfolding lock_ok_def by (metis inc_critical_def insertCI option.inject)
  have "lock_ok (inc_mtx t) (inc_critical t)"
    using step
    by (rule inc_step_cases)
      (rule lock_ok_step [OF inv(2), of w]; auto simp: inc_critical_set inc_critical_def)+
  moreover have "glob t = wrap32 (stored t)"
    using step by (rule inc_step_cases) (use inv(3) reg in \<open>auto simp: stored_set\<close>)
  moreover have "inc_pc (thr t v) = I_Store \<Longrightarrow> inc_reg (thr t v) = glob t" for v
    using step
    by (rule inc_step_cases) (use reg other in \<open>auto simp: inc_critical_def split: if_splits\<close>)
  ultimately show ?thesis
    using threads_ok_step [OF inv(1) step] by (simp add: locked_inv_def)
qed

lemma locked_inv_init: "inc_init loops s \<Longrightarrow> locked_inv loops s"
  using inc_inv_init [of loops s]
  by (auto simp: inc_init_iff inc_start_def inc_inv_def locked_inv_def lock_ok_def inc_critical_def stored_def wrap32_def)

lemma locked_any: "locked_inv loops s \<Longrightarrow> inc_any True loops s t \<Longrightarrow> locked_inv loops t"
  unfolding inc_any_def by (blast intro: locked_inv_step)

lemma locked_holder: "locked_inv loops s \<Longrightarrow> inc_critical s w \<Longrightarrow> inc_mtx s = Some w"
  unfolding locked_inv_def by (blast intro: lock_okD)

interpretation tl: locked_system "inc_init loops" "inc_any True loops" "locked_inv loops" inc_mtx inc_critical
  for loops
  by unfold_locales (rule locked_inv_init locked_any locked_holder; assumption)+

section \<open>The worst schedule\<close>

definition two_threads :: "int \<Rightarrow> inc_thread \<Rightarrow> inc_thread \<Rightarrow> inc_state" where
  "two_threads g a b = \<lparr>glob = g, inc_mtx = None, thr = (\<lambda>w. case w of Thr1 \<Rightarrow> a | Thr2 \<Rightarrow> b)\<rparr>"

lemma two_threads_simps [simp]:
  "glob (two_threads g a b) = g" "thr (two_threads g a b) Thr1 = a" "thr (two_threads g a b) Thr2 = b"
  "set_thr Thr1 c (two_threads g a b) = two_threads g c b" "set_thr Thr2 c (two_threads g a b) = two_threads g a c"
  "(two_threads g a b)\<lparr>glob := h\<rparr> = two_threads h a b"
  by (auto simp: two_threads_def set_thr_def fun_eq_iff split: inc_who.splits)

lemma inc_schedule:
  "run_schedule (inc_step l loops) ws s = Some t \<Longrightarrow> (inc_any l loops)\<^sup>*\<^sup>* s t"
  by (rule run_schedule_steps) (auto simp: inc_any_def)

text \<open>\<open>n\<close> rounds of a thread while the other stands still.\<close>

lemma alone1:
  "i + int n \<le> loops \<Longrightarrow> \<exists>g' r'. (inc_any False loops)\<^sup>*\<^sup>* (two_threads g \<lparr>inc_pc = I_Test, inc_i = i, inc_reg = r\<rparr> b)
    (two_threads g' \<lparr>inc_pc = I_Test, inc_i = i + int n, inc_reg = r'\<rparr> b)"
proof (induction n arbitrary: g i r)
  case (Suc n)
  let ?t = "two_threads (wrap32 (g + 1)) \<lparr>inc_pc = I_Test, inc_i = i + 1, inc_reg = g\<rparr> b"
  have "run_schedule (inc_step False loops) [Thr1, Thr1, Thr1]
      (two_threads g \<lparr>inc_pc = I_Test, inc_i = i, inc_reg = r\<rparr> b) = Some ?t"
    using Suc.prems by (simp add: inc_step_def)
  then have "(inc_any False loops)\<^sup>*\<^sup>* (two_threads g \<lparr>inc_pc = I_Test, inc_i = i, inc_reg = r\<rparr> b) ?t" by (rule inc_schedule)
  moreover obtain g' r' where "(inc_any False loops)\<^sup>*\<^sup>* ?t
      (two_threads g' \<lparr>inc_pc = I_Test, inc_i = i + 1 + int n, inc_reg = r'\<rparr> b)"
    using Suc.IH [of "i + 1" "wrap32 (g + 1)" g] Suc.prems by auto
  ultimately show ?case by (auto simp: algebra_simps intro: rtranclp_trans)
qed auto

lemma alone2:
  "i + int n \<le> loops \<Longrightarrow> \<exists>g' r'. (inc_any False loops)\<^sup>*\<^sup>* (two_threads g a \<lparr>inc_pc = I_Test, inc_i = i, inc_reg = r\<rparr>)
    (two_threads g' a \<lparr>inc_pc = I_Test, inc_i = i + int n, inc_reg = r'\<rparr>)"
proof (induction n arbitrary: g i r)
  case (Suc n)
  let ?t = "two_threads (wrap32 (g + 1)) a \<lparr>inc_pc = I_Test, inc_i = i + 1, inc_reg = g\<rparr>"
  have "run_schedule (inc_step False loops) [Thr2, Thr2, Thr2]
      (two_threads g a \<lparr>inc_pc = I_Test, inc_i = i, inc_reg = r\<rparr>) = Some ?t"
    using Suc.prems by (simp add: inc_step_def)
  then have "(inc_any False loops)\<^sup>*\<^sup>* (two_threads g a \<lparr>inc_pc = I_Test, inc_i = i, inc_reg = r\<rparr>) ?t" by (rule inc_schedule)
  moreover obtain g' r' where "(inc_any False loops)\<^sup>*\<^sup>* ?t
      (two_threads g' a \<lparr>inc_pc = I_Test, inc_i = i + 1 + int n, inc_reg = r'\<rparr>)"
    using Suc.IH [of "i + 1" "wrap32 (g + 1)" g] Suc.prems by auto
  ultimately show ?case by (auto simp: algebra_simps intro: rtranclp_trans)
qed auto

definition inc_fresh :: inc_thread where
  "inc_fresh = \<lparr>inc_pc = I_Start, inc_i = 0, inc_reg = 0\<rparr>"

lemma inc_start_two: "inc_start = two_threads 0 inc_fresh inc_fresh"
  by (auto simp: inc_start_def two_threads_def inc_fresh_def fun_eq_iff split: inc_who.splits)

lemma worst_run:
  assumes "2 \<le> loops"
  shows "\<exists>t. (inc_any False loops)\<^sup>*\<^sup>* inc_start t \<and> inc_joined t \<and> glob t = 2"
proof -
  define n where "n = nat (loops - 1)"
  then have n: "int n = loops - 1" using assms by simp
  let ?pending = "\<lparr>inc_pc = I_Store, inc_i = 0, inc_reg = 0\<rparr>"
  have a: "run_schedule (inc_step False loops) [Thr1, Thr1, Thr1, Thr2] inc_start =
      Some (two_threads 0 ?pending \<lparr>inc_pc = I_Test, inc_i = 0, inc_reg = 0\<rparr>)"
    using assms by (simp add: inc_start_two inc_fresh_def inc_step_def)
  obtain g r where b: "(inc_any False loops)\<^sup>*\<^sup>*
      (two_threads 0 ?pending \<lparr>inc_pc = I_Test, inc_i = 0, inc_reg = 0\<rparr>)
      (two_threads g ?pending \<lparr>inc_pc = I_Test, inc_i = loops - 1, inc_reg = r\<rparr>)"
    using alone2 [of 0 n loops 0 ?pending 0] n by auto
  have c: "run_schedule (inc_step False loops) [Thr1, Thr2, Thr2]
      (two_threads g ?pending \<lparr>inc_pc = I_Test, inc_i = loops - 1, inc_reg = r\<rparr>) =
    Some (two_threads 1 \<lparr>inc_pc = I_Test, inc_i = 1, inc_reg = 0\<rparr>
      \<lparr>inc_pc = I_Store, inc_i = loops - 1, inc_reg = 1\<rparr>)"
    by (simp add: inc_step_def wrap32_def)
  obtain g' r' where d: "(inc_any False loops)\<^sup>*\<^sup>*
      (two_threads 1 \<lparr>inc_pc = I_Test, inc_i = 1, inc_reg = 0\<rparr> \<lparr>inc_pc = I_Store, inc_i = loops - 1, inc_reg = 1\<rparr>)
      (two_threads g' \<lparr>inc_pc = I_Test, inc_i = loops, inc_reg = r'\<rparr>
        \<lparr>inc_pc = I_Store, inc_i = loops - 1, inc_reg = 1\<rparr>)"
    using alone1 [of 1 n loops 1 0 "\<lparr>inc_pc = I_Store, inc_i = loops - 1, inc_reg = 1\<rparr>"] n by auto
  let ?t = "two_threads 2 \<lparr>inc_pc = I_Done, inc_i = loops, inc_reg = r'\<rparr>
    \<lparr>inc_pc = I_Done, inc_i = loops, inc_reg = 1\<rparr>"
  have e: "run_schedule (inc_step False loops) [Thr1, Thr1, Thr2, Thr2, Thr2]
      (two_threads g' \<lparr>inc_pc = I_Test, inc_i = loops, inc_reg = r'\<rparr>
        \<lparr>inc_pc = I_Store, inc_i = loops - 1, inc_reg = 1\<rparr>) = Some ?t"
    by (simp add: inc_step_def wrap32_def)
  have "(inc_any False loops)\<^sup>*\<^sup>* inc_start ?t"
    using inc_schedule [OF a] b inc_schedule [OF c] d inc_schedule [OF e] by (meson rtranclp_trans)
  then show ?thesis by (intro exI [of _ ?t]) (simp add: inc_joined_def)
qed

section \<open>Properties\<close>

text \<open>C34: what \<open>main\<close> prints without the lock. As long as \<open>2 * loops\<close> is an \<open>int\<close>, for every schedule the
  final \<open>glob\<close> is at most \<open>2 * loops\<close> and, with \<open>loops \<ge> 2\<close>, at least \<open>2\<close>, however badly the
  increments collide.\<close>

theorem unlocked_bounds:
  assumes "reach (inc_init loops) (inc_any False loops) s" and "inc_joined s" and "2 * loops < 2 ^ 31"
  shows "glob s \<le> 2 * loops \<and> (if 2 \<le> loops then 2 else 1) \<le> glob s"
proof -
  have inv: "threads_ok loops s" "values_ok s"
    using ti.inv_reach [OF assms(1)] assms(3) by (simp_all add: inc_inv_def)
  with assms(2) have "inc_i (thr s Thr1) = loops" "inc_i (thr s Thr2) = loops"
    by (auto simp: threads_ok_def thread_ok_def inc_joined_def all_who)
  moreover have "0 < loops"
    using assms(1) by (induction rule: reach.induct) (simp_all add: inc_init_iff)
  ultimately show ?thesis using inv(2) by (auto simp: values_ok_def stored_def)
qed

theorem unlocked_bounds_witness:
  "\<exists>s. reach (inc_init 1000) (inc_any False 1000) s \<and> inc_joined s \<and> 2 \<le> glob s \<and> glob s \<le> 2000"
proof -
  obtain s where s: "(inc_any False 1000)\<^sup>*\<^sup>* inc_start s" "inc_joined s" using worst_run [of 1000] by auto
  then have "reach (inc_init 1000) (inc_any False 1000) s"
    by (intro reach_from_init [of _ inc_start]) (auto simp: inc_init_iff)
  with unlocked_bounds [OF this s(2)] s(2) show ?thesis by auto
qed

text \<open>C35: the lower bound is attained. However large \<open>loops\<close> is, there is a schedule after which \<open>main\<close>
  prints \<open>2\<close>.\<close>

theorem unlocked_worst:
  assumes "2 \<le> loops"
  shows "\<exists>s. reach (inc_init loops) (inc_any False loops) s \<and> inc_joined s \<and> glob s = 2"
proof -
  obtain s where s: "(inc_any False loops)\<^sup>*\<^sup>* inc_start s" "inc_joined s" "glob s = 2"
    using worst_run [OF assms] by blast
  with assms have "reach (inc_init loops) (inc_any False loops) s"
    by (intro reach_from_init [of _ inc_start]) (auto simp: inc_init_iff)
  with s show ?thesis by blast
qed

theorem unlocked_worst_witness:
  "\<exists>s. reach (inc_init 1000) (inc_any False 1000) s \<and> inc_joined s \<and> glob s = 2"
  using unlocked_worst [of 1000] by simp

text \<open>C33: with \<open>USE_LOCK\<close> no increment is lost: the threads exclude each other, and when both have been
  joined \<open>main\<close> prints \<open>2 * loops\<close>, as long as that is an \<open>int\<close>; a larger \<open>loops\<close>, which \<open>main\<close> accepts,
  overflows \<open>glob\<close>, whose value then differs from \<open>2 * loops\<close> (undefined in C; on the machine it wraps).\<close>

theorem locked_exact:
  assumes "reach (inc_init loops) (inc_any True loops) s"
  shows "\<not> (inc_critical s Thr1 \<and> inc_critical s Thr2) \<and>
    (inc_joined s \<longrightarrow> (glob s = 2 * loops \<longleftrightarrow> 2 * loops < 2 ^ 31))"
proof -
  have inv: "locked_inv loops s" using assms by (rule tl.inv_reach)
  have "inc_i (thr s Thr1) = loops \<and> inc_i (thr s Thr2) = loops" if "inc_joined s"
    using inv that by (auto simp: locked_inv_def threads_ok_def thread_ok_def inc_joined_def all_who)
  then have "inc_joined s \<Longrightarrow> glob s = wrap32 (2 * loops)" using inv by (auto simp: locked_inv_def stored_def)
  moreover have "wrap32 (2 * loops) < 2 ^ 31"
    using pos_mod_bound [of "2 ^ 32" "2 * loops + 2 ^ 31"] by (simp add: wrap32_def)
  moreover have "0 < loops"
    using assms by (induction rule: reach.induct) (simp_all add: inc_init_iff)
  ultimately have "inc_joined s \<Longrightarrow> glob s = 2 * loops \<longleftrightarrow> 2 * loops < 2 ^ 31"
    using wrap32_id [of "2 * loops"] by auto
  with tl.mutual_exclusion [OF assms, of Thr1 Thr2] show ?thesis by auto
qed

theorem locked_exact_witness:
  "\<exists>s. reach (inc_init 1) (inc_any True 1) s \<and> inc_joined s \<and> glob s = 2 * 1"
proof -
  obtain s where s: "run_schedule (inc_step True 1) (replicate 6 Thr1 @ replicate 6 Thr2) inc_start = Some s"
    and j: "inc_joined s"
    by (simp add: inc_step_def set_thr_def inc_start_def numeral_eq_Suc inc_joined_def wrap32_def)
  then have "reach (inc_init 1) (inc_any True 1) s"
    by (intro reach_from_init [of _ inc_start] inc_schedule) (auto simp: inc_init_iff)
  with locked_exact [OF this] j show ?thesis by auto
qed

end
