(* ===== verification/Multi_Join.thy ===== *)
theory Multi_Join imports Systems begin

text \<open>
  \<^verbatim>\<open>src/thread_multijoin.c\<close>: \<open>main\<close> creates one thread per argument and joins them as they end. One
  step is one action between two scheduling points; the sleep of a thread may end at any time.
\<close>

section \<open>The array\<close>

text \<open>
  Line 75 allocates \<open>argc - 1\<close> times the size of a pointer for elements of sixteen bytes, of which
  \<open>sleepTime\<close> is the last. The access to \<open>thread[idx]\<close> stays inside a block when the element does.
\<close>

definition sizeof_pointer :: nat where "sizeof_pointer = 8"
definition sizeof_thread_info :: nat where "sizeof_thread_info = 8 + 4 + 4"

definition calloc_bytes :: "nat \<Rightarrow> nat" where
  "calloc_bytes argc = (argc - 1) * sizeof_pointer"

definition thread_at :: "nat \<Rightarrow> nat \<Rightarrow> nat outcome" where
  "thread_at block idx =
     (if (idx + 1) * sizeof_thread_info \<le> block then Return (idx * sizeof_thread_info) else Fault)"

section \<open>The threads\<close>

datatype tstate = TS_ALIVE | TS_TERMINATED | TS_JOINED
datatype sleeper_pc = Z_Sleep | Z_Lock | Z_Update | Z_Unlock | Z_Signal | Z_Done
datatype joiner_pc = J_Create | J_Test | J_Lock | J_While | J_Wait | J_Woken | J_For | J_Join | J_Count | J_Unlock | J_Exit

datatype mj_who = Joiner | Sleeper nat

record mj_state =
  mj_args :: "int list"                  \<comment> \<open>what \<open>atoi\<close> makes of the arguments\<close>
  sleepTime :: "int list"
  states :: "tstate list"
  sleepers :: "sleeper_pc list"
  mj_pc :: joiner_pc
  mj_idx :: nat
  totThreads :: int
  numLive :: int
  numUnjoined :: int
  mj_mtx :: "mj_who option"
  mj_block :: nat                        \<comment> \<open>the bytes allocated for the array\<close>
  mj_fault :: bool                       \<comment> \<open>an element outside the block was accessed\<close>

text \<open>An access to \<open>thread[idx]\<close>. Outside the block C leaves what happens undefined, and the model ends.\<close>

definition access :: "nat \<Rightarrow> mj_state \<Rightarrow> mj_state \<Rightarrow> mj_state option" where
  "access idx s t = (if thread_at (mj_block s) idx = Fault then Some (s\<lparr>mj_fault := True\<rparr>) else Some t)"

definition sleeper_step :: "nat \<Rightarrow> mj_state \<Rightarrow> mj_state option" where
  "sleeper_step idx s =
     (if length (sleepers s) \<le> idx \<or> mj_pc s = J_Exit \<or> mj_fault s then None
      else (case sleepers s ! idx of
          Z_Sleep \<Rightarrow> access idx s (s\<lparr>sleepers := (sleepers s)[idx := Z_Lock]\<rparr>)
        | Z_Lock \<Rightarrow> (if mj_mtx s = None
            then Some (s\<lparr>sleepers := (sleepers s)[idx := Z_Update], mj_mtx := Some (Sleeper idx)\<rparr>) else None)
        | Z_Update \<Rightarrow> access idx s (s\<lparr>sleepers := (sleepers s)[idx := Z_Unlock], numUnjoined := numUnjoined s + 1,
                              states := (states s)[idx := TS_TERMINATED]\<rparr>)
        | Z_Unlock \<Rightarrow> Some (s\<lparr>sleepers := (sleepers s)[idx := Z_Signal], mj_mtx := None\<rparr>)
        | Z_Signal \<Rightarrow> (if mj_pc s = J_Wait
            then Some (s\<lparr>sleepers := (sleepers s)[idx := Z_Done], mj_pc := J_Woken\<rparr>)
            else Some (s\<lparr>sleepers := (sleepers s)[idx := Z_Done]\<rparr>))
        | Z_Done \<Rightarrow> None))"

text \<open>The sleep an argument asks for, and \<open>main\<close>; \<open>pthread_join\<close> blocks until the thread is done.\<close>

definition sleep_for :: "int \<Rightarrow> int" where
  "sleep_for a = (if a > 0 then a else 5)"

definition joiner_step :: "mj_state \<Rightarrow> mj_state option" where
  "joiner_step s =
     (if mj_fault s then None
      else case mj_pc s of
        J_Create \<Rightarrow>
          (if mj_idx s < length (mj_args s)
           then access (mj_idx s) s
                  (s\<lparr>sleepTime := sleepTime s @ [sleep_for (mj_args s ! mj_idx s)],
                     states := states s @ [TS_ALIVE], sleepers := sleepers s @ [Z_Sleep],
                     mj_idx := mj_idx s + 1\<rparr>)
           else Some (s\<lparr>totThreads := int (length (mj_args s)), numLive := int (length (mj_args s)),
                        mj_pc := J_Test\<rparr>))
      | J_Test \<Rightarrow> Some (s\<lparr>mj_pc := if numLive s > 0 then J_Lock else J_Exit\<rparr>)
      | J_Lock \<Rightarrow> (if mj_mtx s = None then Some (s\<lparr>mj_pc := J_While, mj_mtx := Some Joiner\<rparr>) else None)
      | J_While \<Rightarrow>
          (if numUnjoined s = 0 then Some (s\<lparr>mj_pc := J_Wait, mj_mtx := None\<rparr>)
           else Some (s\<lparr>mj_pc := J_For, mj_idx := 0\<rparr>))
      | J_Wait \<Rightarrow> None
      | J_Woken \<Rightarrow> (if mj_mtx s = None then Some (s\<lparr>mj_pc := J_While, mj_mtx := Some Joiner\<rparr>) else None)
      | J_For \<Rightarrow>
          (if int (mj_idx s) < totThreads s
           then access (mj_idx s) s
                  (s\<lparr>mj_pc := if states s ! mj_idx s = TS_TERMINATED then J_Join else J_Count\<rparr>)
           else Some (s\<lparr>mj_pc := J_Unlock\<rparr>))
      | J_Join \<Rightarrow> (if sleepers s ! mj_idx s = Z_Done then Some (s\<lparr>mj_pc := J_Count\<rparr>) else None)
      | J_Count \<Rightarrow> access (mj_idx s) s
                  (s\<lparr>states := (states s)[mj_idx s := TS_JOINED], numLive := numLive s - 1,
                     numUnjoined := numUnjoined s - 1, mj_idx := mj_idx s + 1, mj_pc := J_For\<rparr>)
      | J_Unlock \<Rightarrow> Some (s\<lparr>mj_pc := J_Test, mj_mtx := None\<rparr>)
      | J_Exit \<Rightarrow> None)"

definition mj_thread :: "mj_who \<Rightarrow> mj_state \<Rightarrow> mj_state option" where
  "mj_thread who = (case who of Joiner \<Rightarrow> joiner_step | Sleeper i \<Rightarrow> sleeper_step i)"

definition mj_start :: "int list \<Rightarrow> nat \<Rightarrow> mj_state" where
  "mj_start args block = \<lparr>mj_args = args, sleepTime = [], states = [], sleepers = [], mj_pc = J_Create,
     mj_idx = 0, totThreads = 0, numLive = 0, numUnjoined = 0, mj_mtx = None, mj_block = block, mj_fault = False\<rparr>"

text \<open>The program as it is written; \<open>argc\<close> is one more than the number of the arguments.\<close>

definition mj_main :: "int list \<Rightarrow> mj_state" where
  "mj_main args = mj_start args (calloc_bytes (length args + 1))"

definition mj_step :: "mj_state \<Rightarrow> mj_state \<Rightarrow> bool" where
  "mj_step s t \<longleftrightarrow> (\<exists>who. mj_thread who s = Some t) \<or>
     mj_pc s = J_Wait \<and> \<not> mj_fault s \<and> t = s\<lparr>mj_pc := J_Woken\<rparr>"

section \<open>The invariant\<close>

text \<open>The threads that have counted themselves as ended.\<close>

definition ended :: "sleeper_pc \<Rightarrow> int" where
  "ended z = (if z \<in> {Z_Unlock, Z_Signal, Z_Done} then 1 else 0)"

definition mj_critical :: "mj_state \<Rightarrow> mj_who \<Rightarrow> bool" where
  "mj_critical s who \<longleftrightarrow> (case who of
       Joiner \<Rightarrow> mj_pc s \<in> {J_While, J_For, J_Join, J_Count, J_Unlock}
     | Sleeper i \<Rightarrow> i < length (sleepers s) \<and> sleepers s ! i \<in> {Z_Update, Z_Unlock})"

definition total_ended :: "sleeper_pc list \<Rightarrow> int" where
  "total_ended zs = sum_list (map ended zs)"

text \<open>
  The counters \<open>main\<close> keeps: before its pass over the array, in the pass with \<open>i\<close> elements counted,
  after it.
\<close>

definition before_pass :: "mj_state \<Rightarrow> bool" where
  "before_pass s \<longleftrightarrow> numLive s = int (length (sleepers s)) \<and> numUnjoined s = total_ended (sleepers s)"

definition in_pass :: "int \<Rightarrow> mj_state \<Rightarrow> bool" where
  "in_pass i s \<longleftrightarrow> numLive s = int (length (sleepers s)) - i \<and> numUnjoined s = total_ended (sleepers s) - i \<and>
     1 \<le> total_ended (sleepers s)"

definition counters_ok :: "mj_state \<Rightarrow> bool" where
  "counters_ok s \<longleftrightarrow> (case mj_pc s of
       J_Create \<Rightarrow> numUnjoined s = total_ended (sleepers s)
     | J_Test \<Rightarrow> before_pass s \<or> in_pass (int (length (sleepers s))) s
     | J_For \<Rightarrow> mj_idx s \<le> length (sleepers s) \<and> in_pass (int (mj_idx s)) s
     | J_Join \<Rightarrow> mj_idx s < length (sleepers s) \<and> in_pass (int (mj_idx s)) s
     | J_Count \<Rightarrow> mj_idx s < length (sleepers s) \<and> in_pass (int (mj_idx s)) s
     | J_Unlock \<Rightarrow> in_pass (int (length (sleepers s))) s
     | J_Exit \<Rightarrow> sleepers s = [] \<or> in_pass (int (length (sleepers s))) s
     | _ \<Rightarrow> before_pass s)"

definition shape_ok :: "int list \<Rightarrow> mj_state \<Rightarrow> bool" where
  "shape_ok args s \<longleftrightarrow> mj_args s = args \<and> length (states s) = length (sleepers s) \<and>
     sleepTime s = map sleep_for (take (length (sleepers s)) args) \<and>
     (if mj_pc s = J_Create then mj_idx s = length (sleepers s) \<and> length (sleepers s) \<le> length args
      else length (sleepers s) = length args \<and> totThreads s = int (length args))"

definition mj_inv :: "int list \<Rightarrow> mj_state \<Rightarrow> bool" where
  "mj_inv args s \<longleftrightarrow> shape_ok args s \<and> counters_ok s \<and> lock_ok (mj_mtx s) (mj_critical s)"

text \<open>What the steps are, as cases.\<close>

lemma sleeper_step_cases:
  assumes "sleeper_step i s = Some t"
  obtains (fault) "i < length (sleepers s)" "\<not> mj_fault s" "thread_at (mj_block s) i = Fault" "t = s\<lparr>mj_fault := True\<rparr>"
  | (awake) "i < length (sleepers s)" "mj_pc s \<noteq> J_Exit" "sleepers s ! i = Z_Sleep"
      "t = s\<lparr>sleepers := (sleepers s)[i := Z_Lock]\<rparr>"
  | (lock) "i < length (sleepers s)" "mj_pc s \<noteq> J_Exit" "sleepers s ! i = Z_Lock" "mj_mtx s = None"
      "t = s\<lparr>sleepers := (sleepers s)[i := Z_Update], mj_mtx := Some (Sleeper i)\<rparr>"
  | (update) "i < length (sleepers s)" "mj_pc s \<noteq> J_Exit" "sleepers s ! i = Z_Update"
      "t = s\<lparr>sleepers := (sleepers s)[i := Z_Unlock], numUnjoined := numUnjoined s + 1,
             states := (states s)[i := TS_TERMINATED]\<rparr>"
  | (unlock) "i < length (sleepers s)" "mj_pc s \<noteq> J_Exit" "sleepers s ! i = Z_Unlock"
      "t = s\<lparr>sleepers := (sleepers s)[i := Z_Signal], mj_mtx := None\<rparr>"
  | (signal) "i < length (sleepers s)" "mj_pc s \<noteq> J_Exit" "sleepers s ! i = Z_Signal" "mj_pc s = J_Wait"
      "t = s\<lparr>sleepers := (sleepers s)[i := Z_Done], mj_pc := J_Woken\<rparr>"
  | (no_waiter) "i < length (sleepers s)" "mj_pc s \<noteq> J_Exit" "sleepers s ! i = Z_Signal" "mj_pc s \<noteq> J_Wait"
      "t = s\<lparr>sleepers := (sleepers s)[i := Z_Done]\<rparr>"
proof -
  have "\<not> (length (sleepers s) \<le> i \<or> mj_pc s = J_Exit \<or> mj_fault s)"
  proof
    assume "length (sleepers s) \<le> i \<or> mj_pc s = J_Exit \<or> mj_fault s"
    with assms show False by (simp add: sleeper_step_def)
  qed
  then have i: "i < length (sleepers s)" "mj_pc s \<noteq> J_Exit" "\<not> mj_fault s" by simp_all
  show thesis
  proof (cases "sleepers s ! i")
    case Z_Sleep
    with assms i awake fault show thesis
      by (cases "thread_at (mj_block s) i = Fault") (simp_all add: sleeper_step_def access_def)
  next
    case Z_Lock
    with assms i lock show thesis by (simp add: sleeper_step_def split: if_split_asm)
  next
    case Z_Update
    with assms i update fault show thesis
      by (cases "thread_at (mj_block s) i = Fault") (simp_all add: sleeper_step_def access_def)
  next
    case Z_Unlock
    with assms i unlock show thesis by (simp add: sleeper_step_def)
  next
    case Z_Signal
    show thesis
    proof (cases "mj_pc s = J_Wait")
      case True
      with Z_Signal assms i signal show thesis by (simp add: sleeper_step_def)
    next
      case False
      with Z_Signal assms i no_waiter show thesis by (simp add: sleeper_step_def)
    qed
  next
    case Z_Done
    with assms i show thesis by (simp add: sleeper_step_def)
  qed
qed

lemma joiner_step_cases:
  assumes "joiner_step s = Some t"
  obtains (fault) "\<not> mj_fault s" "thread_at (mj_block s) (mj_idx s) = Fault" "t = s\<lparr>mj_fault := True\<rparr>"
  | (create) "mj_pc s = J_Create" "mj_idx s < length (mj_args s)" "thread_at (mj_block s) (mj_idx s) \<noteq> Fault"
      "t = s\<lparr>sleepTime := sleepTime s @ [sleep_for (mj_args s ! mj_idx s)], states := states s @ [TS_ALIVE],
             sleepers := sleepers s @ [Z_Sleep], mj_idx := mj_idx s + 1\<rparr>"
  | (all_created) "mj_pc s = J_Create" "\<not> mj_idx s < length (mj_args s)"
      "t = s\<lparr>totThreads := int (length (mj_args s)), numLive := int (length (mj_args s)), mj_pc := J_Test\<rparr>"
  | (again) "mj_pc s = J_Test" "numLive s > 0" "t = s\<lparr>mj_pc := J_Lock\<rparr>"
  | (exits) "mj_pc s = J_Test" "\<not> numLive s > 0" "t = s\<lparr>mj_pc := J_Exit\<rparr>"
  | (lock) "mj_pc s = J_Lock \<or> mj_pc s = J_Woken" "mj_mtx s = None" "t = s\<lparr>mj_pc := J_While, mj_mtx := Some Joiner\<rparr>"
  | (sleep) "mj_pc s = J_While" "numUnjoined s = 0" "t = s\<lparr>mj_pc := J_Wait, mj_mtx := None\<rparr>"
  | (enter) "mj_pc s = J_While" "numUnjoined s \<noteq> 0" "t = s\<lparr>mj_pc := J_For, mj_idx := 0\<rparr>"
  | (visit) q where "mj_pc s = J_For" "int (mj_idx s) < totThreads s" "q = J_Join \<or> q = J_Count" "t = s\<lparr>mj_pc := q\<rparr>"
  | (leave) "mj_pc s = J_For" "\<not> int (mj_idx s) < totThreads s" "t = s\<lparr>mj_pc := J_Unlock\<rparr>"
  | (join) "mj_pc s = J_Join" "sleepers s ! mj_idx s = Z_Done" "t = s\<lparr>mj_pc := J_Count\<rparr>"
  | (count) "mj_pc s = J_Count" "t = s\<lparr>states := (states s)[mj_idx s := TS_JOINED], numLive := numLive s - 1,
             numUnjoined := numUnjoined s - 1, mj_idx := mj_idx s + 1, mj_pc := J_For\<rparr>"
  | (unlock) "mj_pc s = J_Unlock" "t = s\<lparr>mj_pc := J_Test, mj_mtx := None\<rparr>"
proof -
  have ok: "\<not> mj_fault s" using assms by (cases "mj_fault s") (simp_all add: joiner_step_def)
  note step = assms [unfolded joiner_step_def, simplified ok, simplified]
  have acc: "u = (if thread_at (mj_block s) i = Fault then s\<lparr>mj_fault := True\<rparr> else v)"
    if "access i s v = Some u" for i u v
    using that by (simp add: access_def split: if_split_asm)
  show thesis
  proof (cases "mj_pc s")
    case J_Create
    show thesis
    proof (cases "mj_idx s < length (mj_args s)")
      case True
      note t = acc [OF step [unfolded J_Create, simplified True joiner_pc.case if_True]]
      with J_Create ok True show thesis
        by (cases "thread_at (mj_block s) (mj_idx s) = Fault") (rule fault create; simp)+
    next
      case False
      with J_Create step all_created show thesis by simp
    qed
  next
    case J_Test
    with step again exits show thesis by (cases "numLive s > 0") simp_all
  next
    case J_Lock
    with step lock show thesis by (simp split: if_split_asm)
  next
    case J_While
    with step sleep enter show thesis by (simp split: if_split_asm)
  next
    case J_Woken
    with step lock show thesis by (simp split: if_split_asm)
  next
    case J_For
    show thesis
    proof (cases "int (mj_idx s) < totThreads s")
      case True
      note t = acc [OF step [unfolded J_For, simplified True joiner_pc.case if_True]]
      with J_For ok True show thesis
        by (cases "thread_at (mj_block s) (mj_idx s) = Fault") (rule fault visit; simp)+
    next
      case False
      with J_For step leave show thesis by simp
    qed
  next
    case J_Join
    with step join show thesis by (simp split: if_split_asm)
  next
    case J_Count
    note t = acc [OF step [unfolded J_Count, simplified joiner_pc.case]]
    with J_Count ok show thesis
      by (cases "thread_at (mj_block s) (mj_idx s) = Fault") (rule fault count; simp)+
  next
    case J_Unlock
    with step unlock show thesis by simp
  qed (use step in simp_all)
qed

section \<open>Every step keeps the invariant\<close>

lemma ended_simps [simp]:
  "ended Z_Sleep = 0" "ended Z_Lock = 0" "ended Z_Update = 0" "ended Z_Unlock = 1" "ended Z_Signal = 1" "ended Z_Done = 1"
  by (simp_all add: ended_def)

lemma total_ended_nonneg: "0 \<le> total_ended zs"
  by (induction zs) (auto simp: total_ended_def ended_def)

lemma total_ended_update:
  "i < length zs \<Longrightarrow> total_ended (zs[i := z]) = total_ended zs - ended (zs ! i) + ended z"
  by (simp add: total_ended_def sum_list_map_update)

lemma mj_critical_sleeper [simp]: "mj_critical s (Sleeper i) \<longleftrightarrow>
    i < length (sleepers s) \<and> sleepers s ! i \<in> {Z_Update, Z_Unlock}"
  and mj_critical_joiner [simp]: "mj_critical s Joiner \<longleftrightarrow> mj_pc s \<in> {J_While, J_For, J_Join, J_Count, J_Unlock}"
  by (simp_all add: mj_critical_def)

lemma mj_critical_other:
  "v \<noteq> Sleeper i \<Longrightarrow> mj_pc t = mj_pc s \<Longrightarrow> sleepers t = (sleepers s)[i := z] \<Longrightarrow> mj_critical t v = mj_critical s v"
  by (cases v) (auto simp: nth_list_update)

lemma mj_critical_main: "v \<noteq> Joiner \<Longrightarrow> sleepers t = sleepers s \<Longrightarrow> mj_critical t v = mj_critical s v"
  by (cases v) simp_all

lemma counters_ok_fault: "counters_ok (s\<lparr>mj_fault := b\<rparr>) = counters_ok s"
  by (cases "mj_pc s") (simp_all add: counters_ok_def before_pass_def in_pass_def)

lemma sleeper_step_inv:
  assumes "mj_inv args s" and step: "sleeper_step i s = Some t"
  shows "mj_inv args t"
proof -
  from assms(1) have inv: "shape_ok args s" "counters_ok s" "lock_ok (mj_mtx s) (mj_critical s)"
    by (simp_all add: mj_inv_def)
  from step have "shape_ok args t"
    by (rule sleeper_step_cases) (use inv(1) in \<open>simp_all add: shape_ok_def\<close>)
  moreover from step have "counters_ok t"
    by (rule sleeper_step_cases)
      (use inv(2) in \<open>auto simp: counters_ok_def before_pass_def in_pass_def total_ended_update
        split: joiner_pc.splits\<close>)
  moreover have "lock_ok (mj_mtx t) (mj_critical t)"
  proof (rule lock_ok_step [OF inv(3), of "Sleeper i"])
    show "mj_critical t v = mj_critical s v" if "v \<noteq> Sleeper i" for v
      using step
      by (rule sleeper_step_cases) (use that in \<open>cases v; auto simp: nth_list_update\<close>)+
    show "mj_critical t (Sleeper i) = mj_critical s (Sleeper i) \<and> mj_mtx t = mj_mtx s \<or>
        mj_mtx s = None \<and> mj_mtx t = Some (Sleeper i) \<and> mj_critical t (Sleeper i) \<or>
        mj_critical s (Sleeper i) \<and> mj_mtx t = None \<and> \<not> mj_critical t (Sleeper i)"
      using step by (rule sleeper_step_cases) auto
  qed
  ultimately show ?thesis by (simp add: mj_inv_def)
qed

lemma joiner_step_inv:
  assumes "mj_inv args s" and step: "joiner_step s = Some t"
  shows "mj_inv args t"
proof -
  from assms(1) have inv: "shape_ok args s" "counters_ok s" "lock_ok (mj_mtx s) (mj_critical s)"
    by (simp_all add: mj_inv_def)
  have nonneg: "0 \<le> total_ended (sleepers s)"
    by (rule total_ended_nonneg)
  from step have "shape_ok args t"
    by (rule joiner_step_cases) (use inv(1) in \<open>auto simp: shape_ok_def take_Suc_conv_app_nth\<close>)
  moreover from step have "counters_ok t"
  proof (rule joiner_step_cases)
    assume "t = s\<lparr>mj_fault := True\<rparr>"
    with inv(2) show ?thesis by (simp add: counters_ok_fault)
  next
    assume "mj_pc s = J_Create" "t = s\<lparr>sleepTime := sleepTime s @ [sleep_for (mj_args s ! mj_idx s)],
      states := states s @ [TS_ALIVE], sleepers := sleepers s @ [Z_Sleep], mj_idx := mj_idx s + 1\<rparr>"
    with inv(2) show ?thesis by (simp add: counters_ok_def total_ended_def)
  qed (use inv(1,2) nonneg in \<open>auto simp: counters_ok_def before_pass_def in_pass_def shape_ok_def\<close>)
  moreover have "lock_ok (mj_mtx t) (mj_critical t)"
  proof (rule lock_ok_step [OF inv(3), of Joiner])
    show "mj_critical t v = mj_critical s v" if v: "v \<noteq> Joiner" for v
    proof (cases v)
      case (Sleeper i)
      from step show ?thesis
        by (rule joiner_step_cases) (auto simp: Sleeper nth_append)
    qed (use v in simp)
    show "mj_critical t Joiner = mj_critical s Joiner \<and> mj_mtx t = mj_mtx s \<or>
        mj_mtx s = None \<and> mj_mtx t = Some Joiner \<and> mj_critical t Joiner \<or>
        mj_critical s Joiner \<and> mj_mtx t = None \<and> \<not> mj_critical t Joiner"
      using step by (rule joiner_step_cases) auto
  qed
  ultimately show ?thesis by (simp add: mj_inv_def)
qed

lemma mj_start_inv: "mj_inv args (mj_start args block)"
  by (auto simp: mj_inv_def shape_ok_def counters_ok_def lock_ok_def mj_start_def total_ended_def
      mj_critical_def split: mj_who.splits)

lemma mj_step_inv:
  assumes "mj_inv args s" and "mj_step s t"
  shows "mj_inv args t"
  using assms(2) unfolding mj_step_def
proof (elim disjE exE conjE)
  fix who assume "mj_thread who s = Some t"
  then show ?thesis
    using assms(1) by (cases who) (auto simp: mj_thread_def intro: joiner_step_inv sleeper_step_inv)
next
  assume w: "mj_pc s = J_Wait" "\<not> mj_fault s" "t = s\<lparr>mj_pc := J_Woken\<rparr>"
  have "mj_critical t v = mj_critical s v" for v using w by (cases v) simp_all
  then have "mj_critical t = mj_critical s" by (rule ext)
  with assms(1) w show ?thesis
    by (simp add: mj_inv_def shape_ok_def counters_ok_def before_pass_def)
qed

lemma mj_inv_holder: "mj_inv args s \<Longrightarrow> mj_critical s who \<Longrightarrow> mj_mtx s = Some who"
  unfolding mj_inv_def by (blast intro: lock_okD)

interpretation mj: locked_system "\<lambda>s. s = mj_start args block" mj_step "mj_inv args" mj_mtx mj_critical
  for args block
  by unfold_locales (simp_all add: mj_start_inv mj_step_inv mj_inv_holder)

lemma mj_schedule:
  "run_schedule mj_thread ws (mj_start args block) = Some s \<Longrightarrow> reach (\<lambda>s. s = mj_start args block) mj_step s"
  by (rule run_schedule_reach [where f = mj_thread and s = "mj_start args block"]) (auto simp: mj_step_def)

section \<open>The program as it is written\<close>

text \<open>\<open>main\<close> never gets past the creation of the threads, and half of them is all it creates.\<close>

definition creating :: "int list \<Rightarrow> mj_state \<Rightarrow> bool" where
  "creating args s \<longleftrightarrow> args \<noteq> [] \<and> mj_args s = args \<and> mj_block s = calloc_bytes (length args + 1) \<and>
     mj_pc s = J_Create \<and> mj_idx s = length (sleepers s) \<and> length (sleepers s) \<le> length args div 2 \<and>
     (mj_fault s \<longrightarrow> length (sleepers s) = length args div 2)"

fun sleeper_left :: "sleeper_pc \<Rightarrow> int" where
  "sleeper_left Z_Sleep = 5" | "sleeper_left Z_Lock = 4" | "sleeper_left Z_Update = 3"
| "sleeper_left Z_Unlock = 2" | "sleeper_left Z_Signal = 1" | "sleeper_left Z_Done = 0"

definition create_left :: "int list \<Rightarrow> mj_state \<Rightarrow> int" where
  "create_left args s = (if mj_fault s then 0
     else 1 + 6 * int (length args div 2 - mj_idx s) + sum_list (map sleeper_left (sleepers s)))"

lemma thread_at_half:
  "thread_at (calloc_bytes (Suc n)) idx = Fault \<longleftrightarrow> n div 2 \<le> idx"
  by (auto simp: thread_at_def calloc_bytes_def sizeof_pointer_def sizeof_thread_info_def)

lemma sleepers_left_nonneg: "0 \<le> sum_list (map sleeper_left zs)"
proof (rule sum_list_nonneg)
  show "0 \<le> x" if "x \<in> set (map sleeper_left zs)" for x
  proof -
    from that obtain z where "x = sleeper_left z" by auto
    then show ?thesis by (cases z) simp_all
  qed
qed

lemma creating_sleeper:
  assumes inv: "creating args s" and step: "sleeper_step i s = Some t"
  shows "creating args t \<and> create_left args t < create_left args s"
proof -
  from step have i: "i < length (sleepers s)" "\<not> mj_fault s"
    by (rule sleeper_step_cases; simp add: sleeper_step_def split: if_split_asm)+
  then have ok: "thread_at (mj_block s) i \<noteq> Fault" using inv by (simp add: creating_def thread_at_half)
  have dec: "sum_list (map sleeper_left ((sleepers s)[i := z])) < sum_list (map sleeper_left (sleepers s))"
    if "sleeper_left z < sleeper_left (sleepers s ! i)" for z
    using that i by (simp add: sum_list_map_update)
  from step show ?thesis
    by (rule sleeper_step_cases)
      (use inv i(2) ok in \<open>simp_all add: creating_def create_left_def dec\<close>)
qed

lemma creating_joiner:
  assumes inv: "creating args s" and "\<not> mj_fault s"
  shows "\<exists>t. joiner_step s = Some t \<and> creating args t \<and> create_left args t < create_left args s"
proof -
  have "0 < length args" using inv by (simp add: creating_def)
  then have "length args div 2 < length args" by simp
  with inv have more: "mj_idx s < length (mj_args s)" "mj_pc s = J_Create"
    unfolding creating_def by (metis order_le_less_trans, blast)
  show ?thesis
  proof (cases "length args div 2 \<le> mj_idx s")
    case True
    then have "thread_at (mj_block s) (mj_idx s) = Fault" using inv by (simp add: creating_def thread_at_half)
    then have "joiner_step s = Some (s\<lparr>mj_fault := True\<rparr>)"
      using more assms(2) by (simp add: joiner_step_def access_def)
    then show ?thesis
      using inv True assms(2) sleepers_left_nonneg [of "sleepers s"]
      by (simp add: creating_def create_left_def)
  next
    case False
    then have "thread_at (mj_block s) (mj_idx s) \<noteq> Fault" using inv by (simp add: creating_def thread_at_half)
    then show ?thesis
      using inv False assms(2) more
      by (simp add: joiner_step_def access_def) (auto simp: creating_def create_left_def)
  qed
qed

lemma creating_step:
  assumes "creating args s" and "mj_step s t"
  shows "creating args t \<and> create_left args t < create_left args s"
  using assms(2) unfolding mj_step_def
proof (elim disjE exE conjE)
  fix who assume who: "mj_thread who s = Some t"
  show ?thesis
  proof (cases who)
    case Joiner
    with who have j: "joiner_step s = Some t" by (simp add: mj_thread_def)
    then have "\<not> mj_fault s" by (auto simp: joiner_step_def)
    from creating_joiner [OF assms(1) this] j show ?thesis by simp
  next
    case (Sleeper i)
    with who creating_sleeper [OF assms(1)] show ?thesis by (simp add: mj_thread_def)
  qed
qed (use assms(1) in \<open>simp add: creating_def\<close>)

lemma mj_main_creating: "args \<noteq> [] \<Longrightarrow> creating args (mj_main args)"
  by (simp add: creating_def mj_main_def mj_start_def)

interpretation mc: bounded_system "\<lambda>s. s = mj_main args \<and> args \<noteq> []" mj_step "creating args" "create_left args"
  for args
proof unfold_locales
  show "0 \<le> create_left args s" for s
    using sleepers_left_nonneg [of "sleepers s"] by (simp add: create_left_def)
qed (simp_all add: mj_main_creating creating_step)

lemmas mj_run_simps = mj_thread_def sleep_for_def joiner_step_def sleeper_step_def mj_start_def access_def thread_at_def sizeof_thread_info_def Let_def

text \<open>With an array that is large enough: three threads, of which only the last ends before \<open>main\<close> exits.\<close>

definition mj_exit :: mj_state where
  "mj_exit = \<lparr>mj_args = [30, 20, 1], sleepTime = [30, 20, 1], states = [TS_JOINED, TS_JOINED, TS_JOINED],
     sleepers = [Z_Sleep, Z_Sleep, Z_Done], mj_pc = J_Exit, mj_idx = 3, totThreads = 3, numLive = 0,
     numUnjoined = - 2, mj_mtx = None, mj_block = 48, mj_fault = False\<rparr>"

lemma mj_exit_reach: "reach (\<lambda>s. s = mj_start [30, 20, 1] 48) mj_step mj_exit"
proof (rule mj_schedule)
  show "run_schedule mj_thread
      (replicate 4 Joiner @ replicate 5 (Sleeper 2) @ replicate 13 Joiner) (mj_start [30, 20, 1] 48) = Some mj_exit"
    by (simp add: mj_run_simps mj_exit_def numeral_eq_Suc)
qed

section \<open>Properties\<close>

text \<open>C36: the array is half as large as it must be, so the program never gets to join its threads. With at
  least one argument, in every run, however the threads interleave, \<open>main\<close> is still creating threads
  and has created at most the first half of them; the run has at most six steps for each of these
  and one more; and it can only end in the access to an element outside the block that line 75
  allocates, by \<open>main\<close>, when exactly the first half of the threads has been created.\<close>

theorem mj_overruns:
  assumes "args \<noteq> []" and "(mj_step ^^ k) (mj_main args) s"
  shows "mj_pc s = J_Create \<and> length (sleepers s) \<le> length args div 2 \<and> k \<le> 6 * (length args div 2) + 1 \<and>
    (stuck mj_step s \<longleftrightarrow> mj_fault s) \<and>
    (mj_fault s \<longrightarrow> length (sleepers s) = length args div 2 \<and> thread_at (mj_block s) (mj_idx s) = Fault)"
proof -
  note start = mj_main_creating [OF assms(1)]
  have inv: "creating args s" using start assms(2) by (rule mc.inv_run)
  have "int k \<le> create_left args (mj_main args)" using start assms(2) by (rule mc.run_bound)
  then have "k \<le> 6 * (length args div 2) + 1" by (simp add: create_left_def mj_main_def mj_start_def)
  moreover have "mj_fault s" if "stuck mj_step s"
  proof (rule ccontr)
    assume "\<not> mj_fault s"
    with creating_joiner [OF inv] obtain t where "joiner_step s = Some t" by blast
    then have "mj_step s t" unfolding mj_step_def by (intro disjI1 exI [of _ Joiner]) (simp add: mj_thread_def)
    with that show False by (simp add: stuck_def)
  qed
  moreover have "stuck mj_step s" if "mj_fault s"
  proof -
    have "mj_thread who s = None" for who
      using that by (cases who) (simp_all add: mj_thread_def joiner_step_def sleeper_step_def)
    with that show ?thesis by (simp add: stuck_def mj_step_def)
  qed
  ultimately show ?thesis using inv by (auto simp: creating_def thread_at_half)
qed

theorem mj_overruns_witness:
  "\<exists>s k. (mj_step ^^ k) (mj_main [30, 20, 1]) s \<and> mj_fault s \<and> length (sleepers s) = 1"
proof -
  let ?s = "(mj_main [30, 20, 1])\<lparr>sleepTime := [30], states := [TS_ALIVE], sleepers := [Z_Sleep], mj_idx := 1,
    mj_fault := True\<rparr>"
  have "run_schedule mj_thread [Joiner, Joiner] (mj_main [30, 20, 1]) = Some ?s"
    by (simp add: mj_run_simps mj_main_def calloc_bytes_def sizeof_pointer_def)
  then have "mj_step\<^sup>*\<^sup>* (mj_main [30, 20, 1]) ?s"
    by (rule run_schedule_steps [rotated]) (auto simp: mj_step_def)
  then obtain k where k: "(mj_step ^^ k) (mj_main [30, 20, 1]) ?s" by (auto dest: rtranclp_imp_relpowp)
  with mj_overruns [OF _ k] show ?thesis by (intro exI [of _ ?s] exI [of _ k]) simp
qed

text \<open>Were the array large enough, \<open>main\<close> would make exactly one pass over the threads: whenever it exits,
  \<open>numLive\<close> is \<open>0\<close> because every thread was counted, ended or not; \<open>numUnjoined\<close> is the number of
  threads that have ended less the number of all threads.\<close>

lemma mj_one_pass:
  assumes "reach (\<lambda>s. s = mj_start args block) mj_step s" and "mj_pc s = J_Exit" and "args \<noteq> []"
  shows "numLive s = 0 \<and> numUnjoined s = total_ended (sleepers s) - int (length args) \<and>
    1 \<le> total_ended (sleepers s)"
proof -
  have "counters_ok s" "shape_ok args s" using mj.inv_reach [OF assms(1)] by (simp_all add: mj_inv_def)
  with assms(2,3) show ?thesis by (auto simp: counters_ok_def shape_ok_def in_pass_def)
qed

text \<open>And it could exit, and end the process, while threads are still asleep: with the arguments \<open>30\<close>, \<open>20\<close>
  and \<open>1\<close> after the third thread alone has ended, having marked all three as joined.\<close>

lemma mj_premature_exit:
  "\<exists>s. reach (\<lambda>s. s = mj_start [30, 20, 1] 48) mj_step s \<and> mj_pc s = J_Exit \<and>
    sleepers s = [Z_Sleep, Z_Sleep, Z_Done] \<and> states s = [TS_JOINED, TS_JOINED, TS_JOINED]"
  using mj_exit_reach by (intro exI [of _ mj_exit]) (simp add: mj_exit_def)

end
