(* ===== verification/Join_Term.thy ===== *)
theory Join_Term imports Systems begin

text \<open>
  \<^verbatim>\<open>src/thread_joinTerm.c\<close>: \<open>THREADNUM\<close> threads that end on their own, and a joiner that joins each one
  after it has ended. One step is one action between two scheduling points.
\<close>

section \<open>The threads\<close>

definition THREADNUM :: nat where "THREADNUM = 5"

datatype tstatus = T_ALIVE | T_TERMINATED | T_JOIN
datatype sim_pc = U_None | U_Start | U_Sleep | U_Lock | U_Update | U_Unlock | U_Signal | U_Done
datatype join_pc = K_Test | K_Lock | K_While | K_Wait | K_Woken | K_For | K_Join | K_Count | K_Unlock | K_Done

datatype jt_who = K_Main | K_Joiner | K_Sim nat

record jt_state =
  jt_status :: "tstatus list"        \<comment> \<open>\<open>calloc\<close> leaves every element \<open>TS_ALIVE\<close>\<close>
  struct_id :: "int list"
  sims :: "sim_pc list"
  jt_created :: nat                  \<comment> \<open>\<open>idx\<close> of \<open>main\<close>\<close>
  jt_exit :: bool
  jk_pc :: join_pc
  jk_idx :: nat
  termNum :: int
  joinedNum :: int
  jt_mtx :: "jt_who option"

definition sim_step :: "nat \<Rightarrow> jt_state \<Rightarrow> jt_state option" where
  "sim_step idx s =
     (if length (sims s) \<le> idx \<or> jt_exit s then None
      else (case sims s ! idx of
          U_None \<Rightarrow> None
        | U_Start \<Rightarrow> Some (s\<lparr>sims := (sims s)[idx := U_Sleep], jt_status := (jt_status s)[idx := T_ALIVE],
                             struct_id := (struct_id s)[idx := int idx]\<rparr>)
        | U_Sleep \<Rightarrow> Some (s\<lparr>sims := (sims s)[idx := U_Lock]\<rparr>)
        | U_Lock \<Rightarrow> (if jt_mtx s = None
            then Some (s\<lparr>sims := (sims s)[idx := U_Update], jt_mtx := Some (K_Sim idx)\<rparr>) else None)
        | U_Update \<Rightarrow> Some (s\<lparr>sims := (sims s)[idx := U_Unlock],
                              jt_status := (jt_status s)[idx := T_TERMINATED], termNum := termNum s + 1\<rparr>)
        | U_Unlock \<Rightarrow> Some (s\<lparr>sims := (sims s)[idx := U_Signal], jt_mtx := None\<rparr>)
        | U_Signal \<Rightarrow> (if jk_pc s = K_Wait
            then Some (s\<lparr>sims := (sims s)[idx := U_Done], jk_pc := K_Woken\<rparr>)
            else Some (s\<lparr>sims := (sims s)[idx := U_Done]\<rparr>))
        | U_Done \<Rightarrow> None))"

definition join_step :: "jt_state \<Rightarrow> jt_state option" where
  "join_step s =
     (if jt_exit s then None
      else (case jk_pc s of
          K_Test \<Rightarrow> (if joinedNum s \<noteq> int THREADNUM then Some (s\<lparr>jk_pc := K_Lock\<rparr>)
                     else Some (s\<lparr>jk_pc := K_Done\<rparr>))
        | K_Lock \<Rightarrow> (if jt_mtx s = None then Some (s\<lparr>jk_pc := K_While, jt_mtx := Some K_Joiner\<rparr>) else None)
        | K_While \<Rightarrow> (if termNum s = 0 then Some (s\<lparr>jk_pc := K_Wait, jt_mtx := None\<rparr>)
                      else Some (s\<lparr>jk_pc := K_For, jk_idx := 0\<rparr>))
        | K_Wait \<Rightarrow> None
        | K_Woken \<Rightarrow> (if jt_mtx s = None then Some (s\<lparr>jk_pc := K_While, jt_mtx := Some K_Joiner\<rparr>) else None)
        | K_For \<Rightarrow>
            (if jk_idx s < THREADNUM
             then (if jt_status s ! jk_idx s = T_TERMINATED then Some (s\<lparr>jk_pc := K_Join\<rparr>)
                   else Some (s\<lparr>jk_idx := jk_idx s + 1\<rparr>))
             else Some (s\<lparr>jk_pc := K_Unlock\<rparr>))
        | K_Join \<Rightarrow> (if sims s ! jk_idx s = U_Done then Some (s\<lparr>jk_pc := K_Count\<rparr>) else None)
        | K_Count \<Rightarrow> Some (s\<lparr>jt_status := (jt_status s)[jk_idx s := T_JOIN], termNum := termNum s - 1,
                             joinedNum := joinedNum s + 1, jk_idx := jk_idx s + 1, jk_pc := K_For\<rparr>)
        | K_Unlock \<Rightarrow> Some (s\<lparr>jk_pc := K_Test, jt_mtx := None\<rparr>)
        | K_Done \<Rightarrow> None))"

text \<open>\<open>main\<close> creates the threads, joins the joiner and exits.\<close>

definition jt_main_step :: "jt_state \<Rightarrow> jt_state option" where
  "jt_main_step s =
     (if jt_exit s then None
      else if jt_created s < THREADNUM
      then Some (s\<lparr>sims := (sims s)[jt_created s := U_Start], jt_created := jt_created s + 1\<rparr>)
      else if jk_pc s = K_Done then Some (s\<lparr>jt_exit := True\<rparr>)
      else None)"

definition jt_thread :: "jt_who \<Rightarrow> jt_state \<Rightarrow> jt_state option" where
  "jt_thread who = (case who of K_Main \<Rightarrow> jt_main_step | K_Joiner \<Rightarrow> join_step | K_Sim i \<Rightarrow> sim_step i)"

definition jt_start :: jt_state where
  "jt_start = \<lparr>jt_status = replicate THREADNUM T_ALIVE, struct_id = replicate THREADNUM 0,
     sims = replicate THREADNUM U_None, jt_created = 0, jt_exit = False, jk_pc = K_Test, jk_idx = 0,
     termNum = 0, joinedNum = 0, jt_mtx = None\<rparr>"

definition jt_thread_step :: "jt_state \<Rightarrow> jt_state \<Rightarrow> bool" where
  "jt_thread_step s t \<longleftrightarrow> (\<exists>who. jt_thread who s = Some t)"

definition jt_step :: "jt_state \<Rightarrow> jt_state \<Rightarrow> bool" where
  "jt_step s t \<longleftrightarrow> jt_thread_step s t \<or> jk_pc s = K_Wait \<and> \<not> jt_exit s \<and> t = s\<lparr>jk_pc := K_Woken\<rparr>"

section \<open>The invariant\<close>

definition number :: "'a \<Rightarrow> 'a list \<Rightarrow> int" where
  "number q xs = sum_list (map (\<lambda>x. if x = q then 1 else 0) xs)"

lemma number_update: "i < length xs \<Longrightarrow> number q (xs[i := x]) =
    number q xs - (if xs ! i = q then 1 else 0) + (if x = q then 1 else 0)"
  by (simp add: number_def sum_list_map_update)

lemma number_all: "\<forall>i < length xs. xs ! i = q \<Longrightarrow> number q xs = int (length xs)"
proof -
  have "\<forall>x \<in> set xs. x = q \<Longrightarrow> number q xs = int (length xs)"
    by (induction xs) (auto simp: number_def)
  moreover assume "\<forall>i < length xs. xs ! i = q"
  then have "\<forall>x \<in> set xs. x = q" unfolding all_set_conv_all_nth .
  ultimately show ?thesis by blast
qed

lemma number_bounds: "0 \<le> number q xs" "number q xs \<le> int (length xs)"
  by (induction xs) (auto simp: number_def)

lemma number_two: "q \<noteq> r \<Longrightarrow> number q xs + number r xs \<le> int (length xs)"
  by (induction xs) (auto simp: number_def)

lemma number_zero: "number q xs = 0 \<Longrightarrow> i < length xs \<Longrightarrow> xs ! i \<noteq> q"
proof (induction xs arbitrary: i)
  case (Cons x xs)
  then show ?case using number_bounds(1) [of q xs] by (cases i) (auto simp: number_def split: if_splits)
qed simp

definition jt_critical :: "jt_state \<Rightarrow> jt_who \<Rightarrow> bool" where
  "jt_critical s who \<longleftrightarrow> (case who of
       K_Main \<Rightarrow> False
     | K_Joiner \<Rightarrow> jk_pc s \<in> {K_While, K_For, K_Join, K_Count, K_Unlock}
     | K_Sim i \<Rightarrow> i < length (sims s) \<and> sims s ! i \<in> {U_Update, U_Unlock})"

text \<open>What a thread's place says about its status; the joiner marks only threads that are done.\<close>

definition pair_ok :: "sim_pc \<Rightarrow> tstatus \<Rightarrow> bool" where
  "pair_ok u q \<longleftrightarrow> (case u of
       U_Unlock \<Rightarrow> q = T_TERMINATED
     | U_Signal \<Rightarrow> q = T_TERMINATED
     | U_Done \<Rightarrow> q \<noteq> T_ALIVE
     | _ \<Rightarrow> q = T_ALIVE)"

definition sims_ok :: "jt_state \<Rightarrow> bool" where
  "sims_ok s \<longleftrightarrow> length (sims s) = THREADNUM \<and> length (jt_status s) = THREADNUM \<and>
     jt_created s \<le> THREADNUM \<and>
     (\<forall>i < THREADNUM. pair_ok (sims s ! i) (jt_status s ! i) \<and> (sims s ! i = U_None \<longleftrightarrow> jt_created s \<le> i))"

definition counts_ok :: "jt_state \<Rightarrow> bool" where
  "counts_ok s \<longleftrightarrow> termNum s = number T_TERMINATED (jt_status s) \<and> joinedNum s = number T_JOIN (jt_status s)"

definition joiner_ok :: "jt_state \<Rightarrow> bool" where
  "joiner_ok s \<longleftrightarrow>
     (jk_pc s \<in> {K_Lock, K_While, K_Wait, K_Woken} \<longrightarrow> joinedNum s \<noteq> int THREADNUM) \<and>
     (jk_pc s = K_Done \<longrightarrow> joinedNum s = int THREADNUM) \<and>
     (jt_exit s \<longrightarrow> jk_pc s = K_Done) \<and>
     (jk_pc s \<in> {K_Join, K_Count} \<longrightarrow> jk_idx s < THREADNUM \<and> jt_status s ! jk_idx s = T_TERMINATED) \<and>
     (jk_pc s = K_Count \<longrightarrow> sims s ! jk_idx s = U_Done) \<and>
     (jk_pc s = K_Wait \<longrightarrow> (\<forall>i < THREADNUM. sims s ! i = U_Done \<longrightarrow> jt_status s ! i \<noteq> T_TERMINATED))"

definition jt_inv :: "jt_state \<Rightarrow> bool" where
  "jt_inv s \<longleftrightarrow> sims_ok s \<and> counts_ok s \<and> joiner_ok s \<and> lock_ok (jt_mtx s) (jt_critical s)"

lemma sim_step_cases:
  assumes "sim_step i s = Some t"
  obtains (start) "i < length (sims s)" "\<not> jt_exit s" "sims s ! i = U_Start"
      "t = s\<lparr>sims := (sims s)[i := U_Sleep], jt_status := (jt_status s)[i := T_ALIVE],
             struct_id := (struct_id s)[i := int i]\<rparr>"
  | (awake) "i < length (sims s)" "\<not> jt_exit s" "sims s ! i = U_Sleep" "t = s\<lparr>sims := (sims s)[i := U_Lock]\<rparr>"
  | (lock) "i < length (sims s)" "\<not> jt_exit s" "sims s ! i = U_Lock" "jt_mtx s = None"
      "t = s\<lparr>sims := (sims s)[i := U_Update], jt_mtx := Some (K_Sim i)\<rparr>"
  | (update) "i < length (sims s)" "\<not> jt_exit s" "sims s ! i = U_Update"
      "t = s\<lparr>sims := (sims s)[i := U_Unlock], jt_status := (jt_status s)[i := T_TERMINATED], termNum := termNum s + 1\<rparr>"
  | (unlock) "i < length (sims s)" "\<not> jt_exit s" "sims s ! i = U_Unlock"
      "t = s\<lparr>sims := (sims s)[i := U_Signal], jt_mtx := None\<rparr>"
  | (signal) "i < length (sims s)" "\<not> jt_exit s" "sims s ! i = U_Signal" "jk_pc s = K_Wait"
      "t = s\<lparr>sims := (sims s)[i := U_Done], jk_pc := K_Woken\<rparr>"
  | (no_waiter) "i < length (sims s)" "\<not> jt_exit s" "sims s ! i = U_Signal" "jk_pc s \<noteq> K_Wait"
      "t = s\<lparr>sims := (sims s)[i := U_Done]\<rparr>"
proof -
  have i: "i < length (sims s)" "\<not> jt_exit s"
    using assms unfolding sim_step_def by (metis not_le option.distinct(1))+
  show thesis
  proof (cases "sims s ! i")
    case U_Start
    with assms i start show thesis by (simp add: sim_step_def)
  next
    case U_Sleep
    with assms i awake show thesis by (simp add: sim_step_def)
  next
    case U_Lock
    with assms i lock show thesis by (simp add: sim_step_def split: if_split_asm)
  next
    case U_Update
    with assms i update show thesis by (simp add: sim_step_def)
  next
    case U_Unlock
    with assms i unlock show thesis by (simp add: sim_step_def)
  next
    case U_Signal
    show thesis
    proof (cases "jk_pc s = K_Wait")
      case True
      with U_Signal assms i signal show thesis by (simp add: sim_step_def)
    next
      case False
      with U_Signal assms i no_waiter show thesis by (simp add: sim_step_def)
    qed
  next
    case U_None
    with assms i show thesis by (simp add: sim_step_def)
  next
    case U_Done
    with assms i show thesis by (simp add: sim_step_def)
  qed
qed

lemma join_step_cases:
  assumes "join_step s = Some t"
  obtains (more) "\<not> jt_exit s" "jk_pc s = K_Test" "joinedNum s \<noteq> int THREADNUM" "t = s\<lparr>jk_pc := K_Lock\<rparr>"
  | (finish) "\<not> jt_exit s" "jk_pc s = K_Test" "joinedNum s = int THREADNUM" "t = s\<lparr>jk_pc := K_Done\<rparr>"
  | (lock) "\<not> jt_exit s" "jk_pc s = K_Lock \<or> jk_pc s = K_Woken" "jt_mtx s = None"
      "t = s\<lparr>jk_pc := K_While, jt_mtx := Some K_Joiner\<rparr>"
  | (sleep) "\<not> jt_exit s" "jk_pc s = K_While" "termNum s = 0" "t = s\<lparr>jk_pc := K_Wait, jt_mtx := None\<rparr>"
  | (enter) "\<not> jt_exit s" "jk_pc s = K_While" "termNum s \<noteq> 0" "t = s\<lparr>jk_pc := K_For, jk_idx := 0\<rparr>"
  | (found) "\<not> jt_exit s" "jk_pc s = K_For" "jk_idx s < THREADNUM" "jt_status s ! jk_idx s = T_TERMINATED"
      "t = s\<lparr>jk_pc := K_Join\<rparr>"
  | (skip) "\<not> jt_exit s" "jk_pc s = K_For" "t = s\<lparr>jk_idx := jk_idx s + 1\<rparr>"
  | (leave) "\<not> jt_exit s" "jk_pc s = K_For" "t = s\<lparr>jk_pc := K_Unlock\<rparr>"
  | (join) "\<not> jt_exit s" "jk_pc s = K_Join" "sims s ! jk_idx s = U_Done" "t = s\<lparr>jk_pc := K_Count\<rparr>"
  | (count) "\<not> jt_exit s" "jk_pc s = K_Count" "t = s\<lparr>jt_status := (jt_status s)[jk_idx s := T_JOIN],
      termNum := termNum s - 1, joinedNum := joinedNum s + 1, jk_idx := jk_idx s + 1, jk_pc := K_For\<rparr>"
  | (unlock) "\<not> jt_exit s" "jk_pc s = K_Unlock" "t = s\<lparr>jk_pc := K_Test, jt_mtx := None\<rparr>"
proof -
  have e: "\<not> jt_exit s" using assms unfolding join_step_def by (metis option.distinct(1))
  show thesis
  proof (cases "jk_pc s")
    case K_Test
    with assms e more finish show thesis by (simp add: join_step_def split: if_split_asm)
  next
    case K_Lock
    with assms e lock show thesis by (simp add: join_step_def split: if_split_asm)
  next
    case K_While
    with assms e sleep enter show thesis by (simp add: join_step_def split: if_split_asm)
  next
    case K_Woken
    with assms e lock show thesis by (simp add: join_step_def split: if_split_asm)
  next
    case K_For
    with assms e found skip leave show thesis by (simp add: join_step_def split: if_split_asm)
  next
    case K_Join
    with assms e join show thesis by (simp add: join_step_def split: if_split_asm)
  next
    case K_Count
    with assms e count show thesis by (simp add: join_step_def)
  next
    case K_Unlock
    with assms e unlock show thesis by (simp add: join_step_def)
  next
    case K_Wait
    with assms e show thesis by (simp add: join_step_def)
  next
    case K_Done
    with assms e show thesis by (simp add: join_step_def)
  qed
qed

section \<open>Every step keeps the invariant\<close>

lemma jt_critical_simps [simp]:
  "\<not> jt_critical s K_Main"
  "jt_critical s K_Joiner \<longleftrightarrow> jk_pc s \<in> {K_While, K_For, K_Join, K_Count, K_Unlock}"
  "jt_critical s (K_Sim i) \<longleftrightarrow> i < length (sims s) \<and> sims s ! i \<in> {U_Update, U_Unlock}"
  by (simp_all add: jt_critical_def)

lemma sims_okD:
  assumes "sims_ok s" and "i < THREADNUM"
  shows "pair_ok (sims s ! i) (jt_status s ! i)" and "sims s ! i = U_None \<longleftrightarrow> jt_created s \<le> i"
  using assms by (simp_all add: sims_ok_def)

lemma sim_step_inv:
  assumes "jt_inv s" and step: "sim_step i s = Some t"
  shows "jt_inv t"
proof -
  from assms(1) have inv: "sims_ok s" "counts_ok s" "joiner_ok s" "lock_ok (jt_mtx s) (jt_critical s)"
    by (simp_all add: jt_inv_def)
  have len: "length (sims s) = THREADNUM" "length (jt_status s) = THREADNUM"
    using inv(1) by (simp_all add: sims_ok_def)
  have pair: "i < THREADNUM \<Longrightarrow> pair_ok (sims s ! i) (jt_status s ! i)" using sims_okD [OF inv(1)] by simp
  have i: "i < THREADNUM" using step len(1) by (auto elim: sim_step_cases)
  have main: "lock_ok (jt_mtx t) (jt_critical t)"
  proof (rule lock_ok_step [OF inv(4), of "K_Sim i"])
    show "jt_critical t v = jt_critical s v" if "v \<noteq> K_Sim i" for v
      using step by (rule sim_step_cases) (use that in \<open>cases v; auto simp: nth_list_update\<close>)+
    show "jt_critical t (K_Sim i) = jt_critical s (K_Sim i) \<and> jt_mtx t = jt_mtx s \<or>
        jt_mtx s = None \<and> jt_mtx t = Some (K_Sim i) \<and> jt_critical t (K_Sim i) \<or>
        jt_critical s (K_Sim i) \<and> jt_mtx t = None \<and> \<not> jt_critical t (K_Sim i)"
      using step by (rule sim_step_cases) auto
  qed
  have "sims_ok t"
    using step
    by (rule sim_step_cases)
      (use inv(1) pair len in \<open>auto simp: sims_ok_def nth_list_update pair_ok_def\<close>)
  moreover have "counts_ok t"
    using step
    by (rule sim_step_cases)
      (use inv(2) pair len in \<open>auto simp: counts_ok_def number_update pair_ok_def\<close>)
  moreover have "joiner_ok t"
    using step
    by (rule sim_step_cases)
      (use inv(3) pair len in \<open>auto simp: joiner_ok_def nth_list_update pair_ok_def\<close>)
  ultimately show ?thesis using main by (simp add: jt_inv_def)
qed

lemma join_step_inv:
  assumes "jt_inv s" and step: "join_step s = Some t"
  shows "jt_inv t"
proof -
  from assms(1) have inv: "sims_ok s" "counts_ok s" "joiner_ok s" "lock_ok (jt_mtx s) (jt_critical s)"
    by (simp_all add: jt_inv_def)
  have len: "length (sims s) = THREADNUM" "length (jt_status s) = THREADNUM"
    using inv(1) by (simp_all add: sims_ok_def)
  have none: "termNum s = 0 \<Longrightarrow> i < THREADNUM \<Longrightarrow> jt_status s ! i \<noteq> T_TERMINATED" for i
    using inv(2) len number_zero [of T_TERMINATED "jt_status s" i] by (simp add: counts_ok_def)
  have "sims_ok t"
    using step
    by (rule join_step_cases)
      (use inv(1,3) in \<open>auto simp: sims_ok_def joiner_ok_def nth_list_update pair_ok_def\<close>)
  moreover have "counts_ok t"
    using step
    by (rule join_step_cases)
      (use inv(2,3) len in \<open>auto simp: counts_ok_def number_update joiner_ok_def\<close>)
  moreover have "joiner_ok t"
    using step
    by (rule join_step_cases) (use inv(3) none in \<open>auto simp: joiner_ok_def\<close>)
  moreover have "lock_ok (jt_mtx t) (jt_critical t)"
  proof (rule lock_ok_step [OF inv(4), of K_Joiner])
    show "jt_critical t v = jt_critical s v" if "v \<noteq> K_Joiner" for v
      using step by (rule join_step_cases) (use that in \<open>cases v; auto\<close>)+
    show "jt_critical t K_Joiner = jt_critical s K_Joiner \<and> jt_mtx t = jt_mtx s \<or>
        jt_mtx s = None \<and> jt_mtx t = Some K_Joiner \<and> jt_critical t K_Joiner \<or>
        jt_critical s K_Joiner \<and> jt_mtx t = None \<and> \<not> jt_critical t K_Joiner"
      using step by (rule join_step_cases) auto
  qed
  ultimately show ?thesis by (simp add: jt_inv_def)
qed

lemma jt_main_step_cases:
  assumes "jt_main_step s = Some t"
  obtains (create) "\<not> jt_exit s" "jt_created s < THREADNUM"
      "t = s\<lparr>sims := (sims s)[jt_created s := U_Start], jt_created := jt_created s + 1\<rparr>"
  | (exits) "\<not> jt_exit s" "jk_pc s = K_Done" "t = s\<lparr>jt_exit := True\<rparr>"
proof -
  have e: "\<not> jt_exit s" using assms unfolding jt_main_step_def by (metis option.distinct(1))
  show thesis
  proof (cases "jt_created s < THREADNUM")
    case True
    with assms e create show thesis by (simp add: jt_main_step_def)
  next
    case False
    with assms e exits show thesis by (simp add: jt_main_step_def split: if_split_asm)
  qed
qed

lemma jt_main_step_inv:
  assumes "jt_inv s" and step: "jt_main_step s = Some t"
  shows "jt_inv t"
proof -
  from assms(1) have inv: "sims_ok s" "counts_ok s" "joiner_ok s" "lock_ok (jt_mtx s) (jt_critical s)"
    by (simp_all add: jt_inv_def)
  have new: "jt_created s < THREADNUM \<Longrightarrow> sims s ! jt_created s = U_None"
    using sims_okD(2) [OF inv(1)] by simp
  have "sims_ok t"
    using step
    by (rule jt_main_step_cases)
      (use inv(1) new in \<open>fastforce simp: sims_ok_def nth_list_update pair_ok_def\<close>)+
  moreover have "counts_ok t"
    using step by (rule jt_main_step_cases) (use inv(2) in \<open>auto simp: counts_ok_def\<close>)
  moreover have "joiner_ok t"
    using step
    by (rule jt_main_step_cases)
      (use inv(1,3) new in \<open>auto simp: joiner_ok_def nth_list_update sims_ok_def\<close>)
  moreover have "jt_critical t v = jt_critical s v" for v
    using step
    by (rule jt_main_step_cases; cases v) (use inv(1) new in \<open>auto simp: nth_list_update sims_ok_def\<close>)
  moreover have "jt_mtx t = jt_mtx s"
    using step by (rule jt_main_step_cases) simp_all
  ultimately show ?thesis using inv(4) by (simp add: jt_inv_def lock_ok_def)
qed

lemma jt_start_inv: "jt_inv jt_start"
  by (auto simp: jt_inv_def sims_ok_def counts_ok_def joiner_ok_def lock_ok_def jt_start_def pair_ok_def
      number_def jt_critical_def sum_list_replicate THREADNUM_def split: jt_who.splits)

lemma jt_step_inv:
  assumes "jt_inv s" and "jt_step s t"
  shows "jt_inv t"
  using assms(2) unfolding jt_step_def jt_thread_step_def
proof (elim disjE exE conjE)
  fix who assume "jt_thread who s = Some t"
  then show ?thesis
    using assms(1)
    by (cases who) (auto simp: jt_thread_def intro: jt_main_step_inv join_step_inv sim_step_inv)
next
  assume w: "jk_pc s = K_Wait" "t = s\<lparr>jk_pc := K_Woken\<rparr>"
  have "jt_critical t v = jt_critical s v" for v using w by (cases v) simp_all
  with assms(1) w show ?thesis
    by (simp add: jt_inv_def sims_ok_def counts_ok_def joiner_ok_def lock_ok_def)
qed

lemma jt_inv_holder: "jt_inv s \<Longrightarrow> jt_critical s who \<Longrightarrow> jt_mtx s = Some who"
  unfolding jt_inv_def by (blast intro: lock_okD)

interpretation jt: locked_system "\<lambda>s. s = jt_start" jt_step jt_inv jt_mtx jt_critical
  by unfold_locales (simp_all add: jt_start_inv jt_step_inv jt_inv_holder)

lemma jt_thread_reach: "reach (\<lambda>s. s = jt_start) jt_thread_step s \<Longrightarrow> reach (\<lambda>s. s = jt_start) jt_step s"
proof (induction rule: reach.induct)
  case (reach_step s t)
  then show ?case by (meson jt_step_def reach.reach_step)
qed (rule reach_init)

lemma jt_schedule:
  "run_schedule jt_thread ws jt_start = Some s \<Longrightarrow> reach (\<lambda>s. s = jt_start) jt_thread_step s"
  by (rule run_schedule_reach [where f = jt_thread and s = jt_start]) (auto simp: jt_thread_step_def)

section \<open>No deadlock\<close>

text \<open>The thread that holds the mutex can move.\<close>

lemma holder_moves:
  assumes "jt_inv s" and "\<not> jt_exit s" and "jt_mtx s = Some who"
  shows "\<exists>t. jt_thread_step s t"
proof -
  have "jt_critical s who" using assms(1,3) by (simp add: jt_inv_def lock_ok_def)
  show ?thesis
  proof (cases who)
    case (K_Sim i)
    with \<open>jt_critical s who\<close> assms(2) have "sim_step i s \<noteq> None"
      by (auto simp: sim_step_def)
    then show ?thesis by (auto simp: jt_thread_step_def jt_thread_def intro!: exI [of _ "K_Sim i"])
  next
    case K_Joiner
    then have crit: "jk_pc s \<in> {K_While, K_For, K_Join, K_Count, K_Unlock}"
      using \<open>jt_critical s who\<close> by simp
    show ?thesis
    proof (cases "join_step s")
      case None
      then have j: "jk_pc s = K_Join" "sims s ! jk_idx s \<noteq> U_Done"
        using crit assms(2) by (auto simp: join_step_def split: if_split_asm)
      with assms(1) have idx: "jk_idx s < THREADNUM" "jt_status s ! jk_idx s = T_TERMINATED"
        by (simp_all add: jt_inv_def joiner_ok_def)
      with assms(1) have "pair_ok (sims s ! jk_idx s) T_TERMINATED" "length (sims s) = THREADNUM"
        using sims_okD(1) [of s "jk_idx s"] by (auto simp: jt_inv_def sims_ok_def)
      with j idx assms(2) have "sim_step (jk_idx s) s \<noteq> None"
        by (cases "sims s ! jk_idx s") (auto simp: sim_step_def pair_ok_def)
      then show ?thesis by (auto simp: jt_thread_step_def jt_thread_def intro!: exI [of _ "K_Sim (jk_idx s)"])
    next
      case (Some t)
      then show ?thesis by (auto simp: jt_thread_step_def jt_thread_def intro!: exI [of _ K_Joiner])
    qed
  next
    case K_Main
    with \<open>jt_critical s who\<close> show ?thesis by simp
  qed
qed

text \<open>A sleeping joiner has a thread that will wake it.\<close>

lemma waiting_moves:
  assumes "jt_inv s" and "\<not> jt_exit s" and "jt_mtx s = None" and "jt_created s = THREADNUM" and "jk_pc s = K_Wait"
  shows "\<exists>i t. sim_step i s = Some t"
proof (rule ccontr)
  assume stuck: "\<nexists>i t. sim_step i s = Some t"
  from assms(1) have inv: "sims_ok s" "counts_ok s" "joiner_ok s" by (simp_all add: jt_inv_def)
  have len: "length (sims s) = THREADNUM" "length (jt_status s) = THREADNUM"
    using inv(1) by (simp_all add: sims_ok_def)
  have "jt_status s ! i = T_JOIN" if i: "i < THREADNUM" for i
  proof -
    have "sim_step i s = None" using stuck by (cases "sim_step i s") auto
    then have "sims s ! i = U_None \<or> sims s ! i = U_Done"
      using assms(2,3) len i by (cases "sims s ! i") (auto simp: sim_step_def split: if_split_asm)
    then have "sims s ! i = U_Done" using sims_okD(2) [OF inv(1) i] assms(4) i by auto
    then show ?thesis
      using sims_okD(1) [OF inv(1) i] inv(3) assms(5) i
      by (cases "jt_status s ! i") (auto simp: joiner_ok_def pair_ok_def)
  qed
  then have "number T_JOIN (jt_status s) = int THREADNUM" using number_all [of "jt_status s"] len by simp
  with inv(2,3) assms(5) show False by (simp add: counts_ok_def joiner_ok_def)
qed

lemma jt_moves:
  assumes "jt_inv s" and "\<not> jt_exit s"
  shows "\<exists>t. jt_thread_step s t"
proof (cases "jt_mtx s")
  case (Some who)
  with assms show ?thesis by (rule holder_moves)
next
  case None
  have moves: "jt_thread who s = Some t \<Longrightarrow> \<exists>t. jt_thread_step s t" for who t
    by (auto simp: jt_thread_step_def)
  show ?thesis
  proof (cases "jt_main_step s")
    case (Some t)
    then show ?thesis using moves [of K_Main t] by (simp add: jt_thread_def)
  next
    case main: None
    then have fin: "\<not> jt_created s < THREADNUM" "jk_pc s \<noteq> K_Done"
      using assms(2) by (auto simp: jt_main_step_def split: if_split_asm)
    show ?thesis
    proof (cases "join_step s")
      case (Some t)
      then show ?thesis using moves [of K_Joiner t] by (simp add: jt_thread_def)
    next
      case join: None
      have "\<not> jt_critical s K_Joiner" using jt_inv_holder [OF assms(1), of K_Joiner] None by force
      then have "jk_pc s = K_Wait"
        using join assms(2) fin(2) None by (cases "jk_pc s") (auto simp: join_step_def split: if_split_asm)
      moreover have "jt_created s = THREADNUM"
        using assms(1) fin(1) by (simp add: jt_inv_def sims_ok_def)
      ultimately obtain i t where "sim_step i s = Some t"
        using waiting_moves [OF assms None] by blast
      then show ?thesis using moves [of "K_Sim i" t] by (simp add: jt_thread_def)
    qed
  qed
qed

section \<open>Properties\<close>

text \<open>C12: the counters are right and no thread is joined too early. In every reachable state \<open>termNum\<close> is the
  number of threads that have ended and are not joined, \<open>joinedNum\<close> the number of joined ones, and
  a thread that is marked as joined has returned.\<close>

theorem jt_counts:
  assumes "reach (\<lambda>s. s = jt_start) jt_step s"
  shows "termNum s = number T_TERMINATED (jt_status s) \<and> joinedNum s = number T_JOIN (jt_status s) \<and>
    termNum s + joinedNum s \<le> int THREADNUM \<and>
    (\<forall>i < THREADNUM. jt_status s ! i = T_JOIN \<longrightarrow> sims s ! i = U_Done)"
proof -
  have inv: "sims_ok s" "counts_ok s" using jt.inv_reach [OF assms] by (simp_all add: jt_inv_def)
  have "sims s ! i = U_Done" if "i < THREADNUM" "jt_status s ! i = T_JOIN" for i
    using sims_okD(1) [OF inv(1) that(1)] that(2) by (cases "sims s ! i") (auto simp: pair_ok_def)
  with inv number_two [of T_TERMINATED T_JOIN "jt_status s"] show ?thesis
    by (auto simp: counts_ok_def sims_ok_def)
qed

text \<open>A run in which every thread in turn is created, ends and is joined.\<close>

definition jt_run :: "jt_who list" where
  "jt_run = [K_Joiner, K_Joiner, K_Joiner] @
     concat (map (\<lambda>i. [K_Main] @ replicate 6 (K_Sim i) @ replicate 14 K_Joiner) [0..<4]) @
     [K_Main] @ replicate 6 (K_Sim 4) @ replicate 12 K_Joiner @ [K_Main]"

definition jt_end :: jt_state where
  "jt_end = \<lparr>jt_status = replicate 5 T_JOIN, struct_id = [0, 1, 2, 3, 4], sims = replicate 5 U_Done,
     jt_created = 5, jt_exit = True, jk_pc = K_Done, jk_idx = 5, termNum = 0, joinedNum = 5, jt_mtx = None\<rparr>"

lemma jt_end_reach: "reach (\<lambda>s. s = jt_start) jt_thread_step jt_end"
proof (rule jt_schedule)
  show "run_schedule jt_thread jt_run jt_start = Some jt_end" by code_simp
qed

theorem jt_counts_witness: "termNum jt_end + joinedNum jt_end \<le> 5"
  using jt_counts [OF jt_thread_reach [OF jt_end_reach]] by (simp add: THREADNUM_def)

text \<open>C13: when \<open>main\<close> exits, every thread has returned and is marked and counted as joined.\<close>

theorem jt_complete:
  assumes "reach (\<lambda>s. s = jt_start) jt_step s" and "jt_exit s"
  shows "joinedNum s = int THREADNUM \<and> termNum s = 0 \<and>
    (\<forall>i < THREADNUM. jt_status s ! i = T_JOIN \<and> sims s ! i = U_Done)"
proof -
  have inv: "sims_ok s" "counts_ok s" "joiner_ok s" using jt.inv_reach [OF assms(1)] by (simp_all add: jt_inv_def)
  then have j: "joinedNum s = int THREADNUM" using assms(2) by (simp add: joiner_ok_def)
  have len: "length (jt_status s) = THREADNUM" using inv(1) by (simp add: sims_ok_def)
  have t: "termNum s = 0"
    using number_two [of T_TERMINATED T_JOIN "jt_status s"] number_bounds(1) [of T_TERMINATED "jt_status s"]
      inv(2) j len by (simp add: counts_ok_def)
  have "jt_status s ! i = T_JOIN" if i: "i < THREADNUM" for i
  proof (rule ccontr)
    assume "jt_status s ! i \<noteq> T_JOIN"
    moreover have "number T_JOIN (jt_status s) + number (jt_status s ! i) (jt_status s) \<le> int THREADNUM"
      using number_two [of T_JOIN "jt_status s ! i" "jt_status s"] \<open>jt_status s ! i \<noteq> T_JOIN\<close> len by auto
    moreover have "number (jt_status s ! i) (jt_status s) \<noteq> 0"
      using number_zero [of "jt_status s ! i" "jt_status s" i] i len by auto
    ultimately show False
      using inv(2) j number_bounds(1) [of "jt_status s ! i" "jt_status s"] by (simp add: counts_ok_def)
  qed
  moreover from this have "sims s ! i = U_Done" if "i < THREADNUM" for i
    using sims_okD(1) [OF inv(1) that] that by (cases "sims s ! i") (auto simp: pair_ok_def)
  ultimately show ?thesis using j t by blast
qed

theorem jt_complete_witness: "termNum jt_end = 0 \<and> joinedNum jt_end = 5"
proof -
  have "jt_exit jt_end" by (simp add: jt_end_def)
  from jt_complete [OF jt_thread_reach [OF jt_end_reach] this] show ?thesis by (simp add: THREADNUM_def)
qed

text \<open>C11: no wake-up is lost and the threads never block one another for good: until \<open>main\<close> exits, some
  thread can move, without any spurious wake-up.\<close>

theorem jt_progress:
  assumes "reach (\<lambda>s. s = jt_start) jt_step s" and "\<not> jt_exit s"
  shows "\<exists>t. jt_thread_step s t"
  using jt_moves [OF jt.inv_reach [OF assms(1)] assms(2)] .

theorem jt_progress_witness: "\<exists>t. jt_thread_step jt_start t"
  using jt_progress [OF reach_init] by (simp add: jt_start_def)

end
