(* ===== verification/Join_Runs.thy ===== *)
theory Join_Runs imports Join_Term begin

text \<open>
  The runs of \<^verbatim>\<open>src/thread_joinTerm.c\<close> end: each pass of the joiner over the table finds at least one
  thread to join, and each thread wakes the joiner at most once.
\<close>

section \<open>A pass finds every thread that has ended\<close>

text \<open>While the joiner is in its loop over the table, what lies behind it is not waiting to be joined.\<close>

definition pass_ok :: "jt_state \<Rightarrow> bool" where
  "pass_ok s \<longleftrightarrow> jk_pc s \<in> {K_For, K_Join, K_Count} \<longrightarrow>
     jk_idx s \<le> THREADNUM \<and> (\<forall>i < jk_idx s. jt_status s ! i \<noteq> T_TERMINATED)"

definition jt_full_inv :: "jt_state \<Rightarrow> bool" where
  "jt_full_inv s \<longleftrightarrow> jt_inv s \<and> pass_ok s"

lemma pass_locks_out:
  assumes "jt_inv s" "jk_pc s \<in> {K_For, K_Join, K_Count}" "i < length (sims s)"
  shows "sims s ! i \<noteq> U_Update"
proof
  assume "sims s ! i = U_Update"
  then have "jt_mtx s = Some (K_Sim i)" using jt_inv_holder [OF assms(1), of "K_Sim i"] assms(3) by simp
  moreover have "jt_mtx s = Some K_Joiner" using jt_inv_holder [OF assms(1), of K_Joiner] assms(2) by auto
  ultimately show False by simp
qed

lemma update_other: "x \<noteq> q \<Longrightarrow> xs[i := x] ! j = q \<Longrightarrow> xs ! j = q"
  by (cases "i < length xs"; cases "i = j") (auto simp: not_less list_update_beyond)

lemma sim_step_pass:
  assumes "jt_inv s" "pass_ok s" "sim_step i s = Some t"
  shows "pass_ok t"
  using assms(3)
proof (rule sim_step_cases)
  assume "i < length (sims s)" "sims s ! i = U_Update" "t = s\<lparr>sims := (sims s)[i := U_Unlock],
    jt_status := (jt_status s)[i := T_TERMINATED], termNum := termNum s + 1\<rparr>"
  with pass_locks_out [OF assms(1)] show ?thesis by (auto simp: pass_ok_def)
next
  assume "t = s\<lparr>sims := (sims s)[i := U_Sleep], jt_status := (jt_status s)[i := T_ALIVE],
             struct_id := (struct_id s)[i := int i]\<rparr>"
  with assms(2) show ?thesis by (auto simp: pass_ok_def dest: update_other [rotated])
qed (use assms(2) in \<open>auto simp: pass_ok_def\<close>)

text \<open>Once the pass is over nothing waits to be joined.\<close>

lemma number_none: "\<forall>i < length xs. xs ! i \<noteq> q \<Longrightarrow> number q xs = 0"
proof -
  assume "\<forall>i < length xs. xs ! i \<noteq> q"
  then have "\<forall>x \<in> set xs. x \<noteq> q" unfolding all_set_conv_all_nth .
  then show ?thesis by (induction xs) (auto simp: number_def)
qed

lemma pass_complete:
  assumes "jt_full_inv s" "jk_pc s = K_For" "\<not> jk_idx s < THREADNUM"
  shows "termNum s = 0" "jk_idx s = THREADNUM"
proof -
  have inv: "sims_ok s" "counts_ok s" "pass_ok s" using assms(1) by (simp_all add: jt_full_inv_def jt_inv_def)
  show idx: "jk_idx s = THREADNUM" using inv(3) assms(2,3) by (simp add: pass_ok_def)
  with inv assms(2) have "\<forall>i < length (jt_status s). jt_status s ! i \<noteq> T_TERMINATED"
    by (simp add: pass_ok_def sims_ok_def)
  with inv(2) number_none show "termNum s = 0" by (simp add: counts_ok_def)
qed

lemma terminated_counts:
  assumes "jt_inv s" "i < THREADNUM" "jt_status s ! i = T_TERMINATED"
  shows "termNum s \<noteq> 0"
proof
  assume "termNum s = 0"
  with assms(1) have "number T_TERMINATED (jt_status s) = 0" "length (jt_status s) = THREADNUM"
    by (simp_all add: jt_inv_def counts_ok_def sims_ok_def)
  from number_zero [OF this(1), of i] this(2) assms(2,3) show False by simp
qed

section \<open>What is left to do\<close>

definition sim_left :: "sim_pc \<Rightarrow> int" where
  "sim_left u = (case u of U_None \<Rightarrow> 0 | U_Start \<Rightarrow> 30 | U_Sleep \<Rightarrow> 29 | U_Lock \<Rightarrow> 28 | U_Update \<Rightarrow> 27
     | U_Unlock \<Rightarrow> 26 | U_Signal \<Rightarrow> 25 | U_Done \<Rightarrow> 0)"

text \<open>
  The place of the joiner in its round. The last join of a pass leads to the second half of the loop
  over the table, which is charged to the thread that was joined.
\<close>

definition join_left :: "jt_state \<Rightarrow> int" where
  "join_left s = (case jk_pc s of K_Test \<Rightarrow> 20 | K_Lock \<Rightarrow> 19 | K_Woken \<Rightarrow> 19 | K_While \<Rightarrow> 18 | K_Wait \<Rightarrow> 1
     | K_For \<Rightarrow> (if termNum s = 0 then 50 else 17) - 3 * int (jk_idx s)
     | K_Join \<Rightarrow> 16 - 3 * int (jk_idx s) | K_Count \<Rightarrow> 15 - 3 * int (jk_idx s)
     | K_Unlock \<Rightarrow> 30 | K_Done \<Rightarrow> 0)"

definition jt_left :: "jt_state \<Rightarrow> int" where
  "jt_left s = 31 * (int THREADNUM - int (jt_created s)) + sum_list (map sim_left (sims s)) +
     60 * (int THREADNUM - joinedNum s) + join_left s + (if jt_exit s then 0 else 1)"

lemma join_left_same:
  "jk_pc t = jk_pc s \<Longrightarrow> jk_idx t = jk_idx s \<Longrightarrow> termNum t = termNum s \<or> jk_pc s \<noteq> K_For \<Longrightarrow> join_left t = join_left s"
  by (cases "jk_pc s") (simp_all add: join_left_def)

lemma sim_step_left:
  assumes inv: "jt_inv s" and step: "sim_step i s = Some t"
  shows "jt_left t < jt_left s"
proof -
  have out: "sims s ! i \<noteq> U_Update" if "jk_pc s = K_For" "i < length (sims s)"
    using pass_locks_out [OF inv _ that(2)] that(1) by simp
  show ?thesis
    using step
  proof (rule sim_step_cases)
    assume a: "i < length (sims s)" "sims s ! i = U_Update"
      "t = s\<lparr>sims := (sims s)[i := U_Unlock], jt_status := (jt_status s)[i := T_TERMINATED], termNum := termNum s + 1\<rparr>"
    then have "join_left t = join_left s" using out by (intro join_left_same) auto
    with a show ?thesis by (simp add: jt_left_def sum_list_map_update sim_left_def)
  next
    assume a: "i < length (sims s)" "sims s ! i = U_Signal" "jk_pc s = K_Wait"
      "t = s\<lparr>sims := (sims s)[i := U_Done], jk_pc := K_Woken\<rparr>"
    then show ?thesis by (simp add: jt_left_def sum_list_map_update sim_left_def join_left_def)
  qed (use join_left_same [of t s] in \<open>simp_all add: jt_left_def sum_list_map_update sim_left_def\<close>)
qed

text \<open>What the steps inside a pass do, with the tests they make.\<close>

lemma join_step_pass:
  assumes full: "jt_full_inv s" and step: "join_step s = Some t"
  shows "pass_ok t"
proof -
  have inv: "pass_ok s" "joiner_ok s" using full by (simp_all add: jt_full_inv_def jt_inv_def)
  have skip: "t = s\<lparr>jk_idx := jk_idx s + 1\<rparr> \<Longrightarrow> jk_pc s = K_For \<Longrightarrow>
    jk_idx s < THREADNUM \<and> jt_status s ! jk_idx s \<noteq> T_TERMINATED"
    using step by (cases "jk_idx s < THREADNUM"; cases "jt_status s ! jk_idx s = T_TERMINATED"; cases s)
      (auto simp: join_step_def split: if_split_asm)
  show ?thesis
    using step
  proof (rule join_step_cases)
    assume "jk_pc s = K_For" "t = s\<lparr>jk_idx := jk_idx s + 1\<rparr>"
    with skip inv(1) show ?thesis by (auto simp: pass_ok_def less_Suc_eq)
  next
    assume "jk_pc s = K_Count" "t = s\<lparr>jt_status := (jt_status s)[jk_idx s := T_JOIN],
      termNum := termNum s - 1, joinedNum := joinedNum s + 1, jk_idx := jk_idx s + 1, jk_pc := K_For\<rparr>"
    moreover have "length (jt_status s) = THREADNUM" using full by (simp add: jt_full_inv_def jt_inv_def sims_ok_def)
    ultimately show ?thesis
      using inv by (auto simp: pass_ok_def joiner_ok_def less_Suc_eq dest: update_other [rotated])
  qed (use inv(1) in \<open>auto simp: pass_ok_def\<close>)
qed

lemma join_step_left:
  assumes full: "jt_full_inv s" and step: "join_step s = Some t"
  shows "jt_left t < jt_left s"
proof -
  have inv: "jt_inv s" "joiner_ok s" using full by (simp_all add: jt_full_inv_def jt_inv_def)
  have leave: "t = s\<lparr>jk_pc := K_Unlock\<rparr> \<Longrightarrow> jk_pc s = K_For \<Longrightarrow> \<not> jk_idx s < THREADNUM"
    using step by (cases "jk_idx s < THREADNUM"; cases "jt_status s ! jk_idx s = T_TERMINATED"; cases s)
      (auto simp: join_step_def split: if_split_asm)
  show ?thesis
    using step
  proof (rule join_step_cases)
    assume a: "jk_pc s = K_For" "t = s\<lparr>jk_pc := K_Unlock\<rparr>"
    with leave pass_complete [OF full] have "termNum s = 0" "jk_idx s = THREADNUM" by simp_all
    with a show ?thesis by (simp add: jt_left_def join_left_def THREADNUM_def)
  next
    assume a: "jk_pc s = K_For" "jk_idx s < THREADNUM" "jt_status s ! jk_idx s = T_TERMINATED" "t = s\<lparr>jk_pc := K_Join\<rparr>"
    with terminated_counts [OF inv(1)] have "termNum s \<noteq> 0" by simp
    with a show ?thesis by (simp add: jt_left_def join_left_def)
  next
    assume a: "jk_pc s = K_While" "termNum s \<noteq> 0" "t = s\<lparr>jk_pc := K_For, jk_idx := 0\<rparr>"
    then show ?thesis by (simp add: jt_left_def join_left_def)
  next
    assume a: "jk_pc s = K_Count" "t = s\<lparr>jt_status := (jt_status s)[jk_idx s := T_JOIN],
      termNum := termNum s - 1, joinedNum := joinedNum s + 1, jk_idx := jk_idx s + 1, jk_pc := K_For\<rparr>"
    then show ?thesis by (simp add: jt_left_def join_left_def)
  qed (auto simp: jt_left_def join_left_def)
qed

lemma main_step_left:
  assumes inv: "jt_inv s" and step: "jt_main_step s = Some t"
  shows "jt_left t < jt_left s"
  using step
proof (rule jt_main_step_cases)
  assume a: "jt_created s < THREADNUM" "t = s\<lparr>sims := (sims s)[jt_created s := U_Start], jt_created := jt_created s + 1\<rparr>"
  have "sims s ! jt_created s = U_None" "length (sims s) = THREADNUM"
    using inv a(1) sims_okD(2) [of s "jt_created s"] by (simp_all add: jt_inv_def sims_ok_def)
  moreover have "join_left t = join_left s" using a(2) by (intro join_left_same) simp_all
  ultimately show ?thesis using a by (simp add: jt_left_def sum_list_map_update sim_left_def)
next
  assume "\<not> jt_exit s" "t = s\<lparr>jt_exit := True\<rparr>"
  then show ?thesis using join_left_same [of t s] by (simp add: jt_left_def)
qed

lemma main_step_pass: "pass_ok s \<Longrightarrow> jt_main_step s = Some t \<Longrightarrow> pass_ok t"
  by (erule jt_main_step_cases) (auto simp: pass_ok_def)

lemma jt_full_step:
  assumes "jt_full_inv s" "jt_thread_step s t"
  shows "jt_full_inv t \<and> jt_left t < jt_left s"
proof -
  obtain who where who: "jt_thread who s = Some t" using assms(2) by (auto simp: jt_thread_step_def)
  have "jt_inv t" using assms by (auto simp: jt_full_inv_def jt_step_def intro: jt_step_inv)
  moreover have "pass_ok t \<and> jt_left t < jt_left s"
    using who assms(1)
    by (cases who) (auto simp: jt_thread_def jt_full_inv_def intro: main_step_pass main_step_left sim_step_pass
        sim_step_left join_step_pass join_step_left)
  ultimately show ?thesis by (simp add: jt_full_inv_def)
qed

lemma jt_left_nonneg:
  assumes "jt_full_inv s"
  shows "0 \<le> jt_left s"
proof -
  have inv: "sims_ok s" "counts_ok s" "pass_ok s" "joiner_ok s"
    using assms by (simp_all add: jt_full_inv_def jt_inv_def)
  have "0 \<le> sum_list (map sim_left (sims s))"
    by (rule sum_list_nonneg) (auto simp: sim_left_def split: sim_pc.split)
  moreover have "0 \<le> join_left s"
    using inv(3,4) by (cases "jk_pc s") (auto simp: join_left_def pass_ok_def joiner_ok_def THREADNUM_def)
  moreover have "joinedNum s \<le> int THREADNUM"
    using inv(1,2) number_bounds(2) [of T_JOIN "jt_status s"] by (simp add: counts_ok_def sims_ok_def)
  ultimately show ?thesis using inv(1) by (simp add: jt_left_def sims_ok_def)
qed

lemma jt_full_start: "s = jt_start \<Longrightarrow> jt_full_inv s"
  using jt_start_inv by (simp add: jt_full_inv_def pass_ok_def) (simp add: jt_start_def)

interpretation jt_runs: bounded_system "\<lambda>s. s = jt_start" jt_thread_step jt_full_inv jt_left
  by unfold_locales (use jt_full_start jt_full_step jt_left_nonneg in blast)+

section \<open>Properties\<close>

text \<open>C10: Every run ends, and ends well. Without spurious wake-ups no schedule of the threads makes more
  than 476 steps, and a state in which no thread can move is one in which \<open>main\<close> has exited with
  every thread joined.\<close>

theorem jt_terminates:
  assumes "(jt_thread_step ^^ n) jt_start s"
  shows "int n \<le> 476 \<and> (stuck jt_thread_step s \<longrightarrow> jt_exit s \<and> joinedNum s = int THREADNUM)"
proof -
  have "jt_left jt_start = 476"
    by (simp add: jt_left_def jt_start_def THREADNUM_def sim_left_def join_left_def sum_list_replicate)
  then have "int n \<le> 476" using jt_runs.run_bound [OF jt_full_start [OF refl] assms] by simp
  moreover have "jt_exit s \<and> joinedNum s = int THREADNUM" if "stuck jt_thread_step s"
  proof -
    have inv: "jt_inv s" using jt_runs.inv_run [OF jt_full_start [OF refl] assms] by (simp add: jt_full_inv_def)
    then have "jt_exit s" using jt_moves that by (auto simp: stuck_def)
    with inv show ?thesis by (simp add: jt_inv_def joiner_ok_def)
  qed
  ultimately show ?thesis by blast
qed

theorem jt_terminates_witness: "\<exists>n. (jt_thread_step ^^ n) jt_start jt_end \<and> int n \<le> 476"
proof -
  obtain n where "(jt_thread_step ^^ n) jt_start jt_end"
    using reach_run [OF jt_end_reach] by (auto dest: rtranclp_imp_relpowp)
  with jt_terminates [OF this] show ?thesis by blast
qed

end
