(* ===== verification/Echo_Server.thy ===== *)
theory Echo_Server imports Prelude begin

text \<open>
  \<^verbatim>\<open>src/webprogramming/tcpServer.c\<close>, a server that sends each message back in capitals, and
  \<^verbatim>\<open>src/webprogramming/tcpClient.c\<close>, its client. The results of the system calls and the lines
  typed by the user are lists that the loops consume; a loop that has used them up is still running,
  which is \<open>None\<close>. A \<open>printf("%s")\<close> of an array without a terminating zero is \<open>Fault\<close>.
\<close>

section \<open>Buffers\<close>

definition print_s :: "byte list \<Rightarrow> byte list outcome" where
  "print_s buf = (if nul_terminated buf then Return (c_string buf) else Fault)"

text \<open>Storing bytes at the start of an array.\<close>

definition store :: "byte list \<Rightarrow> byte list \<Rightarrow> byte list" where
  "store data buf = data @ drop (length data) buf"

section \<open>The server\<close>

text \<open>\<open>toupper\<close> in the C locale.\<close>

definition toupper :: "byte \<Rightarrow> byte" where
  "toupper c = (if 97 \<le> c \<and> c \<le> 122 then c - 32 else c)"

function upper_from :: "nat \<Rightarrow> nat \<Rightarrow> byte list \<Rightarrow> byte list" where
  "upper_from i len buf = (if i < len then upper_from (Suc i) len (buf[i := toupper (buf ! i)]) else buf)"
  by pat_completeness auto
termination
  by (relation "measure (\<lambda>(i, len, buf). len - i)") auto

declare upper_from.simps [simp del]

text \<open>One message: what is printed before and after, and what is passed to \<open>write\<close>.\<close>

definition echo_message :: "byte list \<Rightarrow> (byte list \<times> byte list \<times> byte list) outcome" where
  "echo_message data =
     (let len = length data; buf = read_into 1024 data in
      and_then (print_s buf) (\<lambda>received.
        let buf = upper_from 0 len buf in
        and_then (print_s buf) (\<lambda>sending. Return (received, sending, take len buf))))"

text \<open>The loop over the results of \<open>read\<close>, with the messages written so far.\<close>

fun echo_loop :: "byte list sysres list \<Rightarrow> byte list list \<Rightarrow> byte list list outcome option" where
  "echo_loop [] out = None"
| "echo_loop (Err e # rs) out = Some (Exit 1)"
| "echo_loop (Ok data # rs) out =
     (if data = [] then Some (Return out)
      else (case echo_message data of
          Return (received, sending, reply) \<Rightarrow> echo_loop rs (out @ [reply])
        | Exit n \<Rightarrow> Some (Exit n)
        | Fault \<Rightarrow> Some Fault))"

definition echo_main ::
  "int sysres \<Rightarrow> unit sysres \<Rightarrow> unit sysres \<Rightarrow> int sysres \<Rightarrow> byte list sysres list \<Rightarrow> byte list list outcome option"
where
  "echo_main sock bnd lstn acc rs =
     (case sock of Err e \<Rightarrow> Some (Exit EXIT_FAILURE)
      | Ok lfd \<Rightarrow> (case bnd of Err e \<Rightarrow> Some (Exit EXIT_FAILURE)
        | Ok _ \<Rightarrow> (case lstn of Err e \<Rightarrow> Some (Exit EXIT_FAILURE)
          | Ok _ \<Rightarrow> (case acc of Err e \<Rightarrow> Some (Exit 1)
            | Ok cfd \<Rightarrow> echo_loop rs []))))"

section \<open>The client\<close>

definition BUF_SIZ :: nat where "BUF_SIZ = 1028"

text \<open>
  One round: the line \<open>fgets\<close> stores (\<open>None\<close> at the end of the input, when it stores nothing), the
  results of \<open>write\<close> and \<open>read\<close>, and the array. The round sends a string, then either ends the loop
  or goes on with the array it has and what it printed of the reply.
\<close>

datatype round = Go_On "byte list" "byte list" | Leave

definition client_round ::
  "byte list option \<Rightarrow> nat sysres \<Rightarrow> byte list sysres \<Rightarrow> byte list \<Rightarrow> (byte list \<times> round) outcome" where
  "client_round line wr rd buf =
     (let buf = (case line of None \<Rightarrow> buf | Some l \<Rightarrow> store (l @ [0]) buf) in
      and_then (print_s buf) (\<lambda>sent.
        if wr = Ok 0 then Return (sent, Leave)
        else (case rd of
            Err e \<Rightarrow> Return (sent, Leave)
          | Ok data \<Rightarrow>
              if data = [] then Return (sent, Go_On buf [])
              else (let buf = store data buf in
                and_then (print_s buf) (\<lambda>shown. Return (sent, Go_On buf shown))))))"

fun client_loop :: "(byte list option \<times> nat sysres \<times> byte list sysres) list \<Rightarrow> byte list \<Rightarrow> unit outcome option"
where
  "client_loop [] buf = None"
| "client_loop ((line, wr, rd) # xs) buf =
     (case client_round line wr rd buf of
        Return (sent, Leave) \<Rightarrow> Some (Return ())
      | Return (sent, Go_On buf shown) \<Rightarrow> client_loop xs buf
      | Exit n \<Rightarrow> Some (Exit n)
      | Fault \<Rightarrow> Some Fault)"

section \<open>Facts\<close>

lemma toupper_zero [simp]: "toupper c = 0 \<longleftrightarrow> c = 0"
proof
  assume "toupper c = 0"
  then show "c = 0"
    by (cases "97 \<le> c \<and> c \<le> 122") (auto simp: toupper_def)
qed (simp add: toupper_def)

lemma upper_from_map:
  "i \<le> len \<Longrightarrow> len \<le> length buf \<Longrightarrow>
    upper_from i len buf = take i buf @ map toupper (take (len - i) (drop i buf)) @ drop len buf"
proof (induction i len buf rule: upper_from.induct)
  case (1 i len buf)
  show ?case
  proof (cases "i < len")
    case True
    then have "upper_from i len buf = upper_from (Suc i) len (buf[i := toupper (buf ! i)])"
      by (simp add: upper_from.simps [of i len buf])
    also have "\<dots> = take (Suc i) (buf[i := toupper (buf ! i)]) @
        map toupper (take (len - Suc i) (drop (Suc i) (buf[i := toupper (buf ! i)]))) @
        drop len (buf[i := toupper (buf ! i)])"
      using 1 True by simp
    also have "\<dots> = take i buf @ toupper (buf ! i) # map toupper (take (len - Suc i) (drop (Suc i) buf)) @ drop len buf"
      using True 1 by (simp add: take_Suc_conv_app_nth)
    also have "\<dots> = take i buf @ map toupper (take (len - i) (drop i buf)) @ drop len buf"
      using True 1 by (simp add: Cons_nth_drop_Suc [symmetric] Suc_diff_Suc take_Cons')
    finally show ?thesis .
  next
    case False
    with 1 have "i = len" by simp
    with 1 show ?thesis by (simp add: upper_from.simps [of len len buf])
  qed
qed

lemma upper_read_into:
  "length data \<le> N \<Longrightarrow> upper_from 0 (length data) (read_into N data) = read_into N (map toupper data)"
  by (simp add: upper_from_map buffer_simps) (simp add: read_into_def)

lemma nul_upper: "0 \<in> set (map toupper data) \<longleftrightarrow> 0 \<in> set data"
  by (auto simp: image_iff)

lemma echo_message_Return:
  assumes "length data \<le> 1024" and "length data < 1024 \<or> 0 \<in> set data"
  shows "echo_message data = Return (c_string (read_into 1024 data), c_string (read_into 1024 (map toupper data)),
    map toupper data)"
proof -
  have "nul_terminated (read_into 1024 data)" "nul_terminated (read_into 1024 (map toupper data))"
    using assms nul_upper [of data] by (simp_all add: buffer_simps)
  moreover have "take (length data) (read_into 1024 (map toupper data)) = map toupper data"
    by (simp add: read_into_def)
  ultimately show ?thesis
    by (simp add: echo_message_def print_s_def Let_def upper_read_into [OF assms(1)])
qed

lemma echo_message_Fault: "length data = 1024 \<Longrightarrow> 0 \<notin> set data \<Longrightarrow> echo_message data = Fault"
  by (simp add: echo_message_def print_s_def buffer_simps)

lemma echo_loop_messages:
  "\<forall>m \<in> set msgs. m \<noteq> [] \<and> length m \<le> 1024 \<and> (length m < 1024 \<or> 0 \<in> set m) \<Longrightarrow>
    echo_loop (map Ok msgs @ rs) out = echo_loop rs (out @ map (map toupper) msgs)"
  by (induction msgs arbitrary: out) (simp_all add: echo_message_Return)

lemma store_terminated: "nul_terminated (store (l @ [0]) buf)" "0 \<notin> set l \<Longrightarrow> c_string (store (l @ [0]) buf) = l"
  by (simp_all add: store_def nul_terminated_def c_string_def takeWhile_append)

section \<open>Properties\<close>

text \<open>C20: a session of the server, whose \<open>read\<close>s give messages of at most 1024 bytes. Messages that leave
  room for a zero in the array, or hold one, are answered in order: what is passed to \<open>write\<close> is
  the message in capitals, byte for byte; and the server ends when the client disconnects. After
  any number of them a message that fills the array and holds no zero makes \<open>printf\<close> read past
  its end.\<close>

theorem echo_session:
  assumes "\<forall>m \<in> set msgs. m \<noteq> [] \<and> length m \<le> 1024 \<and> (length m < 1024 \<or> 0 \<in> set m)"
  shows "echo_main (Ok lfd) (Ok ()) (Ok ()) (Ok cfd) (map Ok msgs @ [Ok []]) =
      Some (Return (map (map toupper) msgs)) \<and>
    (length data = 1024 \<and> 0 \<notin> set data \<longrightarrow>
      echo_main (Ok lfd) (Ok ()) (Ok ()) (Ok cfd) (map Ok msgs @ Ok data # rs) = Some Fault)"
proof -
  have "length data = 1024 \<Longrightarrow> data \<noteq> []" by auto
  then show ?thesis
    using echo_loop_messages [OF assms] echo_message_Fault [of data] by (simp add: echo_main_def)
qed

theorem echo_session_witness:
  "echo_main (Ok 3) (Ok ()) (Ok ()) (Ok 4) [Ok [104, 105, 33], Ok []] = Some (Return [[72, 73, 33]]) \<and>
    echo_main (Ok 3) (Ok ()) (Ok ()) (Ok 4) [Ok [104, 105, 33], Ok (replicate 1024 65)] = Some Fault"
  using echo_session [of "[[104, 105, 33]]" 3 4 "replicate 1024 65" "[]"] by (simp add: toupper_def)

text \<open>C22: client and server agree. When \<open>fgets\<close> stores a line without a zero byte, the client passes exactly
  that line to \<open>write\<close>; if \<open>write\<close> takes its first \<open>n\<close> bytes, less than 1024, and they and the
  server's answer each arrive in one piece, the client shows these in capitals and the rest of the
  line as it was typed; so the whole line in capitals when \<open>write\<close> takes all of it. The zero that
  ended the line also ends the reply.\<close>

theorem echo_roundtrip:
  assumes "0 \<notin> set l" and "length l < BUF_SIZ" and "0 < n" and "n \<le> length l" and "n < 1024"
  shows "\<exists>received sending reply buf'. echo_message (take n l) = Return (received, sending, reply) \<and>
    client_round (Some l) (Ok n) (Ok reply) buf = Return (l, Go_On buf' (map toupper (take n l) @ drop n l)) \<and>
    (n = length l \<longrightarrow> map toupper (take n l) @ drop n l = map toupper l)"
proof -
  let ?shown = "map toupper (take n l) @ drop n l"
  have stored: "store (map toupper (take n l)) (store (l @ [0]) buf) = store (?shown @ [0]) buf"
    using assms(4) by (simp add: store_def)
  have "0 \<notin> set ?shown"
    using assms(1) nul_upper [of "take n l"] by (auto dest: in_set_takeD in_set_dropD)
  then have "c_string (store (?shown @ [0]) buf) = ?shown" by (rule store_terminated(2))
  moreover have "nul_terminated (store (?shown @ [0]) buf)" by (rule store_terminated(1))
  moreover have "map toupper (take n l) \<noteq> []" using assms(3,4) by auto
  ultimately have "client_round (Some l) (Ok n) (Ok (map toupper (take n l))) buf =
      Return (l, Go_On (store (?shown @ [0]) buf) ?shown)"
    using assms(1,3) stored by (simp add: client_round_def print_s_def store_terminated Let_def)
  moreover have "\<exists>received sending. echo_message (take n l) = Return (received, sending, map toupper (take n l))"
    using echo_message_Return [of "take n l"] assms(4,5) by simp
  moreover have "n = length l \<longrightarrow> ?shown = map toupper l" by simp
  ultimately show ?thesis by blast
qed

theorem echo_roundtrip_witness:
  "\<exists>reply buf'. client_round (Some [104, 105, 10]) (Ok 3) (Ok reply) (replicate BUF_SIZ 7) =
    Return ([104, 105, 10], Go_On buf' [72, 73, 10])"
  using echo_roundtrip [of "[104, 105, 10]" 3 "replicate BUF_SIZ 7"] by (auto simp: toupper_def BUF_SIZ_def)

text \<open>the client does not notice that the server has gone. A \<open>read\<close> of \<open>0\<close> only prints a message; as long
  as \<open>write\<close> does not return \<open>0\<close> the loop goes on, at the end of the input too, when it sends
  the last line again and again.\<close>

lemma client_ignores_eof:
  assumes "\<forall>(line, wr, rd) \<in> set xs. wr \<noteq> Ok 0 \<and> rd = Ok []" and "nul_terminated buf"
  shows "client_loop xs buf = None"
  using assms
proof (induction xs arbitrary: buf)
  case (Cons x xs)
  obtain line wr rd where x: "x = (line, wr, rd)" by (cases x)
  let ?buf = "case line of None \<Rightarrow> buf | Some l \<Rightarrow> store (l @ [0]) buf"
  have "nul_terminated ?buf" using Cons.prems(2) by (cases line) (simp_all add: store_terminated)
  with Cons x show ?case by (simp add: client_round_def print_s_def Let_def)
qed simp

theorem client_ignores_eof_witness:
  "client_loop (replicate 3 (None, Ok 2, Ok [])) [104, 105, 0] = None"
  using client_ignores_eof [of "replicate 3 (None, Ok 2, Ok [])" "[104, 105, 0]"]
  by (simp add: nul_terminated_def)

end
