(* ===== verification/Clients.thy ===== *)
theory Clients imports Echo_Server Thread_Server begin

text \<open>
  What \<open>Echo_Server\<close> leaves out of \<^verbatim>\<open>src/webprogramming/tcpClient.c\<close>: its signals and its start; and
  \<^verbatim>\<open>src/webprogramming/client.c\<close>, a variant of it. The message both send when they are told to stop
  is followed to the worker of \<open>Thread_Server\<close> that receives it.
\<close>

section \<open>The stop message\<close>

text \<open>\<open>write(sfd, "SERVER STOP PASSWORD", sizeof("SERVER STOP PASSWORD"))\<close>: the text and its zero.\<close>

definition bytes_of :: "string \<Rightarrow> byte list" where
  "bytes_of s = map (\<lambda>c. of_nat (of_char c)) s"

definition disconnectServer :: "byte list" where
  "disconnectServer = bytes_of ''SERVER STOP PASSWORD'' @ [0]"

text \<open>
  The worker reads at most \<open>sizeof(buf)\<close>, 64 bytes, into \<open>cont\<close>, which is not initialised: it held
  \<open>old\<close>. \<open>strcmp\<close> and \<open>printf\<close> see the string up to the first zero.
\<close>

definition worker_reads :: "byte list \<Rightarrow> byte list \<Rightarrow> string" where
  "worker_reads data old = map (\<lambda>b. char_of (unat b)) (c_string (store (take 64 data) old))"

lemma char_bytes: "map (\<lambda>b. char_of (unat b)) (bytes_of s) = s"
proof -
  have "char_of (unat (of_nat (of_char c :: nat) :: byte)) = c" for c
    by (simp add: unat_of_nat)
  then show ?thesis by (simp add: bytes_of_def comp_def)
qed

lemma stop_received: "worker_reads disconnectServer old = stop_password"
proof -
  have "length disconnectServer \<le> 64" "0 \<notin> set (bytes_of ''SERVER STOP PASSWORD'')"
    by (code_simp, code_simp)
  then show ?thesis
    by (simp add: worker_reads_def disconnectServer_def store_terminated(2) char_bytes stop_password_def)
qed

section \<open>The signals and the start of the client\<close>

text \<open>\<open>signal\<close> fails for SIGKILL and SIGSTOP; the result is not looked at. Lines 26 to 29.\<close>

definition catchable :: "nat \<Rightarrow> bool" where
  "catchable signo \<longleftrightarrow> signo \<noteq> 9 \<and> signo \<noteq> 19"

definition client_handlers :: "nat list" where
  "client_handlers = filter catchable [9, 19, 20, 3]"

text \<open>\<open>socket\<close>, \<open>connect\<close>, and the loop of \<open>Echo_Server\<close>.\<close>

definition tcp_client_main :: "int sysres \<Rightarrow> unit sysres \<Rightarrow>
    (byte list option \<times> nat sysres \<times> byte list sysres) list \<Rightarrow> byte list \<Rightarrow> unit outcome option" where
  "tcp_client_main sock conn rounds buf =
     (case sock of Err e \<Rightarrow> Some (Exit EXIT_FAILURE)
      | Ok sfd \<Rightarrow> if sfd < 0 then Some (Exit EXIT_FAILURE)
          else (case conn of Err e \<Rightarrow> Some (Exit EXIT_FAILURE) | Ok u \<Rightarrow> client_loop rounds buf))"

section \<open>The plain client\<close>

text \<open>
  \<^verbatim>\<open>client.c\<close>. \<open>inet_pton\<close> is given the value of the uninitialised \<open>s_addr\<close> as the address to write to;
  \<open>writable\<close> says whether that value happens to be one. The results of \<open>socket\<close>, \<open>connect\<close> and
  \<open>write\<close> are not looked at. Every branch after \<open>read\<close> leaves the loop or passes a pointer to \<open>%d\<close>,
  so there is at most one round.
\<close>

definition plain_round :: "byte list option \<Rightarrow> byte list sysres \<Rightarrow> byte list \<Rightarrow> byte list outcome" where
  "plain_round line rd buf =
     (let buf = (case line of None \<Rightarrow> buf | Some l \<Rightarrow> store (l @ [0]) buf) in
      and_then (print_s buf) (\<lambda>sent.
        case rd of
          Err e \<Rightarrow> Return sent
        | Ok data \<Rightarrow> if data = [] then Return sent else Fault))"

definition plain_main :: "bool \<Rightarrow> byte list option \<Rightarrow> byte list sysres \<Rightarrow> byte list \<Rightarrow> byte list outcome" where
  "plain_main writable line rd buf = (if \<not> writable then Fault else plain_round line rd buf)"

text \<open>The program never shows a reply.\<close>

lemma plain_reply_undefined: "data \<noteq> [] \<Longrightarrow> plain_main writable line (Ok data) buf = Fault"
proof -
  assume "data \<noteq> []"
  then have "plain_round line (Ok data) buf = Fault"
    by (cases "print_s (case line of None \<Rightarrow> buf | Some l \<Rightarrow> store (l @ [0]) buf)")
      (simp_all add: plain_round_def Let_def print_s_def split: if_split_asm)
  then show ?thesis by (simp add: plain_main_def)
qed

section \<open>Properties\<close>

text \<open>C37: The stop message ends the worker that receives it in one piece, and nothing else: whatever the
  worker's array held before, it takes the message for the stop password, goes on to clear its slot
  and to end, and sends no answer; but the connection is left open, as it is not when the client
  disconnects, and \<open>main\<close> goes on.\<close>

theorem stop_message_ends_worker:
  assumes "k < length (threads s)" "threads s ! k = (i, R_Read)" "s_pc s \<noteq> S_Exited" "i < length (socks s)"
  shows "\<exists>t. run_schedule (\<lambda>a. serve_step k a) [Received (Some (worker_reads disconnectServer old)), Go, Go] s = Some t \<and>
    threads t ! k = (i, R_Ended) \<and> slot_on (socks t ! i) = 0 \<and> open_cfds t = open_cfds s \<and> s_pc t = s_pc s"
  using assms by (simp add: stop_received serve_step_def set_thread_def set_sock_def)

theorem stop_message_ends_worker_witness:
  "\<exists>t. run_schedule (\<lambda>a. serve_step 0 a) [Received (Some (worker_reads disconnectServer [104, 105])), Go, Go]
     \<lparr>socks = [\<lparr>slot_on = 1, slot_cfd = 4\<rparr>], s_pc = S_Accept, s_i = 1, threads = [(0, R_Read)], open_cfds = {3, 4}\<rparr> = Some t \<and>
     open_cfds t = {3, 4} \<and> threads t ! 0 = (0, R_Ended)"
  using stop_message_ends_worker [of 0 "\<lparr>socks = [\<lparr>slot_on = 1, slot_cfd = 4\<rparr>], s_pc = S_Accept, s_i = 1,
      threads = [(0, R_Read)], open_cfds = {3, 4}\<rparr>" 0 "[104, 105]"]
  by auto

end
