(* ===== verification/C_Text.thy ===== *)
theory C_Text imports Prelude begin

text \<open>
  Text as the programs read and print it: C strings as lists of characters, decimal numbers, and the
  functions of the C library that read them, \<open>strtol\<close> with its saturation, \<open>atoi\<close> with its
  truncation to an \<open>int\<close>, and \<open>fgets\<close>. The lemmas give the round trip of a printed number.
\<close>

section \<open>Characters\<close>

type_synonym int64 = "64 word"      \<comment> \<open>\<open>long long\<close>, \<open>off_t\<close>\<close>

abbreviation NL :: char where "NL \<equiv> CHR 0x0A"
abbreviation NUL :: char where "NUL \<equiv> CHR 0x00"

definition isspace :: "char \<Rightarrow> bool" where
  "isspace c \<longleftrightarrow> c \<in> {CHR '' '', CHR 0x09, CHR 0x0A, CHR 0x0B, CHR 0x0C, CHR 0x0D}"

definition isdigit :: "char \<Rightarrow> bool" where
  "isdigit c \<longleftrightarrow> 48 \<le> (of_char c :: nat) \<and> (of_char c :: nat) \<le> 57"

definition digit_value :: "char \<Rightarrow> nat" where
  "digit_value c = of_char c - 48"

definition digit_char :: "nat \<Rightarrow> char" where
  "digit_char n = char_of (48 + n)"

lemma of_char_digit: "n < 10 \<Longrightarrow> of_char (digit_char n) = 48 + n"
  by (simp add: digit_char_def)

lemma digit_char [simp]: "n < 10 \<Longrightarrow> isdigit (digit_char n)" "n < 10 \<Longrightarrow> digit_value (digit_char n) = n"
  by (simp_all add: isdigit_def digit_value_def of_char_digit)

lemma digit_not_special:
  "isdigit c \<Longrightarrow> \<not> isspace c \<and> c \<noteq> CHR ''-'' \<and> c \<noteq> CHR ''+'' \<and> c \<noteq> NL \<and> c \<noteq> NUL"
  by (auto simp: isdigit_def isspace_def)

section \<open>Decimal numbers\<close>

fun show_nat :: "nat \<Rightarrow> string" where
  "show_nat n = (if n < 10 then [digit_char n] else show_nat (n div 10) @ [digit_char (n mod 10)])"

declare show_nat.simps [simp del]

definition show_int :: "int \<Rightarrow> string" where
  "show_int i = (if i < 0 then CHR ''-'' # show_nat (nat (- i)) else show_nat (nat i))"

definition digits_value :: "string \<Rightarrow> nat" where
  "digits_value ds = foldl (\<lambda>v c. 10 * v + digit_value c) 0 ds"

lemma show_nat_digits: "list_all isdigit (show_nat n)" "show_nat n \<noteq> []"
  by (induction n rule: show_nat.induct) (subst show_nat.simps; simp)+

lemma digits_value_show: "digits_value (show_nat n) = n"
proof (induction n rule: show_nat.induct)
  case (1 n)
  then show ?case by (subst show_nat.simps) (auto simp: digits_value_def)
qed

lemma length_show_nat: "n < 10 ^ k \<Longrightarrow> length (show_nat n) \<le> max 1 k"
proof (induction n arbitrary: k rule: show_nat.induct)
  case (1 n)
  show ?case
  proof (cases "n < 10")
    case False
    with 1 obtain j where k: "k = Suc j" by (cases k) auto
    with False 1 have "n div 10 < 10 ^ j" by (simp add: less_mult_imp_div_less mult.commute)
    moreover from this False have "j \<noteq> 0" by (cases j) auto
    ultimately show ?thesis using 1(1) [OF False, of j] False k by (subst show_nat.simps) auto
  qed (simp add: show_nat.simps)
qed

lemma takeWhile_digits:
  "list_all isdigit ds \<Longrightarrow> rest = [] \<or> \<not> isdigit (hd rest) \<Longrightarrow>
   takeWhile isdigit (ds @ rest) = ds \<and> dropWhile isdigit (ds @ rest) = rest"
  by (cases rest) (auto simp: list_all_iff takeWhile_append dropWhile_append)

section \<open>Reading numbers\<close>

text \<open>
  A sign and at least one digit, as \<open>strtoll\<close> and \<open>sscanf("%lld")\<close> read them after the white space;
  the value is clamped to 64 bits, as the GNU library does.
\<close>

definition clamp64 :: "int \<Rightarrow> int" where
  "clamp64 i = max (- (2 ^ 63)) (min (2 ^ 63 - 1) i)"

definition scan_unsigned :: "string \<Rightarrow> (nat \<times> string) option" where
  "scan_unsigned s = (case takeWhile isdigit s of [] \<Rightarrow> None
     | ds \<Rightarrow> Some (digits_value ds, dropWhile isdigit s))"

fun scan_signed :: "string \<Rightarrow> (int \<times> string) option" where
  "scan_signed (c # s) =
     (if c = CHR ''-'' then map_option (\<lambda>(n, r). (clamp64 (- int n), r)) (scan_unsigned s)
      else if c = CHR ''+'' then map_option (\<lambda>(n, r). (clamp64 (int n), r)) (scan_unsigned s)
      else map_option (\<lambda>(n, r). (clamp64 (int n), r)) (scan_unsigned (c # s)))"
| "scan_signed [] = None"

definition strtol :: "string \<Rightarrow> int" where
  "strtol s = (case scan_signed (dropWhile isspace s) of None \<Rightarrow> 0 | Some (i, r) \<Rightarrow> i)"

text \<open>\<open>atoi\<close> is \<open>(int) strtol(s, NULL, 10)\<close>.\<close>

definition atoi :: "string \<Rightarrow> int32" where
  "atoi s = word_of_int (strtol s)"

lemma clamp64_id: "- (2 ^ 63) \<le> i \<Longrightarrow> i < 2 ^ 63 \<Longrightarrow> clamp64 i = i"
  by (simp add: clamp64_def)

lemma scan_unsigned_show:
  assumes "rest = [] \<or> \<not> isdigit (hd rest)"
  shows "scan_unsigned (show_nat n @ rest) = Some (n, rest)"
  using takeWhile_digits [OF show_nat_digits(1) assms, of n] show_nat_digits(2) [of n] digits_value_show [of n]
  by (cases "show_nat n") (simp_all add: scan_unsigned_def)

lemma hd_show_nat: "isdigit (hd (show_nat n))"
  using show_nat_digits [of n] by (cases "show_nat n") auto

lemma scan_signed_digit: "s \<noteq> [] \<Longrightarrow> isdigit (hd s) \<Longrightarrow>
   scan_signed s = map_option (\<lambda>(n, r). (clamp64 (int n), r)) (scan_unsigned s)"
  using digit_not_special by (cases s) auto

lemma scan_signed_show:
  assumes "- (2 ^ 63) \<le> i" "i < 2 ^ 63" "rest = [] \<or> \<not> isdigit (hd rest)"
  shows "scan_signed (show_int i @ rest) = Some (i, rest)"
proof (cases "i < 0")
  case True
  with assms show ?thesis by (simp add: show_int_def scan_unsigned_show clamp64_id)
next
  case False
  with assms show ?thesis
    by (simp add: show_int_def scan_signed_digit show_nat_digits hd_show_nat scan_unsigned_show clamp64_id)
qed

lemma show_int_no_space: "\<not> isspace (hd (show_int i))" "show_int i \<noteq> []"
  using digit_not_special [OF hd_show_nat [of "nat i"]] show_nat_digits(2)
  by (auto simp: show_int_def isspace_def)

lemma dropWhile_show_int: "dropWhile isspace (show_int i @ rest) = show_int i @ rest"
  using show_int_no_space [of i] by (cases "show_int i") auto

lemma show_int_chars: "c \<in> set (show_int i) \<Longrightarrow> c = CHR ''-'' \<or> isdigit c"
  using show_nat_digits(1) by (auto simp: show_int_def list_all_iff split: if_splits)

lemma show_int_plain: "NUL \<notin> set (show_int i)" "NL \<notin> set (show_int i)"
  using show_int_chars [of NUL i] show_int_chars [of NL i] by (auto simp: isdigit_def)

lemma length_show_int:
  assumes "\<bar>i\<bar> < 10 ^ 19"
  shows "length (show_int i) \<le> 20"
proof (cases "i < 0")
  case True
  with assms length_show_nat [of "nat (- i)" 19] show ?thesis by (simp add: show_int_def)
next
  case False
  with assms have "nat i < 10 ^ 19" by (simp add: nat_less_iff)
  with False length_show_nat [of "nat i" 19] show ?thesis by (simp add: show_int_def)
qed

lemma strtol_show: "- (2 ^ 63) \<le> i \<Longrightarrow> i < 2 ^ 63 \<Longrightarrow> strtol (show_int i) = i"
  using scan_signed_show [of i "[]"] dropWhile_show_int [of i "[]"] by (simp add: strtol_def)

lemma atoi_show:
  assumes "- (2 ^ 63) \<le> i" "i < 2 ^ 63"
  shows "atoi (show_int i) = word_of_int i"
  by (simp only: atoi_def strtol_show [OF assms])

section \<open>Lines\<close>

text \<open>
  \<open>fgets(line, n, stdin)\<close> stores at most \<open>n - 1\<close> characters and stops after a newline; \<open>None\<close> is the
  null pointer at the end of the input. A C string ends at its first zero.
\<close>

fun take_line :: "nat \<Rightarrow> string \<Rightarrow> string \<times> string" where
  "take_line 0 s = ([], s)"
| "take_line (Suc n) [] = ([], [])"
| "take_line (Suc n) (c # s) = (if c = NL then ([c], s) else let (l, r) = take_line n s in (c # l, r))"

definition fgets :: "nat \<Rightarrow> string \<Rightarrow> (string \<times> string) option" where
  "fgets n s = (if s = [] then None else Some (take_line (n - 1) s))"

definition c_str :: "string \<Rightarrow> string" where
  "c_str s = takeWhile (\<lambda>c. c \<noteq> NUL) s"

lemma take_line_line: "NL \<notin> set l \<Longrightarrow> length l < n \<Longrightarrow> take_line n (l @ NL # rest) = (l @ [NL], rest)"
proof (induction l arbitrary: n)
  case Nil
  then show ?case by (cases n) auto
next
  case (Cons c l)
  then obtain m where "n = Suc m" by (cases n) auto
  with Cons show ?case by auto
qed

lemma fgets_line: "NL \<notin> set l \<Longrightarrow> length l + 1 < n \<Longrightarrow> fgets n (l @ NL # rest) = Some (l @ [NL], rest)"
  by (simp add: fgets_def take_line_line)

lemma take_line_append: "take_line n s = (l, r) \<Longrightarrow> s = l @ r"
  by (induction n s arbitrary: l r rule: take_line.induct) (auto split: if_splits prod.splits)

lemma take_line_nonempty: "take_line (Suc n) s = (l, r) \<Longrightarrow> s \<noteq> [] \<Longrightarrow> l \<noteq> []"
  by (cases s) (auto split: if_splits prod.splits)

lemma fgets_shorter: "fgets n s = Some (l, r) \<Longrightarrow> 1 < n \<Longrightarrow> length r < length s"
  using take_line_append [of "n - 1" s l r] take_line_nonempty [of "n - 2" s l r]
  by (cases n; cases "n - 1") (auto simp: fgets_def split: if_splits)

lemma c_str_id: "NUL \<notin> set s \<Longrightarrow> c_str s = s"
  by (auto simp: c_str_def takeWhile_eq_all_conv)

end
