(* ===== verification/Record_Locks.thy ===== *)
theory Record_Locks imports C_Text begin

text \<open>
  POSIX record locks, as \<open>fcntl\<close> offers them to \<^verbatim>\<open>src/t_fcntl_locking.c\<close>, \<^verbatim>\<open>src/i_fcntl_locking.c\<close> and
  \<^verbatim>\<open>src/file_lock.c\<close>: \<open>struct flock\<close>, the range of bytes it names, and the table of locks the kernel
  keeps for a file. The locale \<open>lock_manager\<close> states what the documentation of \<open>fcntl(2)\<close> promises,
  with what its clients conclude from it; the table interprets it.
\<close>

section \<open>The call\<close>

datatype lock_cmd = F_GETLK | F_SETLK | F_SETLKW
datatype lock_type = F_RDLCK | F_WRLCK | F_UNLCK
datatype whence = SEEK_SET | SEEK_CUR | SEEK_END

record flock =
  l_type :: lock_type
  l_whence :: whence
  l_start :: int64
  l_len :: int64
  l_pid :: nat

definition OFFSET_MAX :: int where "OFFSET_MAX = 2 ^ 63 - 1"

text \<open>
  The first and last byte that a \<open>flock\<close> names in a file of \<open>sz\<close> bytes whose offset is still 0. A
  length of 0 reaches to the end of every file, a negative one lies before the start.
\<close>

definition base :: "int \<Rightarrow> whence \<Rightarrow> int" where
  "base sz w = (case w of SEEK_SET \<Rightarrow> 0 | SEEK_CUR \<Rightarrow> 0 | SEEK_END \<Rightarrow> sz)"

definition extent :: "int \<Rightarrow> flock \<Rightarrow> (int \<times> int) sysres" where
  "extent sz fl =
     (let start = base sz (l_whence fl) + sint (l_start fl); len = sint (l_len fl) in
      if OFFSET_MAX < start then Err EOVERFLOW
      else if start < 0 then Err EINVAL
      else if 0 < len then if OFFSET_MAX < start + len - 1 then Err EOVERFLOW else Ok (start, start + len - 1)
      else if len < 0 then if start + len < 0 then Err EINVAL else Ok (start + len, start - 1)
      else Ok (start, OFFSET_MAX))"

definition names :: "int \<Rightarrow> flock \<Rightarrow> int \<Rightarrow> bool" where
  "names sz fl b = (case extent sz fl of Ok (a, z) \<Rightarrow> a \<le> b \<and> b \<le> z | Err e \<Rightarrow> False)"

definition grant :: "lock_type \<Rightarrow> lock_type option" where
  "grant ty = (if ty = F_UNLCK then None else Some ty)"

text \<open>What two processes may hold on the same byte.\<close>

definition compatible :: "lock_type option \<Rightarrow> lock_type option \<Rightarrow> bool" where
  "compatible x y \<longleftrightarrow> x = None \<or> y = None \<or> x \<noteq> Some F_WRLCK \<and> y \<noteq> Some F_WRLCK"

definition no_clash :: "(nat \<Rightarrow> int \<Rightarrow> lock_type option) \<Rightarrow> bool" where
  "no_clash h \<longleftrightarrow> (\<forall>p q b. p \<noteq> q \<longrightarrow> compatible (h p b) (h q b))"

lemma compatible_sym: "compatible x y \<longleftrightarrow> compatible y x"
  by (auto simp: compatible_def)

lemma extent_nonempty: "extent sz fl = Ok (a, z) \<Longrightarrow> a \<le> z \<and> 0 \<le> a \<and> z \<le> OFFSET_MAX"
  by (auto simp: extent_def Let_def split: if_splits)

section \<open>What a lock manager promises\<close>

text \<open>
  \<open>call sz tab p cmd fl\<close> is process \<open>p\<close>'s \<open>fcntl\<close>: the new table with the answer, or \<open>None\<close> while
  the caller waits; \<open>exit_of tab p\<close> is the table when \<open>p\<close> has ended. \<open>held tab p b\<close> is the lock \<open>p\<close>
  has on byte \<open>b\<close>.
\<close>

locale lock_manager =
  fixes call :: "int \<Rightarrow> 'tab \<Rightarrow> nat \<Rightarrow> lock_cmd \<Rightarrow> flock \<Rightarrow> ('tab \<times> flock sysres) option"
    and exit_of :: "'tab \<Rightarrow> nat \<Rightarrow> 'tab"
    and held :: "'tab \<Rightarrow> nat \<Rightarrow> int \<Rightarrow> lock_type option"
  assumes call_getlk: "call sz tab p F_GETLK fl = Some (tab', r) \<Longrightarrow> tab' = tab"
    and call_error: "call sz tab p cmd fl = Some (tab', Err e) \<Longrightarrow> tab' = tab"
    and call_sets: "cmd \<noteq> F_GETLK \<Longrightarrow> call sz tab p cmd fl = Some (tab', Ok fl') \<Longrightarrow>
      held tab' q b = (if q = p \<and> names sz fl b then grant (l_type fl) else held tab q b)"
    and call_compatible: "cmd \<noteq> F_GETLK \<Longrightarrow> call sz tab p cmd fl = Some (tab', Ok fl') \<Longrightarrow>
      names sz fl b \<Longrightarrow> q \<noteq> p \<Longrightarrow> compatible (grant (l_type fl)) (held tab q b)"
    and exit_releases: "held (exit_of tab p) q b = (if q = p then None else held tab q b)"
begin

lemma call_keeps_others: "call sz tab p cmd fl = Some (tab', r) \<Longrightarrow> q \<noteq> p \<Longrightarrow> held tab' q b = held tab q b"
  by (cases "cmd = F_GETLK"; cases r) (auto dest: call_getlk call_error simp: call_sets)

lemma call_no_clash:
  assumes "no_clash (held tab)" and "call sz tab p cmd fl = Some (tab', r)"
  shows "no_clash (held tab')"
proof (cases "cmd = F_GETLK \<or> (\<exists>e. r = Err e)")
  case True
  with assms call_getlk call_error show ?thesis by metis
next
  case False
  then obtain fl' where r: "cmd \<noteq> F_GETLK" "r = Ok fl'" by (cases r) auto
  have own: "compatible (held tab' p b) (held tab' q b)" if "q \<noteq> p" for q b
    using assms that call_sets [OF r(1) assms(2) [unfolded r(2)], of _ b]
      call_compatible [OF r(1) assms(2) [unfolded r(2)] _ that, of b]
    by (auto simp: no_clash_def)
  show ?thesis
    unfolding no_clash_def
  proof (intro allI impI)
    fix q q' :: nat and b
    assume "q \<noteq> q'"
    consider "q = p" | "q' = p" | "q \<noteq> p" "q' \<noteq> p" by blast
    then show "compatible (held tab' q b) (held tab' q' b)"
    proof cases
      case 3
      with assms \<open>q \<noteq> q'\<close> show ?thesis by (simp add: call_keeps_others no_clash_def)
    qed (use own \<open>q \<noteq> q'\<close> in \<open>auto simp: compatible_sym [of "held tab' q b"]\<close>)
  qed
qed

lemma exit_no_clash: "no_clash (held tab) \<Longrightarrow> no_clash (held (exit_of tab p))"
  by (auto simp: no_clash_def exit_releases compatible_def)

end

section \<open>The table of the kernel\<close>

record rlock =
  lk_owner :: nat
  lk_type :: lock_type
  lk_first :: int
  lk_last :: int

definition covers :: "rlock \<Rightarrow> int \<Rightarrow> bool" where
  "covers k b \<longleftrightarrow> lk_first k \<le> b \<and> b \<le> lk_last k"

definition table_held :: "rlock list \<Rightarrow> nat \<Rightarrow> int \<Rightarrow> lock_type option" where
  "table_held tab p b = map_option lk_type (find (\<lambda>k. lk_owner k = p \<and> covers k b) tab)"

text \<open>The locks that keep \<open>p\<close> from one of type \<open>ty\<close> on the bytes \<open>a\<close> to \<open>z\<close>.\<close>

definition blockers :: "rlock list \<Rightarrow> nat \<Rightarrow> lock_type \<Rightarrow> int \<Rightarrow> int \<Rightarrow> rlock list" where
  "blockers tab p ty a z = filter (\<lambda>k. lk_owner k \<noteq> p \<and> lk_first k \<le> z \<and> a \<le> lk_last k \<and>
     ty \<noteq> F_UNLCK \<and> (ty = F_WRLCK \<or> lk_type k = F_WRLCK)) tab"

text \<open>What is left of a lock when its owner sets \<open>a\<close> to \<open>z\<close> anew, and the table after that.\<close>

definition cut_out :: "nat \<Rightarrow> int \<Rightarrow> int \<Rightarrow> rlock \<Rightarrow> rlock list" where
  "cut_out p a z k = (if lk_owner k \<noteq> p \<or> lk_last k < a \<or> z < lk_first k then [k]
     else (if lk_first k < a then [k\<lparr>lk_last := a - 1\<rparr>] else []) @
          (if z < lk_last k then [k\<lparr>lk_first := z + 1\<rparr>] else []))"

definition set_range :: "nat \<Rightarrow> lock_type \<Rightarrow> int \<Rightarrow> int \<Rightarrow> rlock list \<Rightarrow> rlock list" where
  "set_range p ty a z tab =
     (if ty = F_UNLCK then [] else [\<lparr>lk_owner = p, lk_type = ty, lk_first = a, lk_last = z\<rparr>]) @
     concat (map (cut_out p a z) tab)"

definition describe :: "rlock \<Rightarrow> flock" where
  "describe k = \<lparr>l_type = lk_type k, l_whence = SEEK_SET, l_start = word_of_int (lk_first k),
     l_len = (if lk_last k = OFFSET_MAX then 0 else word_of_int (lk_last k - lk_first k + 1)),
     l_pid = lk_owner k\<rparr>"

text \<open>
  \<open>F_GETLK\<close> reports a lock that is in the way, or the type \<open>F_UNLCK\<close>; \<open>F_SETLK\<close> answers \<open>EAGAIN\<close>
  where \<open>F_SETLKW\<close> waits.
\<close>

definition fcntl_lock :: "int \<Rightarrow> rlock list \<Rightarrow> nat \<Rightarrow> lock_cmd \<Rightarrow> flock \<Rightarrow> (rlock list \<times> flock sysres) option" where
  "fcntl_lock sz tab p cmd fl =
     (case extent sz fl of
        Err e \<Rightarrow> Some (tab, Err e)
      | Ok (a, z) \<Rightarrow>
          (case cmd of
             F_GETLK \<Rightarrow>
               if l_type fl = F_UNLCK then Some (tab, Err EINVAL)
               else (case blockers tab p (l_type fl) a z of
                 [] \<Rightarrow> Some (tab, Ok (fl\<lparr>l_type := F_UNLCK\<rparr>))
               | k # ks \<Rightarrow> Some (tab, Ok (describe k)))
           | F_SETLK \<Rightarrow>
               if blockers tab p (l_type fl) a z = [] then Some (set_range p (l_type fl) a z tab, Ok fl)
               else Some (tab, Err EAGAIN)
           | F_SETLKW \<Rightarrow>
               if blockers tab p (l_type fl) a z = [] then Some (set_range p (l_type fl) a z tab, Ok fl)
               else None))"

definition release_all :: "rlock list \<Rightarrow> nat \<Rightarrow> rlock list" where
  "release_all tab p = filter (\<lambda>k. lk_owner k \<noteq> p) tab"

lemma table_held_Nil [simp]: "table_held [] p b = None"
  by (simp add: table_held_def)

lemma table_held_Cons:
  "table_held (k # tab) p b = (if lk_owner k = p \<and> covers k b then Some (lk_type k) else table_held tab p b)"
  by (simp add: table_held_def)

lemma table_held_append:
  "table_held (xs @ ys) p b = (case table_held xs p b of None \<Rightarrow> table_held ys p b | Some t \<Rightarrow> Some t)"
  by (induction xs) (simp_all add: table_held_Cons)

lemma table_held_cut_out:
  assumes "a \<le> z"
  shows "table_held (cut_out p a z k) q b =
    (if lk_owner k = q \<and> covers k b \<and> \<not> (q = p \<and> a \<le> b \<and> b \<le> z) then Some (lk_type k) else None)"
proof (cases "lk_owner k \<noteq> p \<or> lk_last k < a \<or> z < lk_first k")
  case True
  then show ?thesis by (auto simp: cut_out_def table_held_Cons covers_def)
next
  case False
  have "table_held (cut_out p a z k) q b =
    (if q = p \<and> (lk_first k \<le> b \<and> b < a \<or> z < b \<and> b \<le> lk_last k) then Some (lk_type k) else None)"
    using False assms
    by (cases "lk_first k < a"; cases "z < lk_last k") (simp_all add: cut_out_def table_held_Cons covers_def)
  with False assms show ?thesis by (auto simp: covers_def)
qed

lemma table_held_cuts:
  assumes "a \<le> z"
  shows "table_held (concat (map (cut_out p a z) tab)) q b =
    (if q = p \<and> a \<le> b \<and> b \<le> z then None else table_held tab q b)"
proof (induction tab)
  case (Cons k tab)
  have "table_held (concat (map (cut_out p a z) (k # tab))) q b =
    (case table_held (cut_out p a z k) q b of None \<Rightarrow> table_held (concat (map (cut_out p a z) tab)) q b
     | Some t \<Rightarrow> Some t)"
    by (simp add: table_held_append)
  then show ?case
    by (simp only: Cons table_held_cut_out [OF assms] table_held_Cons split: if_split option.split) auto
qed simp

lemma table_held_set_range:
  assumes "a \<le> z"
  shows "table_held (set_range p ty a z tab) q b =
    (if q = p \<and> a \<le> b \<and> b \<le> z then grant ty else table_held tab q b)"
  by (simp add: set_range_def table_held_append table_held_Cons table_held_cuts [OF assms] covers_def grant_def)

lemma table_held_release: "table_held (release_all tab p) q b = (if q = p then None else table_held tab q b)"
  by (induction tab) (auto simp: release_all_def table_held_Cons)

lemma table_heldD: "table_held tab p b = Some t \<Longrightarrow> \<exists>k \<in> set tab. lk_owner k = p \<and> covers k b \<and> lk_type k = t"
  by (induction tab) (auto simp: table_held_Cons split: if_splits)

lemma blockers_empty:
  assumes "blockers tab p ty a z = []" and "a \<le> b" "b \<le> z" and "q \<noteq> p"
  shows "compatible (grant ty) (table_held tab q b)"
proof (cases "table_held tab q b")
  case (Some t)
  then obtain k where "k \<in> set tab" "lk_owner k = q" "covers k b" "lk_type k = t" by (blast dest: table_heldD)
  with assms have "ty = F_UNLCK \<or> ty \<noteq> F_WRLCK \<and> t \<noteq> F_WRLCK"
    by (auto simp: blockers_def filter_empty_conv covers_def)
  with Some show ?thesis by (auto simp: compatible_def grant_def)
qed (simp add: compatible_def)

lemma fcntl_set_cases:
  assumes "fcntl_lock sz tab p cmd fl = Some (tab', Ok fl')" and "cmd \<noteq> F_GETLK"
  obtains a z where "extent sz fl = Ok (a, z)" "a \<le> z" "blockers tab p (l_type fl) a z = []"
    "tab' = set_range p (l_type fl) a z tab" "fl' = fl"
proof (cases "extent sz fl")
  case (Ok r)
  with assms have "blockers tab p (l_type fl) (fst r) (snd r) = []"
    "tab' = set_range p (l_type fl) (fst r) (snd r) tab" "fl' = fl"
    by (cases cmd; cases r; simp add: fcntl_lock_def split: if_split_asm)+
  with Ok extent_nonempty [of sz fl "fst r" "snd r"] show ?thesis
    by (intro that [of "fst r" "snd r"]) simp_all
qed (use assms in \<open>simp add: fcntl_lock_def\<close>)

lemma fcntl_keeps:
  "fcntl_lock sz tab p F_GETLK fl = Some (tab', r) \<Longrightarrow> tab' = tab"
  "fcntl_lock sz tab p cmd fl = Some (tab', Err e) \<Longrightarrow> tab' = tab"
  by (cases cmd; auto simp: fcntl_lock_def split: sysres.splits prod.splits if_splits list.splits)+

lemma fcntl_sets:
  assumes "cmd \<noteq> F_GETLK" and "fcntl_lock sz tab p cmd fl = Some (tab', Ok fl')"
  shows "table_held tab' q b = (if q = p \<and> names sz fl b then grant (l_type fl) else table_held tab q b)"
  using assms by (auto elim!: fcntl_set_cases simp: names_def table_held_set_range)

lemma fcntl_compatible:
  assumes "cmd \<noteq> F_GETLK" and "fcntl_lock sz tab p cmd fl = Some (tab', Ok fl')" and "names sz fl b" "q \<noteq> p"
  shows "compatible (grant (l_type fl)) (table_held tab q b)"
  using assms by (auto elim!: fcntl_set_cases simp: names_def intro: blockers_empty)

interpretation kernel_locks: lock_manager fcntl_lock release_all table_held
  by unfold_locales (rule fcntl_keeps fcntl_sets fcntl_compatible table_held_release; assumption?)+

text \<open>A wait of \<open>F_SETLKW\<close>, and the only call that waits.\<close>

lemma fcntl_waits: "fcntl_lock sz tab p cmd fl = None \<longleftrightarrow>
    cmd = F_SETLKW \<and> (\<exists>a z. extent sz fl = Ok (a, z) \<and> blockers tab p (l_type fl) a z \<noteq> [])"
  by (cases cmd) (auto simp: fcntl_lock_def split: sysres.split prod.split list.split)

text \<open>Removing a lock never conflicts.\<close>

lemma extent_error: "extent sz fl = Err e \<Longrightarrow> e = EOVERFLOW \<or> e = EINVAL"
  by (auto simp: extent_def Let_def split: if_splits)

lemma unlock_error:
  assumes "l_type fl = F_UNLCK" "map_option snd (fcntl_lock sz tab p cmd fl) = Some (Err e)"
  shows "e = EOVERFLOW \<or> e = EINVAL"
proof (cases "extent sz fl")
  case (Ok r)
  with assms show ?thesis by (cases cmd; cases r) (simp_all add: fcntl_lock_def blockers_def)
next
  case (Err x)
  with assms extent_error [OF Err] show ?thesis by (simp add: fcntl_lock_def)
qed

text \<open>The table holds read and write locks only, on bytes that exist.\<close>

definition table_ok :: "rlock list \<Rightarrow> bool" where
  "table_ok tab \<longleftrightarrow> list_all (\<lambda>k. lk_type k \<noteq> F_UNLCK \<and> lk_first k \<le> lk_last k) tab"

lemma table_ok_Nil [simp]: "table_ok []"
  by (simp add: table_ok_def)

lemma cut_out_ok: "lk_type k \<noteq> F_UNLCK \<Longrightarrow> lk_first k \<le> lk_last k \<Longrightarrow> table_ok (cut_out p a z k)"
  by (simp add: table_ok_def cut_out_def)

lemma table_ok_append: "table_ok (xs @ ys) \<longleftrightarrow> table_ok xs \<and> table_ok ys"
  by (simp add: table_ok_def)

lemma table_ok_Cons: "table_ok (k # tab) \<longleftrightarrow> lk_type k \<noteq> F_UNLCK \<and> lk_first k \<le> lk_last k \<and> table_ok tab"
  by (simp add: table_ok_def)

lemma set_range_ok:
  assumes "table_ok tab" "a \<le> z"
  shows "table_ok (set_range p ty a z tab)"
proof -
  have "table_ok (concat (map (cut_out p a z) tab))"
    using assms(1) by (induction tab) (simp_all add: table_ok_append table_ok_Cons cut_out_ok)
  with assms(2) show ?thesis by (simp add: set_range_def table_ok_append table_ok_Cons)
qed

lemma fcntl_ok:
  assumes "table_ok tab" "fcntl_lock sz tab p cmd fl = Some (tab', r)"
  shows "table_ok tab'"
proof (cases "cmd = F_GETLK \<or> (\<exists>e. r = Err e)")
  case True
  with assms fcntl_keeps show ?thesis by metis
next
  case False
  then obtain fl' where "r = Ok fl'" "cmd \<noteq> F_GETLK" by (cases r) auto
  with assms show ?thesis by (auto elim!: fcntl_set_cases simp: set_range_ok)
qed

lemma release_ok: "table_ok tab \<Longrightarrow> table_ok (release_all tab p)"
  by (auto simp: table_ok_def release_all_def list_all_iff)

end
