(* ===== verification/Lock_Programs.thy ===== *)
theory Lock_Programs imports Record_Locks begin

text \<open>
  The three programs on record locks: \<^verbatim>\<open>src/t_fcntl_locking.c\<close> takes one request from its arguments,
  \<^verbatim>\<open>src/i_fcntl_locking.c\<close> reads one request per line, \<^verbatim>\<open>src/file_lock.c\<close> locks a whole file. Each
  is a function of what it reads and of the answers of \<open>open\<close> and \<open>fcntl\<close>, where \<open>None\<close> stands for a
  call that does not return.
\<close>

section \<open>One request from the arguments\<close>

definition t_cmd :: "string \<Rightarrow> lock_cmd option" where
  "t_cmd s = (if s = ''F_SETLK'' then Some F_SETLK else if s = ''F_SETLKW'' then Some F_SETLKW
     else if s = ''F_GETLK'' then Some F_GETLK else None)"

definition t_type :: "string \<Rightarrow> lock_type option" where
  "t_type s = (if s = ''F_RDLCK'' then Some F_RDLCK else if s = ''F_WRLCK'' then Some F_WRLCK
     else if s = ''F_UNLCK'' then Some F_UNLCK else None)"

definition t_whence :: "string \<Rightarrow> whence option" where
  "t_whence s = (if s = ''SEEK_SET'' then Some SEEK_SET else if s = ''SEEK_CUR'' then Some SEEK_CUR
     else if s = ''SEEK_END'' then Some SEEK_END else None)"

text \<open>The checks of lines 33 to 61 and the \<open>flock\<close> they lead to; \<open>Inl\<close> is the message of \<open>errExit\<close>.\<close>

definition t_request :: "string \<Rightarrow> string \<Rightarrow> string \<Rightarrow> string \<Rightarrow> string \<Rightarrow> string + lock_cmd \<times> flock" where
  "t_request a1 a2 a3 a4 a5 =
     (case t_cmd a1 of None \<Rightarrow> Inl ''Invalid cmd'' | Some cmd \<Rightarrow>
      case t_type a2 of None \<Rightarrow> Inl ''Invalid type'' | Some ty \<Rightarrow>
      case t_whence a3 of None \<Rightarrow> Inl ''Invalid Whence'' | Some wh \<Rightarrow>
      if sint (atoi a4) < 0 \<and> wh = SEEK_SET then Inl ''l_whence == SEEK_SET, so make sure start >= 0''
      else if sint (atoi a5) < 0 then Inl ''Invalid len''
      else Inr (cmd, \<lparr>l_type = ty, l_whence = wh, l_start = scast (atoi a4), l_len = scast (atoi a5), l_pid = 0\<rparr>))"

text \<open>
  How \<open>main\<close> goes on: \<open>errExit\<close> or \<open>exit(EXIT_FAILURE)\<close> after a report, or a report and then the
  loop that prints once a second for ever. \<open>Waits\<close>: inside \<open>fcntl\<close>.
\<close>

datatype t_report = Can_Be_Placed | Denied_By nat bool int64 int64 | Read_Failed | Write_Failed | Locked | Unlocked
datatype t_end = ErrExit string | Failed t_report | Running t_report | Waits

definition t_answer :: "lock_cmd \<Rightarrow> lock_type \<Rightarrow> flock sysres \<Rightarrow> t_end" where
  "t_answer cmd ty status =
     (if cmd = F_GETLK then
        (case status of
           Err e \<Rightarrow> ErrExit ''Invalid fcntl-F_GETLK''
         | Ok fl \<Rightarrow> if l_type fl = F_UNLCK then Running Can_Be_Placed
             else Running (Denied_By (l_pid fl) (l_type fl = F_RDLCK) (l_start fl) (l_len fl)))
      else
        (case status of
           Err e \<Rightarrow>
             if ty = F_RDLCK then Failed Read_Failed
             else if ty = F_WRLCK then Failed Write_Failed
             else if e = EAGAIN \<or> e = EACCES then ErrExit ''EAGAIN || EACCESS''
             else if e = EDEADLOCK then ErrExit ''DEADLOCK''
             else ErrExit ''fcntl-FSETLK(W)''
         | Ok fl \<Rightarrow> Running (if ty = F_UNLCK then Unlocked else Locked)))"

fun t_main :: "string list \<Rightarrow> int \<Rightarrow> (lock_cmd \<Rightarrow> flock \<Rightarrow> flock sysres option) \<Rightarrow> t_end" where
  "t_main [a0, a1, a2, a3, a4, a5] fd fcntl =
     (if fd = - 1 then ErrExit ''open()''
      else case t_request a1 a2 a3 a4 a5 of
        Inl arg \<Rightarrow> ErrExit arg
      | Inr (cmd, flk) \<Rightarrow>
          (case fcntl cmd flk of None \<Rightarrow> Waits | Some status \<Rightarrow> t_answer cmd (l_type flk) status))"
| "t_main argv fd fcntl = ErrExit ''./app cmd l_type l_whence l_start l_len''"

section \<open>One request per line\<close>

definition MAX_LINE :: nat where "MAX_LINE = 100"

text \<open>
  \<open>line[strlen(line) - 1] = '\0'\<close>, which writes before the array when the line starts with a zero, and
  \<open>sscanf(line, "%c %c %lld %lld %c", ...)\<close>: \<open>None\<close> when it assigns fewer than four variables.
\<close>

definition chop :: "string \<Rightarrow> string outcome" where
  "chop line = (if c_str line = [] then Fault else Return (butlast (c_str line)))"

definition sscanf_line :: "string \<Rightarrow> (char \<times> char \<times> int \<times> int \<times> char option) option" where
  "sscanf_line line =
     (case line of [] \<Rightarrow> None | cmdCh # s1 \<Rightarrow>
      case dropWhile isspace s1 of [] \<Rightarrow> None | lock # s2 \<Rightarrow>
      case scan_signed (dropWhile isspace s2) of None \<Rightarrow> None | Some (st, s3) \<Rightarrow>
      case scan_signed (dropWhile isspace s3) of None \<Rightarrow> None | Some (len, s4) \<Rightarrow>
      case dropWhile isspace s4 of [] \<Rightarrow> Some (cmdCh, lock, st, len, None)
      | whence # s5 \<Rightarrow> Some (cmdCh, lock, st, len, Some whence))"

text \<open>\<open>strchr\<close> also finds the zero that ends its string.\<close>

definition strchr_finds :: "string \<Rightarrow> char \<Rightarrow> bool" where
  "strchr_finds s c \<longleftrightarrow> c \<in> set s \<or> c = NUL"

datatype i_action = Skip | Help | Invalid | Request lock_cmd char flock

definition i_action :: "string \<Rightarrow> i_action" where
  "i_action line =
     (if line = [] then Skip
      else if hd line = CHR ''?'' then Help
      else case sscanf_line line of
        None \<Rightarrow> Invalid
      | Some (cmdCh, lock, st, len, w) \<Rightarrow>
          let whence = case_option (CHR ''s'') id w in
          if \<not> strchr_finds ''gsw'' cmdCh \<or> \<not> strchr_finds ''rwu'' lock \<or> \<not> strchr_finds ''sce'' whence then Invalid
          else Request
            (if cmdCh = CHR ''g'' then F_GETLK else if cmdCh = CHR ''s'' then F_SETLK else F_SETLKW) lock
            \<lparr>l_type = if lock = CHR ''r'' then F_RDLCK else if lock = CHR ''w'' then F_WRLCK else F_UNLCK,
             l_whence = if whence = CHR ''c'' then SEEK_CUR else if whence = CHR ''e'' then SEEK_END else SEEK_SET,
             l_start = word_of_int st, l_len = word_of_int len, l_pid = 0\<rparr>)"

text \<open>
  What is printed after the call. A conflict is reported by \<open>printf("...lld%:%lld...")\<close> or by
  \<open>printf("...%ld]%s...")\<close> with one argument, both undefined. \<open>I_Silent\<close>: nothing is printed.
\<close>

datatype i_report = I_Help | I_Invalid | I_Can_Be_Placed | I_Got_Lock | I_Unlocked | I_Deadlock | I_Silent

definition i_answer :: "lock_cmd \<Rightarrow> char \<Rightarrow> flock sysres \<Rightarrow> i_report outcome" where
  "i_answer cmd lock status =
     (if cmd = F_GETLK then
        (case status of
           Err e \<Rightarrow> Exit EXIT_FAILURE
         | Ok fl \<Rightarrow> if l_type fl = F_UNLCK then Return I_Can_Be_Placed else Fault)
      else
        (case status of
           Ok fl \<Rightarrow> Return (if lock = CHR ''u'' then I_Unlocked else I_Got_Lock)
         | Err e \<Rightarrow>
             if e = EAGAIN \<or> e = EACCES then Fault
             else if e = EDEADLK then Return I_Deadlock
             else Return I_Silent))"

text \<open>One line of the input as an action, with the rest of the input; the loop, and \<open>main\<close>.\<close>

definition i_input :: "string \<Rightarrow> (i_action outcome \<times> string) option" where
  "i_input inp = (case fgets MAX_LINE inp of None \<Rightarrow> None
     | Some (line, rest) \<Rightarrow> Some (and_then (chop line) (\<lambda>l. Return (i_action l)), rest))"

datatype i_end = I_Exit nat | I_Fault | I_Waits

lemma i_input_shorter: "i_input inp = Some (a, rest) \<Longrightarrow> length rest < length inp"
  by (auto simp: i_input_def MAX_LINE_def split: option.splits dest: fgets_shorter)

function i_loop :: "('k \<Rightarrow> lock_cmd \<Rightarrow> flock \<Rightarrow> ('k \<times> flock sysres) option) \<Rightarrow> 'k \<Rightarrow> string \<Rightarrow>
    i_report list \<times> 'k \<times> i_end" where
  "i_loop fcntl k inp = (case i_input inp of
       None \<Rightarrow> ([], k, I_Exit EXIT_SUCCESS)
     | Some (Exit n, rest) \<Rightarrow> ([], k, I_Exit n)
     | Some (Fault, rest) \<Rightarrow> ([], k, I_Fault)
     | Some (Return Skip, rest) \<Rightarrow> i_loop fcntl k rest
     | Some (Return Help, rest) \<Rightarrow> apfst (Cons I_Help) (i_loop fcntl k rest)
     | Some (Return Invalid, rest) \<Rightarrow> apfst (Cons I_Invalid) (i_loop fcntl k rest)
     | Some (Return (Request cmd lock fl), rest) \<Rightarrow>
         (case fcntl k cmd fl of
            None \<Rightarrow> ([], k, I_Waits)
          | Some (k', status) \<Rightarrow>
              (case i_answer cmd lock status of
                 Return r \<Rightarrow> apfst (Cons r) (i_loop fcntl k' rest)
               | Exit n \<Rightarrow> ([], k', I_Exit n)
               | Fault \<Rightarrow> ([], k', I_Fault))))"
  by pat_completeness auto
termination
  by (relation "measure (\<lambda>(fcntl, k, inp). length inp)") (auto dest: i_input_shorter)

declare i_loop.simps [simp del]

definition i_main :: "string list \<Rightarrow> int \<Rightarrow> ('k \<Rightarrow> lock_cmd \<Rightarrow> flock \<Rightarrow> ('k \<times> flock sysres) option) \<Rightarrow> 'k \<Rightarrow>
    string \<Rightarrow> i_report list \<times> 'k \<times> i_end" where
  "i_main argv fd fcntl k inp =
     (if length argv \<noteq> 2 \<or> argv ! 1 = ''help'' then ([], k, I_Exit EXIT_FAILURE)
      else if fd = - 1 then ([], k, I_Exit EXIT_FAILURE)
      else i_loop fcntl k inp)"

section \<open>A lock on the whole file\<close>

datatype fl_end = FL_Exit nat | FL_Sleeping

definition whole_file :: flock where
  "whole_file = \<lparr>l_type = F_WRLCK, l_whence = SEEK_SET, l_start = 0, l_len = 0, l_pid = 0\<rparr>"

definition fl_main :: "int \<Rightarrow> (lock_cmd \<Rightarrow> flock \<Rightarrow> flock sysres) \<Rightarrow> fl_end" where
  "fl_main fd fcntl =
     (if fd < 0 then FL_Exit EXIT_FAILURE
      else case fcntl F_SETLK whole_file of Err e \<Rightarrow> FL_Exit EXIT_FAILURE | Ok fl \<Rightarrow> FL_Sleeping)"

end
