(* ===== verification/Lock_Proofs.thy ===== *)
theory Lock_Proofs imports Lock_Programs begin

text \<open>
  Properties of the programs on record locks: what their parsers accept, that a printed request is
  read back, that the two front ends put the same request to the kernel, and how they report what
  \<open>fcntl\<close> answers.
\<close>

section \<open>Requests as text\<close>

fun cmd_char :: "lock_cmd \<Rightarrow> char" where
  "cmd_char F_GETLK = CHR ''g''" | "cmd_char F_SETLK = CHR ''s''" | "cmd_char F_SETLKW = CHR ''w''"

fun type_char :: "lock_type \<Rightarrow> char" where
  "type_char F_RDLCK = CHR ''r''" | "type_char F_WRLCK = CHR ''w''" | "type_char F_UNLCK = CHR ''u''"

fun whence_char :: "whence \<Rightarrow> char" where
  "whence_char SEEK_SET = CHR ''s''" | "whence_char SEEK_CUR = CHR ''c''" | "whence_char SEEK_END = CHR ''e''"

definition show_line :: "lock_cmd \<Rightarrow> lock_type \<Rightarrow> whence \<Rightarrow> int \<Rightarrow> int \<Rightarrow> string" where
  "show_line cmd ty wh st len = cmd_char cmd # CHR '' '' # type_char ty # CHR '' '' # show_int st @
     CHR '' '' # show_int len @ [CHR '' '', whence_char wh]"




definition request :: "lock_type \<Rightarrow> whence \<Rightarrow> int \<Rightarrow> int \<Rightarrow> flock" where
  "request ty wh st len = \<lparr>l_type = ty, l_whence = wh, l_start = word_of_int st, l_len = word_of_int len, l_pid = 0\<rparr>"

definition long_long :: "int \<Rightarrow> bool" where
  "long_long i \<longleftrightarrow> - (2 ^ 63) \<le> i \<and> i < 2 ^ 63"

lemma chars_not_special:
  "\<not> isspace (cmd_char c)" "\<not> isspace (type_char t)" "\<not> isspace (whence_char w)"
  "cmd_char c \<noteq> CHR ''?''" "isspace (CHR '' '')" "\<not> isdigit (CHR '' '')"
  subgoal by (cases c; simp add: isspace_def)
  subgoal by (cases t; simp add: isspace_def)
  subgoal by (cases w; simp add: isspace_def)
  subgoal by (cases c; simp)
  by (simp_all add: isspace_def isdigit_def)

lemma scan_show_int:
  assumes "long_long i"
  shows "scan_signed (dropWhile isspace (CHR '' '' # show_int i @ CHR '' '' # s)) = Some (i, CHR '' '' # s)"
  using assms scan_signed_show [of i "CHR '' '' # s"]
  by (simp add: long_long_def chars_not_special dropWhile_show_int)

lemma sscanf_show:
  assumes "long_long st" "long_long len"
  shows "sscanf_line (show_line cmd ty wh st len) = Some (cmd_char cmd, type_char ty, st, len, Some (whence_char wh))"
  using scan_show_int [OF assms(1)] scan_show_int [OF assms(2)]
  by (simp add: sscanf_line_def show_line_def chars_not_special)

lemma show_line_plain: "NUL \<notin> set (show_line cmd ty wh st len)" "NL \<notin> set (show_line cmd ty wh st len)"
  using show_int_plain by (cases cmd; cases ty; cases wh; simp add: show_line_def)+

lemma show_line_fits:
  assumes "long_long st" "long_long len"
  shows "length (show_line cmd ty wh st len) + 1 < MAX_LINE"
proof -
  have "\<bar>i\<bar> < 10 ^ 19" if "long_long i" for i
    using that by (auto simp: long_long_def)
  with assms have "length (show_int st) \<le> 20" "length (show_int len) \<le> 20"
    by (blast intro: length_show_int)+
  then show ?thesis by (simp add: show_line_def MAX_LINE_def)
qed

lemma chop_line: "NUL \<notin> set l \<Longrightarrow> chop (l @ [NL]) = Return l"
  using c_str_id [of "l @ [NL]"] by (simp add: chop_def)

lemma i_input_line: "NL \<notin> set l \<Longrightarrow> NUL \<notin> set l \<Longrightarrow> length l + 1 < MAX_LINE \<Longrightarrow>
   i_input (l @ NL # rest) = Some (Return (i_action l), rest)"
  by (simp add: i_input_def fgets_line chop_line)

lemma i_action_show:
  assumes "long_long st" "long_long len"
  shows "i_action (show_line cmd ty wh st len) = Request cmd (type_char ty) (request ty wh st len)"
proof -
  have "show_line cmd ty wh st len \<noteq> []" "hd (show_line cmd ty wh st len) \<noteq> CHR ''?''"
    by (simp_all add: show_line_def chars_not_special)
  then show ?thesis
    by (cases cmd; cases ty; cases wh)
      (simp_all add: i_action_def sscanf_show [OF assms] strchr_finds_def request_def)
qed

lemma i_input_show: "long_long st \<Longrightarrow> long_long len \<Longrightarrow>
   i_input (show_line cmd ty wh st len @ NL # rest) = Some (Return (Request cmd (type_char ty) (request ty wh st len)), rest)"
  by (simp only: i_input_line [OF show_line_plain(2,1) show_line_fits] i_action_show)






lemma fcntl_conflict:
  assumes "table_ok tab" "extent sz fl = Ok (a, z)" "blockers tab p (l_type fl) a z \<noteq> []" "cmd \<noteq> F_SETLKW"
  shows "if cmd = F_GETLK then \<exists>fl'. fcntl_lock sz tab p cmd fl = Some (tab, Ok fl') \<and> l_type fl' \<noteq> F_UNLCK
    else fcntl_lock sz tab p cmd fl = Some (tab, Err EAGAIN)"
proof -
  obtain k ks where b: "blockers tab p (l_type fl) a z = k # ks" using assms(3) by (meson neq_Nil_conv)
  then have "k \<in> set (blockers tab p (l_type fl) a z)" by simp
  with assms(1) have "lk_type k \<noteq> F_UNLCK" "l_type fl \<noteq> F_UNLCK"
    by (auto simp: blockers_def table_ok_def list_all_iff)
  with b assms(2,4) show ?thesis by (cases cmd) (simp_all add: fcntl_lock_def describe_def)
qed


lemma i_loop_end: "i_loop fcntl k [] = ([], k, I_Exit EXIT_SUCCESS)"
  by (simp add: i_loop.simps i_input_def fgets_def)



lemma i_loop_show:
  assumes "long_long st" "long_long len"
  shows "i_loop fcntl k (show_line cmd ty wh st len @ NL # rest) =
    (case fcntl k cmd (request ty wh st len) of
       None \<Rightarrow> ([], k, I_Waits)
     | Some (k', status) \<Rightarrow>
         (case i_answer cmd (type_char ty) status of
            Return r \<Rightarrow> apfst (Cons r) (i_loop fcntl k' rest)
          | Exit n \<Rightarrow> ([], k', I_Exit n)
          | Fault \<Rightarrow> ([], k', I_Fault)))"
  by (subst i_loop.simps) (simp add: i_input_show [OF assms])

section \<open>Properties\<close>

text \<open>C21: A request of any 64-bit start and length, written as a line, is read back by the interactive
  program exactly: the line fits into its array, and the next thing it does is to call fcntl with
  that command and those values.\<close>

theorem i_roundtrip:
  assumes "- (2 ^ 63) \<le> st" "st < 2 ^ 63" "- (2 ^ 63) \<le> len" "len < 2 ^ 63"
  shows "i_loop fcntl k (show_line cmd ty wh st len @ NL # rest) =
    (case fcntl k cmd (request ty wh st len) of
       None \<Rightarrow> ([], k, I_Waits)
     | Some (k', status) \<Rightarrow>
         (case i_answer cmd (type_char ty) status of
            Return r \<Rightarrow> apfst (Cons r) (i_loop fcntl k' rest)
          | Exit n \<Rightarrow> ([], k', I_Exit n)
          | Fault \<Rightarrow> ([], k', I_Fault)))"
  using assms by (simp only: i_loop_show long_long_def)

theorem i_roundtrip_witness:
  "i_loop (\<lambda>k. fcntl_lock 0 k 1) [] (show_line F_SETLK F_WRLCK SEEK_SET 10 5 @ NL # []) =
    ([I_Got_Lock], [\<lparr>lk_owner = 1, lk_type = F_WRLCK, lk_first = 10, lk_last = 14\<rparr>], I_Exit EXIT_SUCCESS)"
proof -
  have "fcntl_lock 0 [] 1 F_SETLK (request F_WRLCK SEEK_SET 10 5) =
    Some ([\<lparr>lk_owner = 1, lk_type = F_WRLCK, lk_first = 10, lk_last = 14\<rparr>], Ok (request F_WRLCK SEEK_SET 10 5))"
    by code_simp
  then show ?thesis
    by (subst i_roundtrip) (simp_all add: i_answer_def i_loop_end)
qed





text \<open>The errors of \<open>fcntl\<close> are never told apart: for a read or a write lock the program ends with
  the same report whatever \<open>errno\<close> is, and since the removal of a lock does not fail with EAGAIN,
  EACCES or EDEADLK, the messages for these are never printed.\<close>

lemma t_hides_errno:
  assumes "\<And>c fl e. l_type fl = F_UNLCK \<Longrightarrow> c \<noteq> F_GETLK \<Longrightarrow> fcntl c fl = Some (Err e) \<Longrightarrow> e \<notin> {EAGAIN, EACCES, EDEADLK}"
  shows "t_main argv fd fcntl \<notin> {ErrExit ''EAGAIN || EACCESS'', ErrExit ''DEADLOCK''} \<and>
    (t_request a1 a2 a3 a4 a5 = Inr (cmd, fl) \<longrightarrow> cmd \<noteq> F_GETLK \<longrightarrow> l_type fl \<noteq> F_UNLCK \<longrightarrow> fd \<noteq> - 1 \<longrightarrow>
     fcntl cmd fl = Some (Err e) \<longrightarrow>
     t_main [a0, a1, a2, a3, a4, a5] fd fcntl = Failed (if l_type fl = F_RDLCK then Read_Failed else Write_Failed))"
proof
  have answer: "t_answer c (l_type f) st \<notin> {ErrExit ''EAGAIN || EACCESS'', ErrExit ''DEADLOCK''}"
    if "fcntl c f = Some st" for c f st
    using assms [of f c] that by (cases "l_type f"; cases st) (auto simp: t_answer_def)
  have "t_request b1 b2 b3 b4 b5 \<notin> {Inl ''EAGAIN || EACCESS'', Inl ''DEADLOCK''}" for b1 b2 b3 b4 b5
    by (simp add: t_request_def split: option.split)
  with answer show "t_main argv fd fcntl \<notin> {ErrExit ''EAGAIN || EACCESS'', ErrExit ''DEADLOCK''}"
    by (cases "(argv, fd, fcntl)" rule: t_main.cases) (auto split: sum.split option.split)
qed (cases "l_type fl"; simp add: t_answer_def)

theorem t_hides_errno_witness:
  "t_main [''app'', ''F_SETLK'', ''F_WRLCK'', ''SEEK_SET'', ''0'', ''1''] 3
     (\<lambda>c fl. map_option snd (fcntl_lock 0 [\<lparr>lk_owner = 2, lk_type = F_RDLCK, lk_first = 0, lk_last = 5\<rparr>] 1 c fl)) =
   Failed Write_Failed"
proof -
  let ?k = "\<lambda>c fl. map_option snd (fcntl_lock 0 [\<lparr>lk_owner = 2, lk_type = F_RDLCK, lk_first = 0, lk_last = 5\<rparr>] 1 c fl)"
  have r: "t_request ''F_SETLK'' ''F_WRLCK'' ''SEEK_SET'' ''0'' ''1'' = Inr (F_SETLK, request F_WRLCK SEEK_SET 0 1)"
    and k: "?k F_SETLK (request F_WRLCK SEEK_SET 0 1) = Some (Err EAGAIN)" by code_simp+
  have unlock: "l_type fl = F_UNLCK \<Longrightarrow> ?k c fl = Some (Err e) \<Longrightarrow> e \<notin> {EAGAIN, EACCES, EDEADLK}" for c fl e
    using unlock_error by fastforce
  show ?thesis
    using t_hides_errno [of ?k "[]" 3 "''F_SETLK''" "''F_WRLCK''" "''SEEK_SET''" "''0''" "''1''" F_SETLK
        "request F_WRLCK SEEK_SET 0 1" EAGAIN "''app''", OF unlock] r k
    by (simp add: request_def)
qed

text \<open>C39: What the interactive program does with every line that \<open>show_line\<close> writes. Against the kernel's
  locks: a request that names no bytes of any file is passed over without a word when it sets or
  removes a lock, and ends the program when it is a query, as does a query for an unlock; a
  conflicting lock makes \<open>F_SETLKW\<close> wait, while a query and an attempt to lock end in a call of
  \<open>printf\<close> that C leaves undefined; everything else is answered and reported as it is. And for any
  other answers of \<open>fcntl\<close>: a failed query ends the program; of the errors of the other commands
  EAGAIN and EACCES lead to the undefined call, EDEADLK is reported, and no other one is.\<close>

theorem i_failures:
  assumes "- (2 ^ 63) \<le> st" "st < 2 ^ 63" "- (2 ^ 63) \<le> len" "len < 2 ^ 63" and "table_ok tab"
  shows "i_loop (\<lambda>k. fcntl_lock sz k p) tab (show_line cmd ty wh st len @ NL # rest) =
    (case extent sz (request ty wh st len) of
       Err e \<Rightarrow> if cmd = F_GETLK then ([], tab, I_Exit EXIT_FAILURE)
                else apfst (Cons I_Silent) (i_loop (\<lambda>k. fcntl_lock sz k p) tab rest)
     | Ok (a, z) \<Rightarrow>
         if cmd = F_GETLK \<and> ty = F_UNLCK then ([], tab, I_Exit EXIT_FAILURE)
         else if blockers tab p ty a z \<noteq> [] then ([], tab, if cmd = F_SETLKW then I_Waits else I_Fault)
         else if cmd = F_GETLK then apfst (Cons I_Can_Be_Placed) (i_loop (\<lambda>k. fcntl_lock sz k p) tab rest)
         else apfst (Cons (if ty = F_UNLCK then I_Unlocked else I_Got_Lock))
           (i_loop (\<lambda>k. fcntl_lock sz k p) (set_range p ty a z tab) rest)) \<and>
    (fcntl k cmd (request ty wh st len) = Some (k', Err e) \<longrightarrow>
      i_loop fcntl k (show_line cmd ty wh st len @ NL # rest) =
      (if cmd = F_GETLK then ([], k', I_Exit EXIT_FAILURE)
       else if e = EAGAIN \<or> e = EACCES then ([], k', I_Fault)
       else apfst (Cons (if e = EDEADLK then I_Deadlock else I_Silent)) (i_loop fcntl k' rest)))"
proof -
  have "long_long st" "long_long len" using assms by (simp_all add: long_long_def)
  note line = i_loop_show [OF this]
  let ?fl = "request ty wh st len" and ?F = "\<lambda>k. fcntl_lock sz k p"
  have ty: "l_type ?fl = ty" by (simp add: request_def)
  have u: "type_char ty = CHR ''u'' \<longleftrightarrow> ty = F_UNLCK" by (cases ty) simp_all
  have other: "fcntl k cmd ?fl = Some (k', Err e) \<longrightarrow> i_loop fcntl k (show_line cmd ty wh st len @ NL # rest) =
      (if cmd = F_GETLK then ([], k', I_Exit EXIT_FAILURE)
       else if e = EAGAIN \<or> e = EACCES then ([], k', I_Fault)
       else apfst (Cons (if e = EDEADLK then I_Deadlock else I_Silent)) (i_loop fcntl k' rest))"
    by (simp add: line i_answer_def)
  show ?thesis
  proof (cases "extent sz ?fl")
    case (Err err)
    then have "fcntl_lock sz tab p cmd ?fl = Some (tab, Err err)" "err \<notin> {EAGAIN, EACCES, EDEADLK}"
      using extent_error [OF Err] by (auto simp: fcntl_lock_def)
    with Err other show ?thesis by (simp add: line i_answer_def)
  next
    case (Ok r)
    obtain a z where r: "r = (a, z)" by (cases r)
    have no_unlock: "ty = F_UNLCK \<Longrightarrow> blockers tab p ty a z = []" by (simp add: blockers_def)
    show ?thesis
    proof (cases "blockers tab p ty a z = []")
      case True
      with Ok r ty have "fcntl_lock sz tab p cmd ?fl =
        (if cmd = F_GETLK then Some (tab, if ty = F_UNLCK then Err EINVAL else Ok (?fl\<lparr>l_type := F_UNLCK\<rparr>))
         else Some (set_range p ty a z tab, Ok ?fl))"
        by (cases cmd) (simp_all add: fcntl_lock_def)
      with Ok r True other show ?thesis by (simp add: line i_answer_def u)
    next
      case False
      then have "ty \<noteq> F_UNLCK" using no_unlock by blast
      have waits: "cmd = F_SETLKW \<Longrightarrow> fcntl_lock sz tab p cmd ?fl = None"
        using Ok r ty False by (simp add: fcntl_lock_def)
      have "cmd \<noteq> F_SETLKW \<Longrightarrow> i_loop ?F tab (show_line cmd ty wh st len @ NL # rest) = ([], tab, I_Fault)"
        using fcntl_conflict [OF assms(5) Ok [unfolded r], of p cmd] False ty
        by (cases "cmd = F_GETLK") (auto simp: line i_answer_def)
      moreover have "cmd = F_SETLKW \<Longrightarrow> i_loop ?F tab (show_line cmd ty wh st len @ NL # rest) = ([], tab, I_Waits)"
        using waits by (simp add: line)
      ultimately show ?thesis using Ok r False \<open>ty \<noteq> F_UNLCK\<close> other by simp
    qed
  qed
qed

theorem i_failures_witness:
  "i_loop (\<lambda>k. fcntl_lock 0 k 1) [\<lparr>lk_owner = 2, lk_type = F_RDLCK, lk_first = 0, lk_last = 5\<rparr>]
     (show_line F_SETLK F_WRLCK SEEK_SET 4 4 @ NL # []) =
   ([], [\<lparr>lk_owner = 2, lk_type = F_RDLCK, lk_first = 0, lk_last = 5\<rparr>], I_Fault)"
proof -
  let ?tab = "[\<lparr>lk_owner = 2, lk_type = F_RDLCK, lk_first = 0, lk_last = 5\<rparr>]"
  have "extent 0 (request F_WRLCK SEEK_SET 4 4) = Ok (4, 7)" "blockers ?tab 1 F_WRLCK 4 7 \<noteq> []" "table_ok ?tab"
    by (simp_all add: request_def extent_def base_def OFFSET_MAX_def blockers_def table_ok_def)
  with conjunct1 [OF i_failures [of 4 4 ?tab 0 1 F_SETLK F_WRLCK SEEK_SET "[]"]] show ?thesis by simp
qed

end
