(* ===== verification/Lock_World.thy ===== *)
theory Lock_World imports Lock_Proofs Systems begin

text \<open>
  Many processes that run the three lock programs on one file at the same time. The state is the
  table of the kernel and, beside it, what each process has told its user: the lock it has reported
  for each byte. An event is a line typed at \<open>i_fcntl_locking\<close>, a start of \<open>t_fcntl_locking\<close> or of
  \<open>file_lock\<close>, or the end of a process, in any order.
\<close>

record lock_world =
  lw_table :: "rlock list"
  lw_told :: "nat \<Rightarrow> int \<Rightarrow> lock_type option"

text \<open>Each event names the process and the size of the file at that moment.\<close>

datatype lock_event = Line nat int string | Args nat int "string list" | Whole nat int | End nat

text \<open>One call, after which the process believes the request granted when \<open>happy\<close> holds of the answer.\<close>

definition lw_call :: "nat \<Rightarrow> int \<Rightarrow> lock_cmd \<Rightarrow> flock \<Rightarrow> (flock sysres \<Rightarrow> bool) \<Rightarrow> lock_world \<Rightarrow> lock_world option" where
  "lw_call p sz cmd fl happy w = (case fcntl_lock sz (lw_table w) p cmd fl of
       None \<Rightarrow> None
     | Some (tab, status) \<Rightarrow> Some \<lparr>lw_table = tab, lw_told =
         (if happy status then (\<lambda>q b. if q = p \<and> names sz fl b then grant (l_type fl) else lw_told w q b)
          else lw_told w)\<rparr>)"

fun lw_event :: "lock_event \<Rightarrow> lock_world \<Rightarrow> lock_world option" where
  "lw_event (Line p sz inp) w = (case i_input inp of
       Some (Return (Request cmd lock fl), rest) \<Rightarrow>
         lw_call p sz cmd fl (\<lambda>r. i_answer cmd lock r = Return I_Got_Lock \<or> i_answer cmd lock r = Return I_Unlocked) w
     | _ \<Rightarrow> Some w)"
| "lw_event (Args p sz argv) w = (case argv of
       [a0, a1, a2, a3, a4, a5] \<Rightarrow>
         (case t_request a1 a2 a3 a4 a5 of
            Inl arg \<Rightarrow> Some w
          | Inr (cmd, fl) \<Rightarrow>
              lw_call p sz cmd fl (\<lambda>r. t_main argv 3 (\<lambda>c f. Some r) \<in> {Running Locked, Running Unlocked}) w)
     | _ \<Rightarrow> Some w)"
| "lw_event (Whole p sz) w =
     lw_call p sz F_SETLK whole_file (\<lambda>r. fl_main 3 (\<lambda>c f. r) = FL_Sleeping) w"
| "lw_event (End p) w = Some \<lparr>lw_table = release_all (lw_table w) p, lw_told = (lw_told w)(p := \<lambda>b. None)\<rparr>"

definition lw_init :: "lock_world \<Rightarrow> bool" where
  "lw_init w \<longleftrightarrow> w = \<lparr>lw_table = [], lw_told = (\<lambda>p b. None)\<rparr>"

definition lw_step :: "lock_world \<Rightarrow> lock_world \<Rightarrow> bool" where
  "lw_step w w' \<longleftrightarrow> (\<exists>e. lw_event e w = Some w')"

section \<open>The processes tell the truth\<close>

text \<open>Each program believes in its lock exactly when the call has set it.\<close>

definition honest :: "lock_cmd \<Rightarrow> (flock sysres \<Rightarrow> bool) \<Rightarrow> bool" where
  "honest cmd happy \<longleftrightarrow> (\<forall>r. happy r \<longleftrightarrow> cmd \<noteq> F_GETLK \<and> (\<exists>fl. r = Ok fl))"

lemma i_honest: "honest cmd (\<lambda>r. i_answer cmd lock r = Return I_Got_Lock \<or> i_answer cmd lock r = Return I_Unlocked)"
  by (auto simp: honest_def i_answer_def split: sysres.split)

lemma t_honest: "t_request a1 a2 a3 a4 a5 = Inr (cmd, fl) \<Longrightarrow>
   honest cmd (\<lambda>r. t_main [a0, a1, a2, a3, a4, a5] 3 (\<lambda>c f. Some r) \<in> {Running Locked, Running Unlocked})"
  by (auto simp: honest_def t_answer_def split: sysres.split)

lemma fl_honest: "honest F_SETLK (\<lambda>r. fl_main 3 (\<lambda>c f. r) = FL_Sleeping)"
  by (auto simp: honest_def fl_main_def split: sysres.split)

lemma lw_line_cases:
  assumes "lw_event (Line p sz inp) w = Some w'"
  shows "w' = w \<or> (\<exists>cmd lock fl. lw_call p sz cmd fl
    (\<lambda>r. i_answer cmd lock r = Return I_Got_Lock \<or> i_answer cmd lock r = Return I_Unlocked) w = Some w')"
  using assms
  by (simp split: option.split_asm prod.split_asm outcome.split_asm i_action.split_asm) blast

text \<open>An event changes nothing, is an honest call, or ends a process.\<close>

lemma lw_event_cases:
  assumes "lw_event e w = Some w'"
  obtains "w' = w"
  | p sz cmd fl happy where "honest cmd happy" "lw_call p sz cmd fl happy w = Some w'"
  | p where "w' = \<lparr>lw_table = release_all (lw_table w) p, lw_told = (lw_told w)(p := \<lambda>b. None)\<rparr>"
proof (cases e)
  case (Line p sz inp)
  with assms have "w' = w \<or> (\<exists>cmd lock fl. lw_call p sz cmd fl
    (\<lambda>r. i_answer cmd lock r = Return I_Got_Lock \<or> i_answer cmd lock r = Return I_Unlocked) w = Some w')"
    by (simp only: lw_line_cases)
  then show ?thesis using that(1) that(2) [OF i_honest] by (elim disjE exE) assumption+
next
  case (Args p sz argv)
  show ?thesis
  proof (cases "\<exists>a0 a1 a2 a3 a4 a5 cmd fl. argv = [a0, a1, a2, a3, a4, a5] \<and> t_request a1 a2 a3 a4 a5 = Inr (cmd, fl)")
    case True
    then obtain a0 a1 a2 a3 a4 a5 cmd fl where a: "argv = [a0, a1, a2, a3, a4, a5]" "t_request a1 a2 a3 a4 a5 = Inr (cmd, fl)"
      by blast
    show ?thesis
      by (rule that(2) [OF t_honest [OF a(2)]]) (use assms Args a in \<open>simp del: t_main.simps\<close>)
  next
    case False
    with assms Args have "w' = w" by (simp split: list.split_asm sum.split_asm prod.split_asm)
    then show ?thesis by (rule that(1))
  qed
next
  case (Whole p sz)
  show ?thesis by (rule that(2) [OF fl_honest]) (use assms Whole in simp)
next
  case (End p)
  show ?thesis by (rule that(3) [of p]) (use assms End in simp)
qed

definition lw_inv :: "lock_world \<Rightarrow> bool" where
  "lw_inv w \<longleftrightarrow> lw_told w = table_held (lw_table w) \<and> no_clash (lw_told w) \<and> table_ok (lw_table w)"

lemma lw_call_inv:
  assumes inv: "lw_inv w" and "honest cmd happy" and call: "lw_call p sz cmd fl happy w = Some w'"
  shows "lw_inv w'"
proof -
  obtain tab r where f: "fcntl_lock sz (lw_table w) p cmd fl = Some (tab, r)"
    and w': "w' = \<lparr>lw_table = tab, lw_told =
      (if happy r then (\<lambda>q b. if q = p \<and> names sz fl b then grant (l_type fl) else lw_told w q b) else lw_told w)\<rparr>"
    using call by (auto simp: lw_call_def split: option.splits)
  have "lw_told w' = table_held tab"
  proof (cases "happy r")
    case True
    with assms(2) obtain fl' where "cmd \<noteq> F_GETLK" "r = Ok fl'" by (auto simp: honest_def)
    with f inv True show ?thesis by (intro ext) (simp add: w' lw_inv_def fcntl_sets)
  next
    case False
    with assms(2) have "cmd = F_GETLK \<or> (\<exists>e. r = Err e)" by (cases r) (auto simp: honest_def)
    with f fcntl_keeps have "tab = lw_table w" by metis
    with False inv show ?thesis by (simp add: w' lw_inv_def)
  qed
  moreover have "no_clash (table_held tab)"
    using inv f by (auto simp: lw_inv_def intro: kernel_locks.call_no_clash)
  ultimately show ?thesis
    using inv f by (auto simp: lw_inv_def w' intro: fcntl_ok)
qed

lemma lw_inv_step:
  assumes "lw_inv w" "lw_step w w'"
  shows "lw_inv w'"
proof -
  obtain e where "lw_event e w = Some w'" using assms(2) by (auto simp: lw_step_def)
  then show ?thesis
  proof (cases rule: lw_event_cases)
    case (3 p)
    have "(lw_told w)(p := \<lambda>b. None) = table_held (release_all (lw_table w) p)"
      using assms(1) by (intro ext) (simp add: lw_inv_def table_held_release)
    moreover have "no_clash (table_held (release_all (lw_table w) p))"
      using assms(1) by (intro kernel_locks.exit_no_clash) (auto simp: lw_inv_def)
    ultimately show ?thesis
      using assms(1) 3 by (simp add: lw_inv_def release_ok)
  qed (use assms(1) in \<open>auto intro: lw_call_inv\<close>)
qed

lemma lw_inv_init: "lw_init w \<Longrightarrow> lw_inv w"
  by (auto simp: lw_init_def lw_inv_def no_clash_def compatible_def intro!: ext)

interpretation locks: invariant_system lw_init lw_step lw_inv
  by unfold_locales (fact lw_inv_init, fact lw_inv_step)

section \<open>Properties\<close>

text \<open>C15: Whatever the processes do and in whatever order, what a process has told its user is what
  the kernel holds for it, and no byte that one process believes to have locked for writing is
  locked by another.\<close>

theorem locks_exclusive:
  assumes "reach lw_init lw_step w"
  shows "lw_told w p b = table_held (lw_table w) p b \<and>
    (p \<noteq> q \<longrightarrow> lw_told w p b = Some F_WRLCK \<longrightarrow> lw_told w q b = None)"
  using locks.inv_reach [OF assms] unfolding lw_inv_def no_clash_def compatible_def
  by (metis option.distinct(1))

text \<open>A run: two processes read-lock the start of a file, one leaves, the other upgrades its lock.\<close>

definition demo_events :: "lock_event list" where
  "demo_events = [Line 1 0 (''s r 0 10'' @ [NL]), Args 2 0 [''app'', ''F_SETLKW'', ''F_RDLCK'', ''SEEK_SET'', ''5'', ''10''],
     Line 1 0 (''s w 0 10'' @ [NL]), End 2, Line 1 0 (''w w 4 2 s'' @ [NL])]"

theorem locks_exclusive_witness:
  "\<exists>w. run_schedule lw_event demo_events \<lparr>lw_table = [], lw_told = (\<lambda>p b. None)\<rparr> = Some w \<and>
     lw_told w 1 5 = Some F_WRLCK \<and> lw_told w 2 5 = None"
proof -
  let ?w0 = "\<lparr>lw_table = [], lw_told = (\<lambda>p b. None)\<rparr> :: lock_world"
  have "map_option (\<lambda>w. table_held (lw_table w) 1 5) (run_schedule lw_event demo_events ?w0) = Some (Some F_WRLCK)"
    by code_simp
  then obtain w where w: "run_schedule lw_event demo_events ?w0 = Some w" "table_held (lw_table w) 1 5 = Some F_WRLCK"
    by auto
  have "reach lw_init lw_step w"
    by (rule run_schedule_reach [OF _ _ w(1)]) (auto simp: lw_step_def lw_init_def)
  from locks_exclusive [OF this, of 1 5 2] w show ?thesis by auto
qed

text \<open>While any process believes to hold a lock on the file, another \<open>file_lock\<close> that starts ends
  with a failure.\<close>

lemma file_lock_exclusive:
  assumes "reach lw_init lw_step w" and "lw_told w p b = Some ty" and "0 \<le> b" "b \<le> OFFSET_MAX" and "q \<noteq> p"
  shows "fl_main fd (\<lambda>c fl. snd (the (fcntl_lock sz (lw_table w) q c fl))) = FL_Exit EXIT_FAILURE"
proof -
  have "table_held (lw_table w) p b = Some ty" using locks.inv_reach [OF assms(1)] assms(2) by (simp add: lw_inv_def)
  then obtain k where "k \<in> set (lw_table w)" "lk_owner k = p" "covers k b" by (blast dest: table_heldD)
  with assms(3-5) have "blockers (lw_table w) q F_WRLCK 0 OFFSET_MAX \<noteq> []"
    by (fastforce simp: blockers_def filter_empty_conv covers_def)
  moreover have "extent sz whole_file = Ok (0, OFFSET_MAX)"
    by (simp add: extent_def base_def whole_file_def OFFSET_MAX_def)
  ultimately show ?thesis
    by (simp add: fl_main_def fcntl_lock_def whole_file_def)
qed

theorem file_lock_exclusive_witness:
  "fl_main 3 (\<lambda>c fl. snd (the (fcntl_lock 0 [\<lparr>lk_owner = 1, lk_type = F_WRLCK, lk_first = 0, lk_last = OFFSET_MAX\<rparr>] 2 c fl))) =
   FL_Exit EXIT_FAILURE"
proof -
  let ?w0 = "\<lparr>lw_table = [], lw_told = (\<lambda>p b. None)\<rparr> :: lock_world"
  have x: "extent 0 whole_file = Ok (0, OFFSET_MAX)"
    by (simp add: extent_def base_def whole_file_def OFFSET_MAX_def)
  define w where "w = the (lw_event (Whole 1 0) ?w0)"
  have w: "lw_event (Whole 1 0) ?w0 = Some w" "lw_told w 1 0 = Some F_WRLCK"
    "lw_table w = [\<lparr>lk_owner = 1, lk_type = F_WRLCK, lk_first = 0, lk_last = OFFSET_MAX\<rparr>]"
    using x by (simp_all add: w_def lw_call_def fcntl_lock_def blockers_def set_range_def fl_main_def names_def
        grant_def whole_file_def OFFSET_MAX_def)
  have "reach lw_init lw_step w"
    using w(1) by (intro reach_step [OF reach_init, of _ ?w0]) (auto simp: lw_init_def lw_step_def simp del: lw_event.simps)
  from file_lock_exclusive [OF this w(2), of 2 3 0] show ?thesis by (simp add: w(3) OFFSET_MAX_def)
qed

end
