(* ===== verification/Cleanup.thy ===== *)
theory Cleanup imports Systems begin

text \<open>
  \<^verbatim>\<open>src/t_thread_cleanup.c\<close>: a thread that allocates a block, takes a mutex, pushes a handler that frees
  the block and releases the mutex, and waits on a condition variable until \<open>glob\<close> is set; \<open>main\<close>
  cancels it, or signals the condition variable. A step is one action between two scheduling
  points. The calls on mutexes and condition variables do not fail here, nor does \<open>malloc\<close>.
\<close>

section \<open>The thread and main\<close>

text \<open>
  \<open>X_Wait\<close> sleeps in \<open>pthread_cond_wait\<close>, \<open>X_Woken\<close> has been woken and takes the mutex back,
  \<open>X_Unwind\<close> has been cancelled there and takes it back before the handlers run. \<open>X_Free\<close> and
  \<open>X_Unlock\<close> are in \<open>cleanupHandler\<close>.
\<close>

datatype cl_pc = X_None | X_Malloc | X_Print | X_Lock | X_Push | X_While | X_Wait | X_Woken | X_Completed
  | X_Pop | X_Unwind | X_Free | X_Unlock | X_End
datatype cl_main_pc = N_Create | N_Act | N_Set | N_Join | N_Print | N_Exit
datatype thread_result = R_NULL | R_CANCELED
datatype cl_who = CL_Main | CL_Thread | CL_Cancelled

record cl_state =
  cl_argc1 :: bool                   \<comment> \<open>\<open>argc == 1\<close>: cancel the thread\<close>
  cl_glob :: int
  cl_mtx :: "unit option"            \<comment> \<open>only the thread locks it\<close>
  x_pc :: cl_pc
  x_pushed :: bool                   \<comment> \<open>\<open>cleanupHandler\<close> is on the stack of handlers\<close>
  x_cancel :: bool                   \<comment> \<open>a cancellation is pending\<close>
  x_result :: thread_result
  cl_mallocs :: nat
  cl_frees :: nat
  m_pc :: cl_main_pc
  m_says :: "bool option"            \<comment> \<open>what \<open>main\<close> prints: cancelled, or terminated normally\<close>

definition cl_thread_action :: "cl_state \<Rightarrow> cl_state option" where
  "cl_thread_action s =
     (case x_pc s of
        X_None \<Rightarrow> None
      | X_Malloc \<Rightarrow> Some (s\<lparr>x_pc := X_Print, cl_mallocs := cl_mallocs s + 1\<rparr>)
      | X_Print \<Rightarrow> Some (s\<lparr>x_pc := X_Lock\<rparr>)
      | X_Lock \<Rightarrow> (if cl_mtx s = None then Some (s\<lparr>x_pc := X_Push, cl_mtx := Some ()\<rparr>) else None)
      | X_Push \<Rightarrow> Some (s\<lparr>x_pc := X_While, x_pushed := True\<rparr>)
      | X_While \<Rightarrow> (if cl_glob s = 0 then Some (s\<lparr>x_pc := X_Wait, cl_mtx := None\<rparr>)
                    else Some (s\<lparr>x_pc := X_Completed\<rparr>))
      | X_Wait \<Rightarrow> None
      | X_Woken \<Rightarrow> (if cl_mtx s = None then Some (s\<lparr>x_pc := X_While, cl_mtx := Some ()\<rparr>) else None)
      | X_Completed \<Rightarrow> Some (s\<lparr>x_pc := X_Pop\<rparr>)
      | X_Pop \<Rightarrow> Some (s\<lparr>x_pc := X_Free, x_pushed := False\<rparr>)
      | X_Unwind \<Rightarrow> (if cl_mtx s = None then Some (s\<lparr>x_pc := X_Free, x_pushed := False, cl_mtx := Some ()\<rparr>) else None)
      | X_Free \<Rightarrow> Some (s\<lparr>x_pc := X_Unlock, cl_frees := cl_frees s + 1\<rparr>)
      | X_Unlock \<Rightarrow> Some (s\<lparr>x_pc := X_End, cl_mtx := None\<rparr>)
      | X_End \<Rightarrow> None)"

text \<open>
  A pending cancellation takes effect in \<open>pthread_cond_wait\<close>, and may do so in \<open>printf\<close>. The thread
  then runs the handlers it has pushed and ends.
\<close>

definition cl_cancelled :: "cl_state \<Rightarrow> cl_state option" where
  "cl_cancelled s =
     (if \<not> x_cancel s then None
      else case x_pc s of
        X_Print \<Rightarrow> Some (s\<lparr>x_pc := X_End, x_cancel := False, x_result := R_CANCELED\<rparr>)
      | X_Wait \<Rightarrow> Some (s\<lparr>x_pc := X_Unwind, x_cancel := False, x_result := R_CANCELED\<rparr>)
      | X_Completed \<Rightarrow> Some (s\<lparr>x_pc := X_Free, x_pushed := False, x_cancel := False, x_result := R_CANCELED\<rparr>)
      | _ \<Rightarrow> None)"

text \<open>\<open>pthread_cond_signal\<close> comes before the assignment to \<open>glob\<close>, and neither under the mutex.\<close>

definition cl_main_action :: "cl_state \<Rightarrow> cl_state option" where
  "cl_main_action s =
     (case m_pc s of
        N_Create \<Rightarrow> Some (s\<lparr>m_pc := N_Act, x_pc := X_Malloc\<rparr>)
      | N_Act \<Rightarrow>
          (if cl_argc1 s then Some (s\<lparr>m_pc := N_Join, x_cancel := True\<rparr>)
           else if x_pc s = X_Wait then Some (s\<lparr>m_pc := N_Set, x_pc := X_Woken\<rparr>)
           else Some (s\<lparr>m_pc := N_Set\<rparr>))
      | N_Set \<Rightarrow> Some (s\<lparr>m_pc := N_Join, cl_glob := 1\<rparr>)
      | N_Join \<Rightarrow> (if x_pc s = X_End then Some (s\<lparr>m_pc := N_Print\<rparr>) else None)
      | N_Print \<Rightarrow> Some (s\<lparr>m_pc := N_Exit, m_says := Some (x_result s = R_CANCELED)\<rparr>)
      | N_Exit \<Rightarrow> None)"

text \<open>\<open>exit\<close> ends every thread.\<close>

definition cl_do :: "cl_who \<Rightarrow> cl_state \<Rightarrow> cl_state option" where
  "cl_do who s = (if m_pc s = N_Exit then None
     else case who of CL_Main \<Rightarrow> cl_main_action s | CL_Thread \<Rightarrow> cl_thread_action s | CL_Cancelled \<Rightarrow> cl_cancelled s)"

definition cl_start :: "bool \<Rightarrow> cl_state" where
  "cl_start a = \<lparr>cl_argc1 = a, cl_glob = 0, cl_mtx = None, x_pc = X_None, x_pushed = False, x_cancel = False,
     x_result = R_NULL, cl_mallocs = 0, cl_frees = 0, m_pc = N_Create, m_says = None\<rparr>"

definition cl_init :: "cl_state \<Rightarrow> bool" where
  "cl_init s \<longleftrightarrow> (\<exists>a. s = cl_start a)"

definition cl_thread_step :: "cl_state \<Rightarrow> cl_state \<Rightarrow> bool" where
  "cl_thread_step s t \<longleftrightarrow> (\<exists>who. cl_do who s = Some t)"

text \<open>POSIX lets \<open>pthread_cond_wait\<close> also return without a signal.\<close>

definition cl_step :: "cl_state \<Rightarrow> cl_state \<Rightarrow> bool" where
  "cl_step s t \<longleftrightarrow> cl_thread_step s t \<or> x_pc s = X_Wait \<and> m_pc s \<noteq> N_Exit \<and> t = s\<lparr>x_pc := X_Woken\<rparr>"

section \<open>The invariant\<close>

text \<open>Where the thread has the mutex, and where the handler is pushed and the block not yet freed.\<close>

definition cl_inside :: "cl_pc \<Rightarrow> bool" where
  "cl_inside q \<longleftrightarrow> q \<in> {X_Push, X_While, X_Completed, X_Pop, X_Free, X_Unlock}"

definition guarded :: "cl_pc \<Rightarrow> bool" where
  "guarded q \<longleftrightarrow> q \<in> {X_While, X_Wait, X_Woken, X_Completed, X_Pop, X_Unwind}"

definition cl_mutex_ok :: "cl_state \<Rightarrow> bool" where
  "cl_mutex_ok s \<longleftrightarrow> lock_ok (cl_mtx s) (\<lambda>u. cl_inside (x_pc s))"

definition cl_block_ok :: "cl_state \<Rightarrow> bool" where
  "cl_block_ok s \<longleftrightarrow> x_pushed s = guarded (x_pc s) \<and>
     cl_mallocs s = (if x_pc s = X_None \<or> x_pc s = X_Malloc then 0 else 1) \<and>
     (if x_pc s = X_Unlock then cl_frees s = 1
      else if x_pc s = X_End then cl_frees s = 1 \<or> cl_frees s = 0 \<and> x_result s = R_CANCELED
      else cl_frees s = 0)"

definition cl_main_ok :: "cl_state \<Rightarrow> bool" where
  "cl_main_ok s \<longleftrightarrow> (x_pc s = X_None \<longleftrightarrow> m_pc s = N_Create) \<and>
     (m_pc s = N_Print \<or> m_pc s = N_Exit \<longrightarrow> x_pc s = X_End) \<and>
     (m_pc s = N_Exit \<longrightarrow> m_says s = Some (x_result s = R_CANCELED)) \<and>
     (m_pc s \<in> {N_Create, N_Act, N_Set} \<longrightarrow> cl_glob s = 0) \<and>
     (m_pc s \<in> {N_Create, N_Act} \<longrightarrow> \<not> x_cancel s \<and> x_result s = R_NULL)"

text \<open>The two modes: \<open>glob\<close> is never set, or no cancellation is ever asked for.\<close>

definition cl_mode_ok :: "cl_state \<Rightarrow> bool" where
  "cl_mode_ok s \<longleftrightarrow>
     (if cl_argc1 s then cl_glob s = 0 \<and> m_pc s \<noteq> N_Set \<and> x_pc s \<notin> {X_Completed, X_Pop} \<and>
        (m_pc s \<in> {N_Join, N_Print, N_Exit} \<longrightarrow> x_cancel s \<or> x_result s = R_CANCELED) \<and>
        (x_result s = R_NULL \<longrightarrow> x_pc s \<notin> {X_Unwind, X_Free, X_Unlock, X_End}) \<and>
        (x_result s = R_CANCELED \<longrightarrow> x_pc s \<in> {X_Unwind, X_Free, X_Unlock, X_End})
      else \<not> x_cancel s \<and> x_result s = R_NULL \<and> x_pc s \<noteq> X_Unwind)"

definition cl_inv :: "cl_state \<Rightarrow> bool" where
  "cl_inv s \<longleftrightarrow> cl_mutex_ok s \<and> cl_block_ok s \<and> cl_main_ok s \<and> cl_mode_ok s"

lemmas cl_inv_defs = cl_mutex_ok_def cl_block_ok_def cl_main_ok_def cl_mode_ok_def

lemma cl_thread_cases:
  assumes "cl_thread_action s = Some t"
  obtains "x_pc s = X_Malloc" "t = s\<lparr>x_pc := X_Print, cl_mallocs := cl_mallocs s + 1\<rparr>"
  | "x_pc s = X_Print" "t = s\<lparr>x_pc := X_Lock\<rparr>"
  | "x_pc s = X_Lock" "cl_mtx s = None" "t = s\<lparr>x_pc := X_Push, cl_mtx := Some ()\<rparr>"
  | "x_pc s = X_Push" "t = s\<lparr>x_pc := X_While, x_pushed := True\<rparr>"
  | "x_pc s = X_While" "cl_glob s = 0" "t = s\<lparr>x_pc := X_Wait, cl_mtx := None\<rparr>"
  | "x_pc s = X_While" "cl_glob s \<noteq> 0" "t = s\<lparr>x_pc := X_Completed\<rparr>"
  | "x_pc s = X_Woken" "cl_mtx s = None" "t = s\<lparr>x_pc := X_While, cl_mtx := Some ()\<rparr>"
  | "x_pc s = X_Completed" "t = s\<lparr>x_pc := X_Pop\<rparr>"
  | "x_pc s = X_Pop" "t = s\<lparr>x_pc := X_Free, x_pushed := False\<rparr>"
  | "x_pc s = X_Unwind" "cl_mtx s = None" "t = s\<lparr>x_pc := X_Free, x_pushed := False, cl_mtx := Some ()\<rparr>"
  | "x_pc s = X_Free" "t = s\<lparr>x_pc := X_Unlock, cl_frees := cl_frees s + 1\<rparr>"
  | "x_pc s = X_Unlock" "t = s\<lparr>x_pc := X_End, cl_mtx := None\<rparr>"
proof (cases "x_pc s")
  case X_Lock
  with assms have "cl_mtx s = None" by (simp add: cl_thread_action_def split: if_split_asm)
  with X_Lock assms that(3) show ?thesis by (simp add: cl_thread_action_def)
next
  case X_While
  show ?thesis
  proof (cases "cl_glob s = 0")
    case True
    with X_While assms that(5) show ?thesis by (simp add: cl_thread_action_def)
  next
    case False
    with X_While assms that(6) show ?thesis by (simp add: cl_thread_action_def)
  qed
next
  case X_Woken
  with assms have "cl_mtx s = None" by (simp add: cl_thread_action_def split: if_split_asm)
  with X_Woken assms that(7) show ?thesis by (simp add: cl_thread_action_def)
next
  case X_Unwind
  with assms have "cl_mtx s = None" by (simp add: cl_thread_action_def split: if_split_asm)
  with X_Unwind assms that(10) show ?thesis by (simp add: cl_thread_action_def)
next
  case X_Malloc with assms that(1) show ?thesis by (simp add: cl_thread_action_def)
next
  case X_Print with assms that(2) show ?thesis by (simp add: cl_thread_action_def)
next
  case X_Push with assms that(4) show ?thesis by (simp add: cl_thread_action_def)
next
  case X_Completed with assms that(8) show ?thesis by (simp add: cl_thread_action_def)
next
  case X_Pop with assms that(9) show ?thesis by (simp add: cl_thread_action_def)
next
  case X_Free with assms that(11) show ?thesis by (simp add: cl_thread_action_def)
next
  case X_Unlock with assms that(12) show ?thesis by (simp add: cl_thread_action_def)
qed (use assms in \<open>simp_all add: cl_thread_action_def\<close>)

lemma cl_cancelled_cases:
  assumes "cl_cancelled s = Some t"
  obtains "x_cancel s" "x_pc s = X_Print"
      "t = s\<lparr>x_pc := X_End, x_cancel := False, x_result := R_CANCELED\<rparr>"
  | "x_cancel s" "x_pc s = X_Wait"
      "t = s\<lparr>x_pc := X_Unwind, x_cancel := False, x_result := R_CANCELED\<rparr>"
  | "x_cancel s" "x_pc s = X_Completed"
      "t = s\<lparr>x_pc := X_Free, x_pushed := False, x_cancel := False, x_result := R_CANCELED\<rparr>"
proof -
  have "x_cancel s" using assms by (simp add: cl_cancelled_def split: if_split_asm)
  with assms that show ?thesis by (cases "x_pc s") (simp_all add: cl_cancelled_def)
qed

lemma cl_main_cases:
  assumes "cl_main_action s = Some t"
  obtains "m_pc s = N_Create" "t = s\<lparr>m_pc := N_Act, x_pc := X_Malloc\<rparr>"
  | "m_pc s = N_Act" "cl_argc1 s" "t = s\<lparr>m_pc := N_Join, x_cancel := True\<rparr>"
  | "m_pc s = N_Act" "\<not> cl_argc1 s" "x_pc s = X_Wait" "t = s\<lparr>m_pc := N_Set, x_pc := X_Woken\<rparr>"
  | "m_pc s = N_Act" "\<not> cl_argc1 s" "x_pc s \<noteq> X_Wait" "t = s\<lparr>m_pc := N_Set\<rparr>"
  | "m_pc s = N_Set" "t = s\<lparr>m_pc := N_Join, cl_glob := 1\<rparr>"
  | "m_pc s = N_Join" "x_pc s = X_End" "t = s\<lparr>m_pc := N_Print\<rparr>"
  | "m_pc s = N_Print" "t = s\<lparr>m_pc := N_Exit, m_says := Some (x_result s = R_CANCELED)\<rparr>"
proof (cases "m_pc s")
  case N_Act
  show ?thesis
  proof (cases "cl_argc1 s")
    case True
    with N_Act assms that(2) show ?thesis by (simp add: cl_main_action_def)
  next
    case False
    with N_Act assms that(3,4) show ?thesis by (cases "x_pc s = X_Wait") (simp_all add: cl_main_action_def)
  qed
next
  case N_Join
  with assms have "x_pc s = X_End" by (simp add: cl_main_action_def split: if_split_asm)
  with N_Join assms that(6) show ?thesis by (simp add: cl_main_action_def)
next
  case N_Create with assms that(1) show ?thesis by (simp add: cl_main_action_def)
next
  case N_Set with assms that(5) show ?thesis by (simp add: cl_main_action_def)
next
  case N_Print with assms that(7) show ?thesis by (simp add: cl_main_action_def)
next
  case N_Exit with assms show ?thesis by (simp add: cl_main_action_def)
qed

lemma cl_step_cases:
  assumes "cl_step s t"
  obtains "m_pc s \<noteq> N_Exit" "cl_main_action s = Some t" | "m_pc s \<noteq> N_Exit" "cl_thread_action s = Some t"
  | "m_pc s \<noteq> N_Exit" "cl_cancelled s = Some t"
  | "m_pc s \<noteq> N_Exit" "x_pc s = X_Wait" "t = s\<lparr>x_pc := X_Woken\<rparr>"
proof -
  have "m_pc s \<noteq> N_Exit"
    using assms by (auto simp: cl_step_def cl_thread_step_def cl_do_def)
  moreover from this have "cl_main_action s = Some t \<or> cl_thread_action s = Some t \<or> cl_cancelled s = Some t \<or>
    x_pc s = X_Wait \<and> t = s\<lparr>x_pc := X_Woken\<rparr>"
  proof (cases "\<exists>who. cl_do who s = Some t")
    case True
    then obtain who where "cl_do who s = Some t" ..
    with \<open>m_pc s \<noteq> N_Exit\<close> show ?thesis by (cases who) (simp_all add: cl_do_def)
  qed (use assms in \<open>auto simp: cl_step_def cl_thread_step_def\<close>)
  ultimately show ?thesis using that by blast
qed

lemma lock_ok_unit: "lock_ok h (\<lambda>u. c) \<longleftrightarrow> (c \<longleftrightarrow> h = Some ())"
  by (simp add: lock_ok_def)

lemma cl_mutex_step:
  assumes inv: "cl_mutex_ok s" and "cl_main_ok s" and step: "cl_step s t"
  shows "cl_mutex_ok t"
  using step
proof (cases rule: cl_step_cases)
  case 1
  show ?thesis
    by (rule cl_main_cases [OF 1(2)]) (use inv assms(2) in \<open>auto simp: cl_mutex_ok_def lock_ok_unit cl_inside_def cl_main_ok_def\<close>)
next
  case 2
  show ?thesis
    by (rule cl_thread_cases [OF 2(2)]) (use inv in \<open>simp_all add: cl_mutex_ok_def lock_ok_unit cl_inside_def\<close>)
next
  case 3
  show ?thesis
    by (rule cl_cancelled_cases [OF 3(2)]) (use inv in \<open>simp_all add: cl_mutex_ok_def lock_ok_unit cl_inside_def\<close>)
qed (use inv in \<open>simp add: cl_mutex_ok_def lock_ok_unit cl_inside_def\<close>)

lemma cl_block_step:
  assumes inv: "cl_block_ok s" and "cl_main_ok s" and step: "cl_step s t"
  shows "cl_block_ok t"
  using step
proof (cases rule: cl_step_cases)
  case 1
  show ?thesis
    by (rule cl_main_cases [OF 1(2)]) (use inv assms(2) in \<open>auto simp: cl_block_ok_def guarded_def cl_main_ok_def\<close>)
next
  case 2
  show ?thesis
    by (rule cl_thread_cases [OF 2(2)]) (use inv in \<open>simp_all add: cl_block_ok_def guarded_def\<close>)
next
  case 3
  show ?thesis
    by (rule cl_cancelled_cases [OF 3(2)]) (use inv in \<open>simp_all add: cl_block_ok_def guarded_def\<close>)
qed (use inv in \<open>simp add: cl_block_ok_def guarded_def\<close>)

lemma cl_main_step:
  assumes inv: "cl_main_ok s" and step: "cl_step s t"
  shows "cl_main_ok t"
  using step
proof (cases rule: cl_step_cases)
  case 1
  show ?thesis
    by (rule cl_main_cases [OF 1(2)]) (use inv in \<open>auto simp: cl_main_ok_def\<close>)
next
  case 2
  show ?thesis
    by (rule cl_thread_cases [OF 2(2)]) (use inv 2(1) in \<open>auto simp: cl_main_ok_def\<close>)
next
  case 3
  show ?thesis
    by (rule cl_cancelled_cases [OF 3(2)]) (use inv 3(1) in \<open>auto simp: cl_main_ok_def\<close>)
qed (use inv in \<open>auto simp: cl_main_ok_def\<close>)

lemma cl_mode_step:
  assumes inv: "cl_mode_ok s" and "cl_main_ok s" and step: "cl_step s t"
  shows "cl_mode_ok t"
  using step
proof (cases rule: cl_step_cases)
  case 1
  show ?thesis
    by (rule cl_main_cases [OF 1(2)]) (use inv assms(2) in \<open>auto simp: cl_mode_ok_def cl_main_ok_def split: if_splits\<close>)
next
  case 2
  show ?thesis
    by (rule cl_thread_cases [OF 2(2)]) (use inv in \<open>auto simp: cl_mode_ok_def split: if_splits\<close>)
next
  case 3
  show ?thesis
    by (rule cl_cancelled_cases [OF 3(2)]) (use inv in \<open>auto simp: cl_mode_ok_def split: if_splits\<close>)
qed (use inv in \<open>auto simp: cl_mode_ok_def split: if_splits\<close>)

lemma cl_inv_step: "cl_inv s \<Longrightarrow> cl_step s t \<Longrightarrow> cl_inv t"
  unfolding cl_inv_def by (metis cl_mutex_step cl_block_step cl_main_step cl_mode_step)

lemma cl_inv_init: "cl_init s \<Longrightarrow> cl_inv s"
  by (auto simp: cl_init_def cl_start_def cl_inv_def cl_inv_defs lock_ok_unit cl_inside_def guarded_def)

lemma cl_inv_mutex: "cl_inv s \<Longrightarrow> cl_inside (x_pc s) \<longleftrightarrow> cl_mtx s = Some ()"
  by (simp add: cl_inv_def cl_mutex_ok_def lock_ok_unit)

interpretation cl: locked_system cl_init cl_step cl_inv cl_mtx "\<lambda>s u. cl_inside (x_pc s)"
proof unfold_locales
  show "cl_mtx s = Some u" if "cl_inv s" "cl_inside (x_pc s)" for s and u :: unit
    using that by (simp add: cl_inv_mutex)
qed (fact cl_inv_init, fact cl_inv_step)

text \<open>What is left to do; a wake-up is charged to the signal of \<open>main\<close>, of which there is one.\<close>

definition x_left :: "cl_pc \<Rightarrow> int" where
  "x_left q = (case q of X_None \<Rightarrow> 0 | X_Malloc \<Rightarrow> 14 | X_Print \<Rightarrow> 13 | X_Lock \<Rightarrow> 12 | X_Push \<Rightarrow> 11 | X_Woken \<Rightarrow> 11
     | X_While \<Rightarrow> 10 | X_Completed \<Rightarrow> 8 | X_Pop \<Rightarrow> 7 | X_Wait \<Rightarrow> 6 | X_Unwind \<Rightarrow> 5 | X_Free \<Rightarrow> 4 | X_Unlock \<Rightarrow> 3 | X_End \<Rightarrow> 0)"

definition m_left :: "cl_main_pc \<Rightarrow> int" where
  "m_left q = (case q of N_Create \<Rightarrow> 25 | N_Act \<Rightarrow> 10 | N_Set \<Rightarrow> 4 | N_Join \<Rightarrow> 3 | N_Print \<Rightarrow> 2 | N_Exit \<Rightarrow> 0)"

lemma cl_left_step:
  assumes inv: "cl_inv s" and step: "cl_thread_step s t"
  shows "x_left (x_pc t) + m_left (m_pc t) < x_left (x_pc s) + m_left (m_pc s)"
proof -
  obtain who where "cl_do who s = Some t" using step by (auto simp: cl_thread_step_def)
  then consider "cl_main_action s = Some t" | "cl_thread_action s = Some t" | "cl_cancelled s = Some t"
    by (cases who) (simp_all add: cl_do_def split: if_split_asm)
  then show ?thesis
  proof cases
    case 1
    then show ?thesis
      by (rule cl_main_cases) (use inv in \<open>auto simp: x_left_def m_left_def cl_inv_def cl_main_ok_def\<close>)
  next
    case 2
    then show ?thesis by (rule cl_thread_cases) (simp_all add: x_left_def)
  next
    case 3
    then show ?thesis by (rule cl_cancelled_cases) (simp_all add: x_left_def)
  qed
qed

lemma cl_left_nonneg: "0 \<le> x_left q + m_left r"
  by (cases q; cases r) (simp_all add: x_left_def m_left_def)

interpretation cl_runs: bounded_system cl_init cl_thread_step cl_inv "\<lambda>s. x_left (x_pc s) + m_left (m_pc s)"
proof unfold_locales
  show "cl_inv t" if "cl_inv s" "cl_thread_step s t" for s t
    using that by (auto simp: cl_step_def intro: cl_inv_step)
qed (simp_all add: cl_inv_init cl_left_nonneg cl_left_step)

lemma cl_run_reach: "run_schedule cl_do ws (cl_start a) = Some s \<Longrightarrow> reach cl_init cl_thread_step s"
  by (rule run_schedule_reach [of cl_do]) (auto simp: cl_thread_step_def cl_init_def)

lemma cl_thread_reach: "reach cl_init cl_thread_step s \<Longrightarrow> reach cl_init cl_step s"
proof (induction rule: reach.induct)
  case (reach_step s t)
  then show ?case by (meson cl_step_def reach.reach_step)
qed (rule reach_init)

lemmas cl_run_simps = cl_do_def cl_start_def cl_main_action_def cl_thread_action_def cl_cancelled_def

text \<open>A run in which the thread is cancelled while it waits, and one in which the signal is lost.\<close>

definition cancel_run :: "cl_who list" where
  "cancel_run = [CL_Main, CL_Thread, CL_Thread, CL_Thread, CL_Thread, CL_Thread, CL_Main, CL_Cancelled,
     CL_Thread, CL_Thread, CL_Thread, CL_Main, CL_Main]"

definition lost_run :: "cl_who list" where
  "lost_run = [CL_Main, CL_Thread, CL_Thread, CL_Thread, CL_Thread, CL_Thread, CL_Main, CL_Thread, CL_Thread, CL_Main]"

definition cancel_end :: cl_state where
  "cancel_end = (cl_start True)\<lparr>x_pc := X_End, x_result := R_CANCELED, cl_mallocs := 1, cl_frees := 1,
     m_pc := N_Exit, m_says := Some True\<rparr>"

definition lost_end :: cl_state where
  "lost_end = (cl_start False)\<lparr>cl_glob := 1, x_pc := X_Wait, x_pushed := True, cl_mallocs := 1, m_pc := N_Join\<rparr>"

lemma cancel_run: "run_schedule cl_do cancel_run (cl_start True) = Some cancel_end"
  by (simp add: cancel_run_def cancel_end_def cl_run_simps)

lemma lost_run: "run_schedule cl_do lost_run (cl_start False) = Some lost_end"
  by (simp add: lost_run_def lost_end_def cl_run_simps)

text \<open>When the thread is to be cancelled, somebody can always move.\<close>

lemma cl_cancel_moves:
  assumes inv: "cl_inv s" and that: "cl_argc1 s" "m_pc s \<noteq> N_Exit"
  shows "\<exists>t. cl_thread_step s t"
proof (cases "m_pc s = N_Join")
  case False
  then have "cl_main_action s \<noteq> None"
    using that by (cases "m_pc s") (auto simp: cl_main_action_def)
  then have "cl_do CL_Main s \<noteq> None" using that by (simp add: cl_do_def)
  then show ?thesis unfolding cl_thread_step_def by blast
next
  case True
  have "cl_do CL_Main s \<noteq> None \<or> cl_do CL_Thread s \<noteq> None \<or> cl_do CL_Cancelled s \<noteq> None"
  proof (cases "x_pc s")
    case X_Wait
    then have "x_cancel s" using inv that True
      by (cases "x_result s") (auto simp: cl_inv_def cl_mode_ok_def)
    with X_Wait that show ?thesis by (simp add: cl_do_def cl_cancelled_def)
  next
    case X_None
    with True inv show ?thesis by (simp add: cl_inv_def cl_main_ok_def)
  next
    case X_End
    with True show ?thesis by (simp add: cl_do_def cl_main_action_def)
  qed (use that cl_inv_mutex [OF inv] in \<open>auto simp: cl_do_def cl_thread_action_def cl_inside_def\<close>)
  then show ?thesis unfolding cl_thread_step_def by blast
qed




section \<open>Properties\<close>





text \<open>With no argument the program always ends: the cancellation is never lost and no thread blocks,
  so until \<open>main\<close> exits some thread can move; and what \<open>main\<close> prints at its exit is that the thread
  was cancelled, while with an argument it is that it terminated normally.\<close>

lemma cleanup_cancels:
  assumes "reach cl_init cl_step s"
  shows "(cl_argc1 s \<longrightarrow> m_pc s \<noteq> N_Exit \<longrightarrow> (\<exists>t. cl_thread_step s t)) \<and>
    (m_pc s = N_Exit \<longrightarrow> m_says s = Some (cl_argc1 s))"
proof (intro conjI impI)
  have inv: "cl_inv s" using assms by (rule cl.inv_reach)
  show "\<exists>t. cl_thread_step s t" if "cl_argc1 s" "m_pc s \<noteq> N_Exit"
    using inv that by (rule cl_cancel_moves)
  show "m_says s = Some (cl_argc1 s)" if "m_pc s = N_Exit"
    using inv that by (cases "x_result s") (auto simp: cl_inv_def cl_main_ok_def cl_mode_ok_def split: if_splits)
qed

theorem cleanup_cancels_witness: "m_says cancel_end = Some True"
  using cleanup_cancels [OF cl_thread_reach [OF cl_run_reach [OF cancel_run]]]
  by (simp add: cancel_end_def cl_start_def)

text \<open>C30: With an argument the wake-up can be lost: \<open>main\<close> signals before it sets \<open>glob\<close>, and holds no
  mutex, so there is a run after which the thread sleeps although \<open>glob\<close> is 1, no thread can move, and
  \<open>main\<close> waits for ever in \<open>pthread_join\<close>.\<close>

theorem cleanup_lost_wakeup:
  "\<exists>s. reach cl_init cl_thread_step s \<and> stuck cl_thread_step s \<and> cl_glob s = 1 \<and> x_pc s = X_Wait \<and> m_pc s = N_Join"
proof -
  have "cl_do who lost_end = None" for who
    by (cases who) (simp_all add: lost_end_def cl_run_simps)
  then have "stuck cl_thread_step lost_end" by (simp add: stuck_def cl_thread_step_def)
  with cl_run_reach [OF lost_run] show ?thesis
    by (intro exI [of _ lost_end]) (simp add: lost_end_def)
qed

text \<open>C18: Every run of the program ends: without spurious wake-ups it has at most 25 steps, and with no
  argument it can only end in the exit of \<open>main\<close>, after the report that the thread was cancelled.\<close>

theorem cleanup_terminates:
  assumes "(cl_thread_step ^^ n) (cl_start a) s"
  shows "n \<le> 25 \<and> (stuck cl_thread_step s \<longrightarrow> cl_argc1 s \<longrightarrow> m_pc s = N_Exit \<and> m_says s = Some True)"
proof -
  have start: "cl_inv (cl_start a)" by (rule cl_inv_init) (auto simp: cl_init_def)
  have "int n \<le> 25"
    using cl_runs.run_bound [OF start assms] by (simp add: cl_start_def x_left_def m_left_def)
  moreover have inv: "cl_inv s" by (rule cl_runs.inv_run [OF start assms])
  moreover have "m_pc s = N_Exit" if "stuck cl_thread_step s" "cl_argc1 s"
    using cl_cancel_moves [OF inv that(2)] that(1) by (auto simp: stuck_def)
  moreover have "m_says s = Some True" if "m_pc s = N_Exit" "cl_argc1 s"
    using inv that by (cases "x_result s") (auto simp: cl_inv_def cl_main_ok_def cl_mode_ok_def)
  ultimately show ?thesis by simp
qed

theorem cleanup_terminates_witness: "\<exists>n. (cl_thread_step ^^ n) (cl_start True) cancel_end \<and> n \<le> 25"
proof -
  have "cl_thread_step\<^sup>*\<^sup>* (cl_start True) cancel_end"
    by (rule run_schedule_steps [OF _ cancel_run]) (auto simp: cl_thread_step_def)
  then obtain n where "(cl_thread_step ^^ n) (cl_start True) cancel_end" by (auto dest: rtranclp_imp_relpowp)
  with cleanup_terminates [OF this] show ?thesis by blast
qed

end
