(* ===== verification/Cancel_Loop.thy ===== *)
theory Cancel_Loop imports Systems begin

text \<open>
  \<^verbatim>\<open>src/t_pthread_cancel.c\<close> and \<^verbatim>\<open>src/t_pthread_cancel2.c\<close>: a thread that loops for ever, through
  \<open>pthread_testcancel\<close> in the first program and through \<open>printf\<close> and \<open>sleep\<close> in the second, until
  \<open>main\<close> cancels it and joins it. The calls on threads do not fail here.
\<close>

section \<open>The thread and main\<close>

datatype cn_program = Testcancel | Sleeping
datatype cn_pc = V_None | V_Loop | V_Sleep | V_Ended
datatype cn_main_pc = O_Create | O_Cancel | O_Join | O_Exit

text \<open>\<open>PTHREAD_CANCELED\<close> is the pointer \<open>(void *) -1\<close>.\<close>

definition PTHREAD_CANCELED :: size64 where "PTHREAD_CANCELED = - 1"

datatype cn_report = Exit_With int32 | Is_Canceled | Not_Canceled

record cn_state =
  cn_pc :: cn_pc
  cn_j :: int
  cn_pending :: bool
  cn_ret :: size64
  cn_main :: cn_main_pc
  cn_says :: "cn_report option"

text \<open>A step of the thread; the first program only polls, the second prints \<open>j\<close> and sleeps.\<close>

definition cn_end :: "cn_state \<Rightarrow> cn_state" where
  "cn_end s = s\<lparr>cn_pc := V_Ended, cn_pending := False, cn_ret := PTHREAD_CANCELED\<rparr>"

definition testcancel_step :: "cn_state \<Rightarrow> cn_state option" where
  "testcancel_step s =
     (if cn_pc s = V_Loop then Some (if cn_pending s then cn_end s else s) else None)"

definition sleeping_step :: "cn_state \<Rightarrow> cn_state option" where
  "sleeping_step s =
     (case cn_pc s of
        V_Loop \<Rightarrow> Some (s\<lparr>cn_pc := V_Sleep\<rparr>)
      | V_Sleep \<Rightarrow> (if cn_pending s then Some (cn_end s) else Some (s\<lparr>cn_pc := V_Loop, cn_j := cn_j s + 1\<rparr>))
      | _ \<Rightarrow> None)"

definition cn_thread :: "cn_program \<Rightarrow> cn_state \<Rightarrow> cn_state option" where
  "cn_thread p s = (if cn_main s = O_Exit then None
     else case p of Testcancel \<Rightarrow> testcancel_step s | Sleeping \<Rightarrow> sleeping_step s)"

definition cn_report :: "cn_program \<Rightarrow> size64 \<Rightarrow> cn_report" where
  "cn_report p ret = (case p of
       Testcancel \<Rightarrow> Exit_With (int_of_ssize ret)
     | Sleeping \<Rightarrow> if ret = PTHREAD_CANCELED then Is_Canceled else Not_Canceled)"

definition cn_main_step :: "cn_program \<Rightarrow> cn_state \<Rightarrow> cn_state option" where
  "cn_main_step p s =
     (case cn_main s of
        O_Create \<Rightarrow> Some (s\<lparr>cn_main := O_Cancel, cn_pc := V_Loop, cn_j := 1\<rparr>)
      | O_Cancel \<Rightarrow> Some (s\<lparr>cn_main := O_Join, cn_pending := True\<rparr>)
      | O_Join \<Rightarrow> (if cn_pc s = V_Ended then Some (s\<lparr>cn_main := O_Exit, cn_says := Some (cn_report p (cn_ret s))\<rparr>) else None)
      | O_Exit \<Rightarrow> None)"

definition cn_start :: cn_state where
  "cn_start = \<lparr>cn_pc = V_None, cn_j = 0, cn_pending = False, cn_ret = 0, cn_main = O_Create, cn_says = None\<rparr>"

definition cn_step :: "cn_program \<Rightarrow> cn_state \<Rightarrow> cn_state \<Rightarrow> bool" where
  "cn_step p s t \<longleftrightarrow> cn_main_step p s = Some t \<or> cn_thread p s = Some t"

section \<open>The invariant\<close>

definition cn_inv :: "cn_program \<Rightarrow> cn_state \<Rightarrow> bool" where
  "cn_inv p s \<longleftrightarrow> (cn_main s = O_Create \<longleftrightarrow> cn_pc s = V_None) \<and>
     (cn_main s = O_Cancel \<longrightarrow> cn_pc s \<noteq> V_Ended) \<and>
     (cn_main s = O_Join \<longrightarrow> cn_pc s = V_Ended \<or> cn_pending s) \<and>
     (cn_pc s = V_Ended \<longrightarrow> cn_ret s = PTHREAD_CANCELED) \<and>
     (cn_pending s \<longrightarrow> cn_main s = O_Join \<and> cn_pc s \<noteq> V_Ended) \<and>
     (cn_main s = O_Exit \<longrightarrow> cn_pc s = V_Ended \<and> cn_says s = Some (cn_report p PTHREAD_CANCELED)) \<and>
     (cn_pc s = V_Sleep \<longrightarrow> p = Sleeping)"

lemma cn_main_cases:
  assumes "cn_main_step p s = Some t"
  obtains "cn_main s = O_Create" "t = s\<lparr>cn_main := O_Cancel, cn_pc := V_Loop, cn_j := 1\<rparr>"
  | "cn_main s = O_Cancel" "t = s\<lparr>cn_main := O_Join, cn_pending := True\<rparr>"
  | "cn_main s = O_Join" "cn_pc s = V_Ended" "t = s\<lparr>cn_main := O_Exit, cn_says := Some (cn_report p (cn_ret s))\<rparr>"
proof (cases "cn_main s")
  case O_Create with assms that(1) show ?thesis by (simp add: cn_main_step_def)
next
  case O_Cancel with assms that(2) show ?thesis by (simp add: cn_main_step_def)
next
  case O_Join
  with assms have "cn_pc s = V_Ended" by (simp add: cn_main_step_def split: if_split_asm)
  with O_Join assms that(3) show ?thesis by (simp add: cn_main_step_def)
next
  case O_Exit with assms show ?thesis by (simp add: cn_main_step_def)
qed

lemma cn_thread_cases:
  assumes "cn_thread p s = Some t"
  obtains "cn_main s \<noteq> O_Exit" "cn_pc s = V_Loop \<or> cn_pc s = V_Sleep" "cn_pending s" "t = cn_end s"
  | "cn_main s \<noteq> O_Exit" "cn_pc s = V_Loop" "t = s"
  | "cn_main s \<noteq> O_Exit" "cn_pc s = V_Loop" "p = Sleeping" "t = s\<lparr>cn_pc := V_Sleep\<rparr>"
  | "cn_main s \<noteq> O_Exit" "cn_pc s = V_Sleep" "\<not> cn_pending s" "t = s\<lparr>cn_pc := V_Loop, cn_j := cn_j s + 1\<rparr>"
proof -
  have run: "cn_main s \<noteq> O_Exit" using assms by (auto simp: cn_thread_def)
  show ?thesis
  proof (cases p)
    case Testcancel
    with assms run have "cn_pc s = V_Loop" "t = (if cn_pending s then cn_end s else s)"
      by (auto simp: cn_thread_def testcancel_step_def split: if_split_asm)
    with run that(1,2) show ?thesis by (cases "cn_pending s") simp_all
  next
    case Sleeping
    with assms run have st: "sleeping_step s = Some t" by (simp add: cn_thread_def)
    show ?thesis
    proof (cases "cn_pc s")
      case V_Sleep
      with st run that(1,4) show ?thesis by (cases "cn_pending s") (simp_all add: sleeping_step_def)
    qed (use st run that(3) Sleeping in \<open>simp_all add: sleeping_step_def\<close>)
  qed
qed

lemma cn_inv_step:
  assumes "cn_inv p s" "cn_step p s t"
  shows "cn_inv p t"
  using assms(2) unfolding cn_step_def
proof
  assume "cn_main_step p s = Some t"
  then show ?thesis by (rule cn_main_cases) (use assms(1) in \<open>auto simp: cn_inv_def\<close>)
next
  assume "cn_thread p s = Some t"
  then show ?thesis by (rule cn_thread_cases) (use assms(1) in \<open>auto simp: cn_inv_def cn_end_def\<close>)
qed

lemma cn_inv_start: "s = cn_start \<Longrightarrow> cn_inv p s"
  by (simp add: cn_inv_def cn_start_def)

interpretation cn: invariant_system "\<lambda>s. s = cn_start" "cn_step p" "cn_inv p" for p
  by unfold_locales (fact cn_inv_start, fact cn_inv_step)

lemma canceled_as_int: "int_of_ssize PTHREAD_CANCELED = - 1"
  unfolding int_of_ssize_def PTHREAD_CANCELED_def by (rule bit_word_eqI) (simp add: bit_simps)

section \<open>Properties\<close>

text \<open>The cancellation is answered at once. When \<open>main\<close> waits for the thread, at most two steps of
  the thread end it, in both programs; and when \<open>main\<close> exits it has printed -1, or that the thread
  was cancelled.\<close>

lemma cancel_response:
  assumes "reach (\<lambda>s. s = cn_start) (cn_step p) s"
  shows "(cn_main s = O_Join \<longrightarrow> (\<exists>t. (cn_pc s = V_Ended \<and> t = s \<or> cn_thread p s = Some t \<or>
      Option.bind (cn_thread p s) (cn_thread p) = Some t) \<and> cn_pc t = V_Ended)) \<and>
    (cn_main s = O_Exit \<longrightarrow> cn_says s = Some (case p of Testcancel \<Rightarrow> Exit_With (- 1) | Sleeping \<Rightarrow> Is_Canceled))"
proof (intro conjI impI)
  have inv: "cn_inv p s" using assms by (rule cn.inv_reach)
  show "cn_says s = Some (case p of Testcancel \<Rightarrow> Exit_With (- 1) | Sleeping \<Rightarrow> Is_Canceled)" if "cn_main s = O_Exit"
    using inv that by (cases p) (simp_all add: cn_inv_def cn_report_def canceled_as_int)
  show "\<exists>t. (cn_pc s = V_Ended \<and> t = s \<or> cn_thread p s = Some t \<or>
      Option.bind (cn_thread p s) (cn_thread p) = Some t) \<and> cn_pc t = V_Ended" if join: "cn_main s = O_Join"
  proof (cases "cn_pc s = V_Ended")
    case False
    with inv join have "cn_pending s" "cn_pc s = V_Loop \<or> cn_pc s = V_Sleep \<and> p = Sleeping"
      by (cases "cn_pc s"; auto simp: cn_inv_def)+
    with join show ?thesis
      by (cases p) (auto simp: cn_thread_def testcancel_step_def sleeping_step_def cn_end_def)
  qed auto
qed

definition cn_run :: cn_state where
  "cn_run = cn_start\<lparr>cn_pc := V_Sleep, cn_j := 2, cn_pending := True, cn_main := O_Join\<rparr>"

theorem cancel_response_witness:
  "\<exists>t. cn_thread Sleeping cn_run = Some t \<and> cn_pc t = V_Ended"
proof -
  have "run_schedule (\<lambda>m. if m then cn_main_step Sleeping else cn_thread Sleeping)
    [True, False, False, False, True] cn_start = Some cn_run"
    by (simp add: cn_run_def cn_start_def cn_main_step_def cn_thread_def sleeping_step_def)
  then have "reach (\<lambda>s. s = cn_start) (cn_step Sleeping) cn_run"
    by (rule run_schedule_reach [rotated -1]) (auto simp: cn_step_def split: if_split_asm)
  from cancel_response [OF this] show ?thesis
    by (auto simp: cn_run_def cn_start_def cn_thread_def sleeping_step_def cn_end_def)
qed

end
