(* ===== verification/Mutex_Demos.thy ===== *)
theory Mutex_Demos imports Systems begin

text \<open>
  \<^verbatim>\<open>src/t_pthread_mutexattr.c\<close>, an error-checking mutex that one thread locks and another tries to
  unlock, and \<^verbatim>\<open>src/t_pthread_rdlock.c\<close>, five readers and three writers of one number under a
  read-write lock. A step is one action between two scheduling points.
\<close>

section \<open>An error-checking mutex\<close>

text \<open>
  The set-up of \<open>main\<close>: the results of \<open>pthread_mutexattr_init\<close>, \<open>settype\<close>, \<open>pthread_mutex_init\<close> and
  the two \<open>pthread_create\<close>, of which the first that is not 0 ends the process.
\<close>

definition mx_setup :: "int \<Rightarrow> int \<Rightarrow> int \<Rightarrow> int \<Rightarrow> int \<Rightarrow> unit outcome" where
  "mx_setup s1 s2 s3 s4 s5 =
     (if s1 \<noteq> 0 then Exit EXIT_FAILURE
      else if s2 \<noteq> 0 then Exit EXIT_FAILURE
      else if s3 \<noteq> 0 then Exit EXIT_FAILURE
      else if s4 \<noteq> 0 then Exit EXIT_FAILURE
      else if s5 \<noteq> 0 then Exit EXIT_FAILURE
      else Return ())"

datatype mx_who = Func1 | Func2 | MX_Main
datatype mx_pc = D_Sleep | D_Call | D_Ended
datatype mx_main_pc = Q_Join1 | Q_Join2 | Q_Exit

record mx_state =
  mx_owner :: "mx_who option"
  mx_pc1 :: mx_pc
  mx_pc2 :: mx_pc
  mx_ret2 :: "errno option"          \<comment> \<open>the result of \<open>pthread_mutex_unlock\<close>, which nobody reads\<close>
  mx_main :: mx_main_pc

text \<open>An error-checking mutex: a second lock by its owner fails, as does an unlock by another thread.\<close>

definition errorcheck_lock :: "mx_who \<Rightarrow> mx_who option \<Rightarrow> (mx_who option \<times> errno) option" where
  "errorcheck_lock t m = (case m of
       None \<Rightarrow> Some (Some t, ENONE)
     | Some u \<Rightarrow> if u = t then Some (m, EDEADLK) else None)"

definition errorcheck_unlock :: "mx_who \<Rightarrow> mx_who option \<Rightarrow> mx_who option \<times> errno" where
  "errorcheck_unlock t m = (if m = Some t then (None, ENONE) else (m, EPERM))"

definition func1_step :: "mx_state \<Rightarrow> mx_state option" where
  "func1_step s = (case mx_pc1 s of
       D_Sleep \<Rightarrow> Some (s\<lparr>mx_pc1 := D_Call\<rparr>)
     | D_Call \<Rightarrow> (case errorcheck_lock Func1 (mx_owner s) of
         None \<Rightarrow> None | Some (m, e) \<Rightarrow> Some (s\<lparr>mx_pc1 := D_Ended, mx_owner := m\<rparr>))
     | D_Ended \<Rightarrow> None)"

definition func2_step :: "mx_state \<Rightarrow> mx_state option" where
  "func2_step s = (case mx_pc2 s of
       D_Sleep \<Rightarrow> Some (s\<lparr>mx_pc2 := D_Call\<rparr>)
     | D_Call \<Rightarrow> (case errorcheck_unlock Func2 (mx_owner s) of
         (m, e) \<Rightarrow> Some (s\<lparr>mx_pc2 := D_Ended, mx_owner := m, mx_ret2 := Some e\<rparr>))
     | D_Ended \<Rightarrow> None)"

definition mx_main_step :: "mx_state \<Rightarrow> mx_state option" where
  "mx_main_step s = (case mx_main s of
       Q_Join1 \<Rightarrow> (if mx_pc1 s = D_Ended then Some (s\<lparr>mx_main := Q_Join2\<rparr>) else None)
     | Q_Join2 \<Rightarrow> (if mx_pc2 s = D_Ended then Some (s\<lparr>mx_main := Q_Exit\<rparr>) else None)
     | Q_Exit \<Rightarrow> None)"

definition mx_do :: "mx_who \<Rightarrow> mx_state \<Rightarrow> mx_state option" where
  "mx_do who s = (case who of Func1 \<Rightarrow> func1_step s | Func2 \<Rightarrow> func2_step s | MX_Main \<Rightarrow> mx_main_step s)"

definition mx_step :: "mx_state \<Rightarrow> mx_state \<Rightarrow> bool" where
  "mx_step s t \<longleftrightarrow> (\<exists>who. mx_do who s = Some t)"

definition mx_start :: mx_state where
  "mx_start = \<lparr>mx_owner = None, mx_pc1 = D_Sleep, mx_pc2 = D_Sleep, mx_ret2 = None, mx_main = Q_Join1\<rparr>"

definition mx_inv :: "mx_state \<Rightarrow> bool" where
  "mx_inv s \<longleftrightarrow> mx_owner s = (if mx_pc1 s = D_Ended then Some Func1 else None) \<and>
     mx_ret2 s = (if mx_pc2 s = D_Ended then Some EPERM else None) \<and>
     (mx_main s \<noteq> Q_Join1 \<longrightarrow> mx_pc1 s = D_Ended) \<and> (mx_main s = Q_Exit \<longrightarrow> mx_pc2 s = D_Ended)"

lemmas mx_simps = mx_do_def func1_step_def func2_step_def mx_main_step_def errorcheck_lock_def errorcheck_unlock_def

lemma mx_inv_func1: "mx_inv s \<Longrightarrow> func1_step s = Some t \<Longrightarrow> mx_inv t"
  by (cases "mx_pc1 s") (auto simp: func1_step_def errorcheck_lock_def mx_inv_def)

lemma mx_inv_func2: "mx_inv s \<Longrightarrow> func2_step s = Some t \<Longrightarrow> mx_inv t"
  by (cases "mx_pc2 s"; cases "mx_pc1 s = D_Ended") (auto simp: func2_step_def errorcheck_unlock_def mx_inv_def)

lemma mx_inv_main: "mx_inv s \<Longrightarrow> mx_main_step s = Some t \<Longrightarrow> mx_inv t"
  by (cases "mx_main s") (auto simp: mx_main_step_def mx_inv_def split: if_split_asm)

lemma mx_inv_step:
  assumes "mx_inv s" "mx_step s t"
  shows "mx_inv t"
proof -
  obtain who where "mx_do who s = Some t" using assms(2) by (auto simp: mx_step_def)
  with assms(1) show ?thesis
    by (cases who) (auto simp: mx_do_def intro: mx_inv_func1 mx_inv_func2 mx_inv_main)
qed

lemma mx_inv_start: "s = mx_start \<Longrightarrow> mx_inv s"
  by (simp add: mx_inv_def mx_start_def)

interpretation mx: invariant_system "\<lambda>s. s = mx_start" mx_step mx_inv
  by unfold_locales (fact mx_inv_start, fact mx_inv_step)

section \<open>A read-write lock\<close>

definition READERS :: nat where "READERS = 5"
definition THREADS :: nat where "THREADS = 8"

text \<open>\<open>++ beginnum\<close> is a load and a store of an \<open>int\<close> (\<open>wrap32\<close>); a reader's \<open>printf\<close> is one load.\<close>

datatype rw_pc = Y_None | Y_Lock | Y_Load | Y_Store | Y_Inside | Y_Unlock | Y_Pause

record rw_state =
  beginnum :: int
  rw_writer :: "nat option"
  rw_readers :: "nat set"
  rw_pcs :: "nat \<Rightarrow> rw_pc"
  rw_regs :: "nat \<Rightarrow> int"
  rw_created :: nat
  rw_writes :: nat                   \<comment> \<open>completed increments\<close>

definition rw_start :: rw_state where
  "rw_start = \<lparr>beginnum = 1000, rw_writer = None, rw_readers = {}, rw_pcs = (\<lambda>i. Y_None), rw_regs = (\<lambda>i. 0),
     rw_created = 0, rw_writes = 0\<rparr>"

definition goto :: "nat \<Rightarrow> rw_pc \<Rightarrow> rw_state \<Rightarrow> rw_state" where
  "goto i q s = s\<lparr>rw_pcs := (rw_pcs s)(i := q)\<rparr>"

definition reader_step :: "nat \<Rightarrow> rw_state \<Rightarrow> rw_state option" where
  "reader_step i s = (case rw_pcs s i of
       Y_Lock \<Rightarrow> (if rw_writer s = None then Some (goto i Y_Load (s\<lparr>rw_readers := insert i (rw_readers s)\<rparr>)) else None)
     | Y_Load \<Rightarrow> Some (goto i Y_Inside (s\<lparr>rw_regs := (rw_regs s)(i := beginnum s)\<rparr>))
     | Y_Inside \<Rightarrow> Some (goto i Y_Unlock s)
     | Y_Unlock \<Rightarrow> Some (goto i Y_Pause (s\<lparr>rw_readers := rw_readers s - {i}\<rparr>))
     | Y_Pause \<Rightarrow> Some (goto i Y_Lock s)
     | _ \<Rightarrow> None)"

definition writer_step :: "nat \<Rightarrow> rw_state \<Rightarrow> rw_state option" where
  "writer_step i s = (case rw_pcs s i of
       Y_Lock \<Rightarrow> (if rw_writer s = None \<and> rw_readers s = {} then Some (goto i Y_Load (s\<lparr>rw_writer := Some i\<rparr>)) else None)
     | Y_Load \<Rightarrow> Some (goto i Y_Store (s\<lparr>rw_regs := (rw_regs s)(i := beginnum s)\<rparr>))
     | Y_Store \<Rightarrow> Some (goto i Y_Inside (s\<lparr>beginnum := wrap32 (rw_regs s i + 1), rw_writes := rw_writes s + 1\<rparr>))
     | Y_Inside \<Rightarrow> Some (goto i Y_Unlock s)
     | Y_Unlock \<Rightarrow> Some (goto i Y_Pause (s\<lparr>rw_writer := None\<rparr>))
     | Y_Pause \<Rightarrow> Some (goto i Y_Lock s)
     | _ \<Rightarrow> None)"

text \<open>\<open>main\<close> creates the readers and then the writers, and waits for threads that never end.\<close>

definition rw_main_step :: "rw_state \<Rightarrow> rw_state option" where
  "rw_main_step s = (if rw_created s < THREADS
     then Some (goto (rw_created s) Y_Lock (s\<lparr>rw_created := rw_created s + 1\<rparr>)) else None)"

definition rw_do :: "nat option \<Rightarrow> rw_state \<Rightarrow> rw_state option" where
  "rw_do who s = (case who of None \<Rightarrow> rw_main_step s
     | Some i \<Rightarrow> if i < READERS then reader_step i s else writer_step i s)"

definition rw_step :: "rw_state \<Rightarrow> rw_state \<Rightarrow> bool" where
  "rw_step s t \<longleftrightarrow> (\<exists>who. rw_do who s = Some t)"

text \<open>Inside the lock, and what holds then.\<close>

definition rw_inside :: "rw_pc \<Rightarrow> bool" where
  "rw_inside q \<longleftrightarrow> q \<in> {Y_Load, Y_Store, Y_Inside, Y_Unlock}"

definition rw_lock_ok :: "rw_state \<Rightarrow> bool" where
  "rw_lock_ok s \<longleftrightarrow> (\<forall>i. i < READERS \<longrightarrow> (i \<in> rw_readers s \<longleftrightarrow> rw_inside (rw_pcs s i))) \<and>
     (\<forall>i. READERS \<le> i \<longrightarrow> i \<notin> rw_readers s \<and> (rw_writer s = Some i \<longleftrightarrow> rw_inside (rw_pcs s i))) \<and>
     (\<forall>i. rw_writer s = Some i \<longrightarrow> READERS \<le> i \<and> rw_readers s = {})"

definition rw_num_ok :: "rw_state \<Rightarrow> bool" where
  "rw_num_ok s \<longleftrightarrow> beginnum s = wrap32 (1000 + int (rw_writes s)) \<and>
     (\<forall>i. READERS \<le> i \<longrightarrow> rw_pcs s i = Y_Store \<longrightarrow> rw_regs s i = beginnum s) \<and>
     (\<forall>i. i < READERS \<longrightarrow> rw_pcs s i \<noteq> Y_Store \<and> (rw_pcs s i \<in> {Y_Inside, Y_Unlock} \<longrightarrow> rw_regs s i = beginnum s))"

definition rw_made_ok :: "rw_state \<Rightarrow> bool" where
  "rw_made_ok s \<longleftrightarrow> (\<forall>i. rw_pcs s i \<noteq> Y_None \<longleftrightarrow> i < rw_created s) \<and> rw_created s \<le> THREADS"

definition rw_inv :: "rw_state \<Rightarrow> bool" where
  "rw_inv s \<longleftrightarrow> rw_lock_ok s \<and> rw_num_ok s \<and> rw_made_ok s"

lemma goto_simps [simp]:
  "rw_pcs (goto i q s) = (rw_pcs s)(i := q)" "rw_writer (goto i q s) = rw_writer s" "rw_readers (goto i q s) = rw_readers s"
  "beginnum (goto i q s) = beginnum s" "rw_regs (goto i q s) = rw_regs s" "rw_created (goto i q s) = rw_created s"
  "rw_writes (goto i q s) = rw_writes s"
  by (simp_all add: goto_def)

lemma reader_cases:
  assumes "reader_step i s = Some t"
  obtains "rw_pcs s i = Y_Lock" "rw_writer s = None" "t = goto i Y_Load (s\<lparr>rw_readers := insert i (rw_readers s)\<rparr>)"
  | "rw_pcs s i = Y_Load" "t = goto i Y_Inside (s\<lparr>rw_regs := (rw_regs s)(i := beginnum s)\<rparr>)"
  | "rw_pcs s i = Y_Inside" "t = goto i Y_Unlock s"
  | "rw_pcs s i = Y_Unlock" "t = goto i Y_Pause (s\<lparr>rw_readers := rw_readers s - {i}\<rparr>)"
  | "rw_pcs s i = Y_Pause" "t = goto i Y_Lock s"
  using assms by (cases "rw_pcs s i") (simp_all add: reader_step_def split: if_split_asm)

lemma writer_cases:
  assumes "writer_step i s = Some t"
  obtains "rw_pcs s i = Y_Lock" "rw_writer s = None" "rw_readers s = {}" "t = goto i Y_Load (s\<lparr>rw_writer := Some i\<rparr>)"
  | "rw_pcs s i = Y_Load" "t = goto i Y_Store (s\<lparr>rw_regs := (rw_regs s)(i := beginnum s)\<rparr>)"
  | "rw_pcs s i = Y_Store" "t = goto i Y_Inside (s\<lparr>beginnum := wrap32 (rw_regs s i + 1), rw_writes := rw_writes s + 1\<rparr>)"
  | "rw_pcs s i = Y_Inside" "t = goto i Y_Unlock s"
  | "rw_pcs s i = Y_Unlock" "t = goto i Y_Pause (s\<lparr>rw_writer := None\<rparr>)"
  | "rw_pcs s i = Y_Pause" "t = goto i Y_Lock s"
  using assms by (cases "rw_pcs s i") (simp_all add: writer_step_def split: if_split_asm)

lemma reader_lock_step:
  assumes "i < READERS" "rw_lock_ok s" "reader_step i s = Some t"
  shows "rw_lock_ok t"
  using assms(3) by (rule reader_cases) (use assms(1,2) in \<open>auto simp: rw_lock_ok_def rw_inside_def\<close>)

lemma writer_inside_alone:
  assumes "rw_lock_ok s" "READERS \<le> i" "rw_inside (rw_pcs s i)" "j \<noteq> i"
  shows "\<not> rw_inside (rw_pcs s j)"
proof (cases "j < READERS")
  case True
  from assms have "rw_writer s = Some i" by (simp add: rw_lock_ok_def)
  with assms(1) have "rw_readers s = {}" by (simp add: rw_lock_ok_def)
  with assms(1) True show ?thesis by (auto simp: rw_lock_ok_def)
next
  case False
  from assms have "rw_writer s = Some i" by (simp add: rw_lock_ok_def)
  with assms(4) have "rw_writer s \<noteq> Some j" by simp
  with False assms(1) show ?thesis unfolding rw_lock_ok_def by (meson not_le_imp_less)
qed

lemma writer_lock_step:
  assumes "READERS \<le> i" "rw_lock_ok s" "writer_step i s = Some t"
  shows "rw_lock_ok t"
  using assms(3)
proof (rule writer_cases)
  assume u: "rw_pcs s i = Y_Unlock" "t = goto i Y_Pause (s\<lparr>rw_writer := None\<rparr>)"
  then have "\<not> rw_inside (rw_pcs s j)" if "j \<noteq> i" for j
    using writer_inside_alone [OF assms(2,1) _ that] by (simp add: rw_inside_def)
  moreover have "\<not> rw_inside Y_Pause" by (simp add: rw_inside_def)
  ultimately show ?thesis using u assms(1,2) by (auto simp: rw_lock_ok_def)
qed (use assms(1,2) in \<open>auto simp: rw_lock_ok_def rw_inside_def\<close>)

lemma reader_num_step:
  assumes "i < READERS" "rw_num_ok s" "reader_step i s = Some t"
  shows "rw_num_ok t"
  using assms(3) by (rule reader_cases) (use assms(1,2) in \<open>auto simp: rw_num_ok_def\<close>)

lemma writer_num_step:
  assumes "READERS \<le> i" "rw_lock_ok s" "rw_num_ok s" "writer_step i s = Some t"
  shows "rw_num_ok t"
  using assms(4)
proof (rule writer_cases)
  assume st: "rw_pcs s i = Y_Store" "t = goto i Y_Inside (s\<lparr>beginnum := wrap32 (rw_regs s i + 1), rw_writes := rw_writes s + 1\<rparr>)"
  then have "\<not> rw_inside (rw_pcs s j)" if "j \<noteq> i" for j
    using writer_inside_alone [OF assms(2,1) _ that] by (simp add: rw_inside_def)
  then have "rw_pcs s j \<notin> {Y_Store, Y_Inside, Y_Unlock}" if "j \<noteq> i" for j
    using that by (auto simp: rw_inside_def)
  with st assms(1,3) show ?thesis by (auto simp: rw_num_ok_def)
qed (use assms(1,3) in \<open>auto simp: rw_num_ok_def\<close>)

lemma made_goto:
  assumes "rw_made_ok s" "rw_pcs s i \<noteq> Y_None" "q \<noteq> Y_None" "rw_pcs t = (rw_pcs s)(i := q)" "rw_created t = rw_created s"
  shows "rw_made_ok t"
  unfolding rw_made_ok_def
proof (intro conjI allI)
  fix j
  show "rw_pcs t j \<noteq> Y_None \<longleftrightarrow> j < rw_created t"
    using assms by (cases "j = i") (simp_all add: rw_made_ok_def)
qed (use assms in \<open>simp add: rw_made_ok_def\<close>)

lemma reader_made_step:
  assumes "rw_made_ok s" "reader_step i s = Some t"
  shows "rw_made_ok t"
  using assms(2) by (rule reader_cases) (rule made_goto [OF assms(1), of i]; simp)+

lemma writer_made_step:
  assumes "rw_made_ok s" "writer_step i s = Some t"
  shows "rw_made_ok t"
  using assms(2) by (rule writer_cases) (rule made_goto [OF assms(1), of i]; simp)+

lemma main_create_step:
  assumes inv: "rw_inv s" and "rw_main_step s = Some t"
  shows "rw_inv t"
proof -
  have t: "rw_created s < THREADS" "t = goto (rw_created s) Y_Lock (s\<lparr>rw_created := rw_created s + 1\<rparr>)"
    using assms(2) by (simp_all add: rw_main_step_def split: if_split_asm)
  have new: "rw_pcs s (rw_created s) = Y_None" using inv by (auto simp: rw_inv_def rw_made_ok_def)
  have "rw_lock_ok t" using inv new by (auto simp: t rw_inv_def rw_lock_ok_def rw_inside_def)
  moreover have "rw_num_ok t" using inv by (auto simp: t rw_inv_def rw_num_ok_def)
  moreover have "rw_made_ok t" using inv t(1) by (auto simp: t(2) rw_inv_def rw_made_ok_def less_Suc_eq)
  ultimately show ?thesis by (simp add: rw_inv_def)
qed

lemma rw_inv_step:
  assumes inv: "rw_inv s" and "rw_step s t"
  shows "rw_inv t"
proof -
  obtain who where who: "rw_do who s = Some t" using assms(2) by (auto simp: rw_step_def)
  show ?thesis
  proof (cases who)
    case None
    with who inv show ?thesis by (simp add: rw_do_def main_create_step)
  next
    case (Some i)
    show ?thesis
    proof (cases "i < READERS")
      case True
      with Some who have "reader_step i s = Some t" by (simp add: rw_do_def)
      with True inv show ?thesis
        unfolding rw_inv_def by (blast intro: reader_lock_step reader_num_step reader_made_step)
    next
      case False
      with Some who have "writer_step i s = Some t" by (simp add: rw_do_def)
      moreover have "READERS \<le> i" using False by simp
      ultimately show ?thesis
        using inv unfolding rw_inv_def by (blast intro: writer_lock_step writer_num_step writer_made_step)
    qed
  qed
qed

lemma rw_inv_start: "s = rw_start \<Longrightarrow> rw_inv s"
  by (simp add: rw_inv_def rw_lock_ok_def rw_num_ok_def rw_made_ok_def rw_start_def rw_inside_def wrap32_def)

definition rw_writing :: "rw_state \<Rightarrow> nat \<Rightarrow> bool" where
  "rw_writing s i \<longleftrightarrow> READERS \<le> i \<and> rw_inside (rw_pcs s i)"

interpretation rw: locked_system "\<lambda>s. s = rw_start" rw_step rw_inv rw_writer rw_writing
proof unfold_locales
  show "rw_writer s = Some i" if "rw_inv s" "rw_writing s i" for s i
    using that by (simp add: rw_inv_def rw_lock_ok_def rw_writing_def)
qed (fact rw_inv_start, fact rw_inv_step)

section \<open>Nobody is kept out for good\<close>

text \<open>The steps a thread still has to make before it has left the lock.\<close>

fun to_leave :: "rw_pc \<Rightarrow> nat" where
  "to_leave Y_Load = 4" | "to_leave Y_Store = 3" | "to_leave Y_Inside = 2" | "to_leave Y_Unlock = 1"
| "to_leave _ = 0"

lemma rw_inside_leave: "rw_inside q \<longleftrightarrow> 0 < to_leave q"
  by (cases q) (simp_all add: rw_inside_def)

lemma leave_step:
  assumes "rw_inv s" and "rw_inside (rw_pcs s i)"
  shows "\<exists>t q. rw_step s t \<and> rw_pcs t = (rw_pcs s)(i := q) \<and> to_leave q < to_leave (rw_pcs s i) \<and>
    rw_created t = rw_created s"
proof -
  let ?t = "if i < READERS then reader_step i s else writer_step i s"
  have "i < READERS \<Longrightarrow> rw_pcs s i \<noteq> Y_Store" using assms(1) by (simp add: rw_inv_def rw_num_ok_def)
  then have "\<exists>t q. ?t = Some t \<and> rw_pcs t = (rw_pcs s)(i := q) \<and> to_leave q < to_leave (rw_pcs s i) \<and>
      rw_created t = rw_created s"
    using assms(2) by (cases "rw_pcs s i") (auto simp: rw_inside_def reader_step_def writer_step_def)
  moreover have "rw_do (Some i) s = ?t" by (simp add: rw_do_def)
  ultimately show ?thesis unfolding rw_step_def by metis
qed

lemma rw_inside_created: "rw_inv s \<Longrightarrow> rw_inside (rw_pcs s i) \<Longrightarrow> i < THREADS"
  unfolding rw_inv_def rw_made_ok_def rw_inside_def
  by (metis empty_iff insert_iff order_less_le_trans rw_pc.distinct(3,5,7,9))

lemma all_created:
  "rw_inv s \<Longrightarrow> \<exists>t. rw_step\<^sup>*\<^sup>* s t \<and> rw_created t = THREADS"
proof (induction "THREADS - rw_created s" arbitrary: s)
  case 0
  then have "rw_created s = THREADS" by (simp add: rw_inv_def rw_made_ok_def)
  then show ?case by blast
next
  case (Suc n)
  let ?t = "goto (rw_created s) Y_Lock (s\<lparr>rw_created := rw_created s + 1\<rparr>)"
  from Suc.hyps(2) have "rw_do None s = Some ?t" by (simp add: rw_do_def rw_main_step_def)
  then have st: "rw_step s ?t" unfolding rw_step_def by blast
  moreover have "n = THREADS - rw_created ?t" using Suc.hyps(2) by simp
  ultimately show ?case using Suc.hyps(1) [of ?t] rw_inv_step [OF Suc.prems st] by (meson steps_before)
qed

lemma lock_drains:
  "rw_inv s \<Longrightarrow> \<exists>t. rw_step\<^sup>*\<^sup>* s t \<and> rw_created t = rw_created s \<and> (\<forall>j. \<not> rw_inside (rw_pcs t j))"
proof (induction "\<Sum>i < THREADS. to_leave (rw_pcs s i)" arbitrary: s rule: less_induct)
  case less
  show ?case
  proof (cases "\<exists>i. rw_inside (rw_pcs s i)")
    case True
    then obtain i where i: "rw_inside (rw_pcs s i)" by blast
    with leave_step [OF less.prems] obtain t q where t: "rw_step s t" "rw_pcs t = (rw_pcs s)(i := q)"
      "to_leave q < to_leave (rw_pcs s i)" "rw_created t = rw_created s" by blast
    have "(\<Sum>j < THREADS. to_leave (rw_pcs t j)) < (\<Sum>j < THREADS. to_leave (rw_pcs s j))"
      by (rule sum_strict_mono_ex1) (use t rw_inside_created [OF less.prems i] in \<open>auto intro!: bexI [of _ i]\<close>)
    from less.hyps [OF this rw_inv_step [OF less.prems t(1)]] t(1,4) show ?thesis
      by (metis steps_before)
  qed blast
qed

text \<open>With the lock free, a thread that wants it goes through its pause and takes it.\<close>

lemma takes_free_lock:
  assumes "rw_inv s" and "rw_created s = THREADS" and "\<forall>j. \<not> rw_inside (rw_pcs s j)" and "k < THREADS"
  shows "\<exists>t. rw_step\<^sup>*\<^sup>* s t \<and> rw_inside (rw_pcs t k)"
proof -
  have free: "rw_writer s = None" "rw_readers s = {}"
    using assms(1,3) unfolding rw_inv_def rw_lock_ok_def by (metis not_None_eq, metis equals0I not_le_imp_less)
  have lock: "\<exists>t. rw_step u t \<and> rw_inside (rw_pcs t k)"
    if "rw_pcs u k = Y_Lock" "rw_writer u = None" "rw_readers u = {}" for u
  proof -
    have "\<exists>t. rw_do (Some k) u = Some t \<and> rw_pcs t k = Y_Load"
      using that by (simp add: rw_do_def reader_step_def writer_step_def)
    then show ?thesis unfolding rw_step_def rw_inside_def by (metis insertCI)
  qed
  have "rw_pcs s k \<noteq> Y_None" using assms(1,2,4) by (simp add: rw_inv_def rw_made_ok_def)
  then consider "rw_pcs s k = Y_Lock" | "rw_pcs s k = Y_Pause"
    using assms(3) by (cases "rw_pcs s k") (auto simp: rw_inside_def)
  then show ?thesis
  proof cases
    case 1
    with lock [OF _ free] show ?thesis by blast
  next
    case 2
    then have "rw_do (Some k) s = Some (goto k Y_Lock s)" by (simp add: rw_do_def reader_step_def writer_step_def)
    then have "rw_step s (goto k Y_Lock s)" unfolding rw_step_def by blast
    moreover have "\<exists>t. rw_step (goto k Y_Lock s) t \<and> rw_inside (rw_pcs t k)" using free by (intro lock) simp_all
    ultimately show ?thesis by (metis r_into_rtranclp steps_before)
  qed
qed

lemma gets_inside:
  assumes "rw_inv s" and "k < THREADS"
  shows "\<exists>t. rw_step\<^sup>*\<^sup>* s t \<and> rw_inside (rw_pcs t k)"
proof -
  obtain u where u: "rw_step\<^sup>*\<^sup>* s u" "rw_created u = THREADS" using all_created [OF assms(1)] by blast
  then have inv: "rw_inv u" using assms(1) by (blast intro: rw.inv_steps)
  obtain v where v: "rw_step\<^sup>*\<^sup>* u v" "rw_created v = THREADS" "\<forall>j. \<not> rw_inside (rw_pcs v j)"
    using lock_drains [OF inv] u(2) by auto
  then have "rw_inv v" using inv by (blast intro: rw.inv_steps)
  from takes_free_lock [OF this v(2,3) assms(2)] u(1) v(1) show ?thesis by (meson rtranclp_trans)
qed

section \<open>Properties\<close>

text \<open>The unlock by the second thread never succeeds, in whatever order the threads run: it is
  refused with EPERM, and when \<open>main\<close> exits, with success, the mutex is still locked by a thread
  that has ended; neither result is looked at.\<close>

lemma mutex_left_locked:
  assumes "reach (\<lambda>s. s = mx_start) mx_step s"
  shows "mx_owner s \<noteq> Some Func2 \<and> (mx_pc2 s = D_Ended \<longrightarrow> mx_ret2 s = Some EPERM) \<and>
    (mx_main s = Q_Exit \<longrightarrow> mx_owner s = Some Func1 \<and> mx_pc1 s = D_Ended) \<and>
    (mx_main s \<noteq> Q_Exit \<longrightarrow> (\<exists>t. mx_step s t))"
proof -
  have inv: "mx_inv s" using assms by (rule mx.inv_reach)
  have "\<exists>t. mx_step s t" if "mx_main s \<noteq> Q_Exit"
  proof -
    have "mx_do Func1 s \<noteq> None \<or> mx_do Func2 s \<noteq> None \<or> mx_do MX_Main s \<noteq> None"
      using inv that
      by (cases "mx_pc1 s"; cases "mx_pc2 s"; cases "mx_main s") (simp_all add: mx_inv_def mx_simps)
    then show ?thesis unfolding mx_step_def by blast
  qed
  with inv show ?thesis by (auto simp: mx_inv_def)
qed

definition mx_end :: mx_state where
  "mx_end = \<lparr>mx_owner = Some Func1, mx_pc1 = D_Ended, mx_pc2 = D_Ended, mx_ret2 = Some EPERM, mx_main = Q_Exit\<rparr>"

theorem mutex_left_locked_witness: "mx_owner mx_end = Some Func1 \<and> mx_ret2 mx_end = Some EPERM"
proof -
  have "run_schedule mx_do [Func1, Func2, Func1, Func2, MX_Main, MX_Main] mx_start = Some mx_end"
    by (simp add: mx_end_def mx_start_def mx_simps)
  then have "reach (\<lambda>s. s = mx_start) mx_step mx_end"
    by (rule run_schedule_reach [rotated -1]) (auto simp: mx_step_def)
  from mutex_left_locked [OF this] show ?thesis by (simp add: mx_end_def)
qed

text \<open>C17: A writer excludes every other thread, no increment is lost (as long as the number is an
  \<open>int\<close>; on the machine it wraps around then), and what a reader has read stays true while it
  holds the lock. And no thread keeps another out for good: from every reachable state, whoever is
  inside then, each of the eight threads can still get inside.\<close>

theorem rwlock_exclusive:
  assumes "reach (\<lambda>s. s = rw_start) rw_step s"
  shows "(rw_writing s i \<longrightarrow> rw_inside (rw_pcs s j) \<longrightarrow> i = j) \<and>
    beginnum s = wrap32 (1000 + int (rw_writes s)) \<and>
    (1000 + int (rw_writes s) < 2 ^ 31 \<longrightarrow> beginnum s = 1000 + int (rw_writes s)) \<and>
    (j < READERS \<longrightarrow> rw_pcs s j \<in> {Y_Inside, Y_Unlock} \<longrightarrow> rw_regs s j = beginnum s) \<and>
    (k < THREADS \<longrightarrow> (\<exists>t. rw_step\<^sup>*\<^sup>* s t \<and> rw_inside (rw_pcs t k)))"
proof -
  have inv: "rw_inv s" using assms by (rule rw.inv_reach)
  have "rw_writing s i \<longrightarrow> rw_inside (rw_pcs s j) \<longrightarrow> i = j"
    using inv writer_inside_alone [of s i j] by (auto simp: rw_inv_def rw_writing_def)
  then show ?thesis
    using inv gets_inside [OF inv, of k] by (auto simp: rw_inv_def rw_num_ok_def wrap32_id)
qed

text \<open>A run: all threads are created, a reader reads and leaves, and a writer is inside.\<close>

definition rw_schedule :: "nat option list" where
  "rw_schedule = replicate 8 None @ replicate 4 (Some 0) @ replicate 3 (Some 6)"

theorem rwlock_exclusive_witness:
  "\<exists>s. run_schedule rw_do rw_schedule rw_start = Some s \<and> rw_writing s 6 \<and> \<not> rw_inside (rw_pcs s 0) \<and>
    beginnum s = 1001 \<and> (\<exists>t. rw_step\<^sup>*\<^sup>* s t \<and> rw_inside (rw_pcs t 7))"
proof -
  have "map_option (\<lambda>s. (beginnum s, rw_pcs s 6)) (run_schedule rw_do rw_schedule rw_start) = Some (1001, Y_Inside)"
    by code_simp
  then obtain s where s: "run_schedule rw_do rw_schedule rw_start = Some s" "rw_pcs s 6 = Y_Inside" "beginnum s = 1001"
    by auto
  have "reach (\<lambda>s. s = rw_start) rw_step s"
    by (rule run_schedule_reach [OF _ _ s(1)]) (auto simp: rw_step_def)
  from rwlock_exclusive [OF this, of 6 0 7] s show ?thesis
    by (auto simp: rw_writing_def READERS_def THREADS_def rw_inside_def)
qed

end
