(* ===== verification/Thread_Demos.thy ===== *)
theory Thread_Demos imports Systems C_Text begin

text \<open>
  The programs that create one or a few threads: \<^verbatim>\<open>src/t_pthread_create.c\<close>, \<^verbatim>\<open>t_pthread_create_2.c\<close>,
  \<^verbatim>\<open>t_pthread_detach.c\<close>, \<^verbatim>\<open>t_pthread_attr.c\<close> and \<^verbatim>\<open>t_pthread_equal.c\<close>, where the question is whether the
  thread runs to its end before the process does, and \<^verbatim>\<open>t_pthread_join.c\<close> and \<^verbatim>\<open>t_pthread_join2.c\<close>,
  where it is the value that \<open>pthread_join\<close> brings back.
\<close>

section \<open>Whether the thread outlives main\<close>

text \<open>
  Each of the five programs is the list of the actions of its thread and of its \<open>main\<close>. The sleeps
  may end at any time. A \<open>main\<close> that returns ends the process; one that calls \<open>pthread_exit\<close> ends
  its thread only.
\<close>

datatype td_line = From_Main | From_Thread | Thread_Start | Thread_End
datatype td_act = Create | Say td_line | Sleep | Detach | Return_0 | Pthread_Exit

definition create_func :: "td_act list" where "create_func = [Say From_Thread]"
definition create_main :: "td_act list" where "create_main = [Create, Say From_Main, Sleep, Return_0]"

definition create_2_func :: "td_act list" where "create_2_func = [Say From_Thread, Pthread_Exit]"
definition create_2_main :: "td_act list" where "create_2_main = [Create, Say From_Main, Pthread_Exit]"

definition detach_func :: "td_act list" where "detach_func = [Say Thread_Start, Sleep, Say Thread_End]"
definition detach_main :: "td_act list" where "detach_main = [Create, Detach, Sleep, Return_0]"

definition equal_main :: "td_act list" where "equal_main = [Say From_Main, Return_0]"

record td_state =
  td_main :: "td_act list option"     \<comment> \<open>what \<open>main\<close> still does, \<open>None\<close> when its thread has ended\<close>
  td_thread :: "td_act list option"
  td_out :: "td_line list"
  td_ended :: bool                    \<comment> \<open>the process has ended\<close>

text \<open>The next action of a thread with the actions \<open>acts\<close> left; \<open>func\<close> is what a new thread does.\<close>

definition td_main_step :: "td_act list \<Rightarrow> td_state \<Rightarrow> td_state option" where
  "td_main_step func s =
     (if td_ended s then None
      else case td_main s of
        None \<Rightarrow> None
      | Some [] \<Rightarrow> None
      | Some (a # acts) \<Rightarrow>
          (case a of
             Create \<Rightarrow> Some (s\<lparr>td_main := Some acts, td_thread := Some func\<rparr>)
           | Say l \<Rightarrow> Some (s\<lparr>td_main := Some acts, td_out := td_out s @ [l]\<rparr>)
           | Sleep \<Rightarrow> Some (s\<lparr>td_main := Some acts\<rparr>)
           | Detach \<Rightarrow> Some (s\<lparr>td_main := Some acts\<rparr>)
           | Return_0 \<Rightarrow> Some (s\<lparr>td_main := None, td_ended := True\<rparr>)
           | Pthread_Exit \<Rightarrow> Some (s\<lparr>td_main := None, td_ended := (td_thread s = None)\<rparr>)))"

text \<open>The thread ends at the end of its function; the process ends with its last thread.\<close>

definition td_thread_step :: "td_state \<Rightarrow> td_state option" where
  "td_thread_step s =
     (if td_ended s then None
      else case td_thread s of
        None \<Rightarrow> None
      | Some [] \<Rightarrow> Some (s\<lparr>td_thread := None, td_ended := (td_main s = None)\<rparr>)
      | Some (a # acts) \<Rightarrow>
          (case a of
             Say l \<Rightarrow> Some (s\<lparr>td_thread := Some acts, td_out := td_out s @ [l]\<rparr>)
           | Pthread_Exit \<Rightarrow> Some (s\<lparr>td_thread := None, td_ended := (td_main s = None)\<rparr>)
           | _ \<Rightarrow> Some (s\<lparr>td_thread := Some acts\<rparr>)))"

definition td_start :: "td_act list \<Rightarrow> td_state" where
  "td_start m = \<lparr>td_main = Some m, td_thread = None, td_out = [], td_ended = False\<rparr>"

definition td_do :: "td_act list \<Rightarrow> bool \<Rightarrow> td_state \<Rightarrow> td_state option" where
  "td_do func main s = (if main then td_main_step func s else td_thread_step s)"

definition td_step :: "td_act list \<Rightarrow> td_state \<Rightarrow> td_state \<Rightarrow> bool" where
  "td_step func s t \<longleftrightarrow> (\<exists>main. td_do func main s = Some t)"

text \<open>Where \<open>t_pthread_create_2\<close> can be.\<close>

definition create_2_inv :: "td_state \<Rightarrow> bool" where
  "create_2_inv s \<longleftrightarrow>
     td_main s \<in> {Some create_2_main, Some [Say From_Main, Pthread_Exit], Some [Pthread_Exit], None} \<and>
     td_thread s \<in> {None, Some create_2_func, Some [Pthread_Exit]} \<and>
     (td_main s = Some create_2_main \<longrightarrow> td_thread s = None \<and> \<not> td_ended s) \<and>
     (td_main s \<in> {Some [Pthread_Exit], None} \<longrightarrow> From_Main \<in> set (td_out s)) \<and>
     (td_main s \<noteq> Some create_2_main \<and> td_thread s \<noteq> Some create_2_func \<longrightarrow> From_Thread \<in> set (td_out s)) \<and>
     (td_ended s \<longleftrightarrow> td_main s = None \<and> td_thread s = None)"

lemmas create_2_defs = create_2_inv_def create_2_main_def create_2_func_def

lemma create_2_inv_start: "s = td_start create_2_main \<Longrightarrow> create_2_inv s"
  by (simp add: create_2_defs td_start_def)

lemma create_2_main_inv:
  assumes inv: "create_2_inv s" and step: "td_main_step create_2_func s = Some t"
  shows "create_2_inv t"
proof -
  obtain m th out e where s: "s = \<lparr>td_main = m, td_thread = th, td_out = out, td_ended = e\<rparr>" by (cases s)
  have "\<not> e" using step by (cases e) (simp_all add: s td_main_step_def)
  have "m \<noteq> None" using step \<open>\<not> e\<close> by (cases m) (simp_all add: s td_main_step_def)
  with inv consider "m = Some create_2_main" | "m = Some [Say From_Main, Pthread_Exit]" | "m = Some [Pthread_Exit]"
    by (auto simp: s create_2_inv_def)
  then show ?thesis
  proof cases
    case 1
    with step \<open>\<not> e\<close> have "t = \<lparr>td_main = Some [Say From_Main, Pthread_Exit], td_thread = Some create_2_func, td_out = out, td_ended = False\<rparr>"
      by (simp add: s td_main_step_def create_2_main_def)
    then show ?thesis by (simp add: create_2_defs)
  next
    case 2
    with step \<open>\<not> e\<close> have "t = \<lparr>td_main = Some [Pthread_Exit], td_thread = th, td_out = out @ [From_Main], td_ended = False\<rparr>"
      by (simp add: s td_main_step_def)
    with inv 2 \<open>\<not> e\<close> show ?thesis by (simp add: create_2_defs s)
  next
    case 3
    with step \<open>\<not> e\<close> have "t = \<lparr>td_main = None, td_thread = th, td_out = out, td_ended = (th = None)\<rparr>"
      by (simp add: s td_main_step_def)
    with inv 3 show ?thesis by (simp add: create_2_defs s)
  qed
qed

lemma create_2_thread_inv:
  assumes inv: "create_2_inv s" and step: "td_thread_step s = Some t"
  shows "create_2_inv t"
proof -
  obtain m th out e where s: "s = \<lparr>td_main = m, td_thread = th, td_out = out, td_ended = e\<rparr>" by (cases s)
  have "\<not> e" using step by (cases e) (simp_all add: s td_thread_step_def)
  have "th \<noteq> None" using step \<open>\<not> e\<close> by (cases th) (simp_all add: s td_thread_step_def)
  with inv consider "th = Some create_2_func" | "th = Some [Pthread_Exit]"
    by (auto simp: s create_2_inv_def)
  then show ?thesis
  proof cases
    case 1
    with step \<open>\<not> e\<close> have "t = \<lparr>td_main = m, td_thread = Some [Pthread_Exit], td_out = out @ [From_Thread], td_ended = False\<rparr>"
      by (simp add: s td_thread_step_def create_2_func_def)
    with inv 1 \<open>\<not> e\<close> show ?thesis by (auto simp: create_2_defs s)
  next
    case 2
    with step \<open>\<not> e\<close> have "t = \<lparr>td_main = m, td_thread = None, td_out = out, td_ended = (m = None)\<rparr>"
      by (simp add: s td_thread_step_def)
    with inv 2 show ?thesis by (auto simp: create_2_defs s)
  qed
qed

lemma create_2_inv_step:
  assumes "create_2_inv s" "td_step create_2_func s t"
  shows "create_2_inv t"
proof -
  obtain b where "td_do create_2_func b s = Some t" using assms(2) by (auto simp: td_step_def)
  with assms(1) show ?thesis
    by (cases b) (auto simp: td_do_def intro: create_2_main_inv create_2_thread_inv)
qed

interpretation td2: invariant_system "\<lambda>s. s = td_start create_2_main" "td_step create_2_func" create_2_inv
  by unfold_locales (fact create_2_inv_start, fact create_2_inv_step)

section \<open>A detached thread\<close>

text \<open>
  \<^verbatim>\<open>t_pthread_attr.c\<close>: the results of the four calls; the message for the last is printed with a
  conversion that has no argument. The thread returns what it is given, and nobody joins it.
\<close>

definition attr_main :: "int \<Rightarrow> int \<Rightarrow> int \<Rightarrow> int \<Rightarrow> nat outcome" where
  "attr_main s1 s2 s3 s4 =
     (if s1 \<noteq> 0 then Exit EXIT_FAILURE
      else if s2 \<noteq> 0 then Exit EXIT_FAILURE
      else if s3 \<noteq> 0 then Exit EXIT_FAILURE
      else if s4 \<noteq> 0 then Fault
      else Return 0)"

section \<open>Values through pthread_join\<close>

text \<open>\<open>(void *) i\<close> of an \<open>int\<close> and \<open>(int) p\<close> of a pointer; \<open>strlen\<close> as a pointer.\<close>

definition join_func :: "string \<Rightarrow> size64" where
  "join_func s = of_nat (length (c_str s))"

definition join_arg :: string where "join_arg = ''Hello HeZhu'' @ [NL]"

definition join_main :: "int \<Rightarrow> int \<Rightarrow> int outcome" where
  "join_main s1 s2 =
     (if s1 \<noteq> 0 then Exit EXIT_FAILURE
      else if s2 \<noteq> 0 then Exit EXIT_FAILURE
      else Return (sint (join_func join_arg)))"

definition join2_func :: "size64 \<Rightarrow> size64" where
  "join2_func arg = (let num = int_of_ssize arg + 100 in ssize_of_int num)"

text \<open>The five threads get \<open>0\<close> to \<open>4\<close>; each line is \<open>i\<close> and what its thread returned.\<close>

definition join2_main :: "(int \<times> int) list" where
  "join2_main = map (\<lambda>i. (int i, sint (int_of_ssize (join2_func (ssize_of_int (of_nat i)))))) [0 ..< 5]"

lemma int_ssize_int: "int_of_ssize (ssize_of_int x) = x"
  unfolding int_of_ssize_def ssize_of_int_def by (rule bit_word_eqI) (simp add: bit_simps)

section \<open>Properties\<close>

text \<open>\<open>t_pthread_create_2\<close>, whose \<open>main\<close> calls \<open>pthread_exit\<close>, always prints both lines before the
  process ends; in \<open>t_pthread_create\<close>, whose \<open>main\<close> returns, there is a run in which the process ends
  and the thread has printed nothing, and in \<open>t_pthread_detach\<close> one in which it is cut off in its sleep.\<close>

lemma pthread_exit_waits:
  "(\<forall>s. reach (\<lambda>s. s = td_start create_2_main) (td_step create_2_func) s \<longrightarrow> td_ended s \<longrightarrow>
      From_Main \<in> set (td_out s) \<and> From_Thread \<in> set (td_out s)) \<and>
   (\<exists>s. reach (\<lambda>s. s = td_start create_main) (td_step create_func) s \<and> td_ended s \<and> td_out s = [From_Main]) \<and>
   (\<exists>s. reach (\<lambda>s. s = td_start detach_main) (td_step detach_func) s \<and> td_ended s \<and> td_out s = [Thread_Start])"
proof (intro conjI allI impI)
  fix s assume "reach (\<lambda>s. s = td_start create_2_main) (td_step create_2_func) s" and e: "td_ended s"
  then have "create_2_inv s" by (blast intro: td2.inv_reach)
  with e show "From_Main \<in> set (td_out s)" "From_Thread \<in> set (td_out s)"
    by (auto simp: create_2_defs)
next
  have run: "run_schedule (td_do create_func) [True, True, True, True] (td_start create_main) =
    Some \<lparr>td_main = None, td_thread = Some create_func, td_out = [From_Main], td_ended = True\<rparr>"
    by (simp add: td_do_def td_main_step_def td_start_def create_main_def)
  show "\<exists>s. reach (\<lambda>s. s = td_start create_main) (td_step create_func) s \<and> td_ended s \<and> td_out s = [From_Main]"
    by (rule exI, rule conjI [OF run_schedule_reach [OF _ _ run]]) (auto simp: td_step_def)
next
  have run: "run_schedule (td_do detach_func) [True, True, False, True, True] (td_start detach_main) =
    Some \<lparr>td_main = None, td_thread = Some [Sleep, Say Thread_End], td_out = [Thread_Start], td_ended = True\<rparr>"
    by (simp add: td_do_def td_main_step_def td_thread_step_def td_start_def detach_main_def detach_func_def)
  show "\<exists>s. reach (\<lambda>s. s = td_start detach_main) (td_step detach_func) s \<and> td_ended s \<and> td_out s = [Thread_Start]"
    by (rule exI, rule conjI [OF run_schedule_reach [OF _ _ run]]) (auto simp: td_step_def)
qed

theorem pthread_exit_waits_witness:
  "\<exists>s. reach (\<lambda>s. s = td_start create_2_main) (td_step create_2_func) s \<and> td_ended s \<and> From_Thread \<in> set (td_out s)"
proof -
  have run: "run_schedule (td_do create_2_func) [True, True, True, False, False] (td_start create_2_main) =
    Some \<lparr>td_main = None, td_thread = None, td_out = [From_Main, From_Thread], td_ended = True\<rparr>"
    by (simp add: td_do_def td_main_step_def td_thread_step_def td_start_def create_2_main_def create_2_func_def)
  have "reach (\<lambda>s. s = td_start create_2_main) (td_step create_2_func)
    \<lparr>td_main = None, td_thread = None, td_out = [From_Main, From_Thread], td_ended = True\<rparr>"
    by (rule run_schedule_reach [OF _ _ run]) (auto simp: td_step_def)
  with pthread_exit_waits show ?thesis by fastforce
qed

text \<open>An \<open>int\<close> survives the way through the pointer argument and result of a thread: thread \<open>i\<close> of
  \<open>t_pthread_join2\<close> returns \<open>i + 100\<close>, wrapped to 32 bits, for every \<open>int\<close>, and \<open>main\<close> prints 100 to
  104 in order; \<open>t_pthread_join\<close> prints 12.\<close>

lemma join_values:
  "int_of_ssize (join2_func (ssize_of_int x)) = x + 100 \<and>
   join2_main = [(0, 100), (1, 101), (2, 102), (3, 103), (4, 104)] \<and> join_main 0 0 = Return 12"
proof (intro conjI)
  show f: "int_of_ssize (join2_func (ssize_of_int x)) = x + 100" for x
    by (simp add: join2_func_def int_ssize_int)
  show "join2_main = [(0, 100), (1, 101), (2, 102), (3, 103), (4, 104)]"
    by (simp add: join2_main_def f upt_rec)
  show "join_main 0 0 = Return 12" by code_simp
qed

end
