(* ===== verification/Signals.thy ===== *)
theory Signals imports C_Text begin

text \<open>
  The programs on signals: \<^verbatim>\<open>src/abort.c\<close>, an implementation of \<open>abort()\<close>; \<^verbatim>\<open>src/simpleSuspend.c\<close>, which
  blocks three signals and looks at what is pending before and after \<open>sigsuspend\<close>;
  \<^verbatim>\<open>src/t_sigqueue.c\<close>, which sends a signal with a sequence of values; and
  \<^verbatim>\<open>src/webprogramming/killfrom.c\<close>, which kills a range of processes. Signals are their numbers.
\<close>

abbreviation SIGINT :: nat where "SIGINT \<equiv> 2"
abbreviation SIGABRT :: nat where "SIGABRT \<equiv> 6"

section \<open>abort\<close>

text \<open>What happens to a signal: the default, nothing, or a handler that returns.\<close>

datatype disposition = SIG_DFL | SIG_IGN | Handler

text \<open>
  The process as far as \<open>abort\<close> uses it: the action for SIGABRT with its \<open>sa_mask\<close>, the signals
  blocked, whether SIGABRT is pending, how often the handler has run, whether the streams are open.
\<close>

record ab_process =
  ab_disp :: disposition
  ab_mask :: "nat set"
  ab_blocked :: "nat set"
  ab_pending :: bool
  ab_handled :: nat
  ab_open :: bool

datatype ab_result = Running ab_process | Killed ab_process | Exited nat ab_process

fun ab_then :: "ab_result \<Rightarrow> (ab_process \<Rightarrow> ab_result) \<Rightarrow> ab_result" where
  "ab_then (Running p) f = f p"
| "ab_then (Killed p) f = Killed p"
| "ab_then (Exited n p) f = Exited n p"

text \<open>A pending SIGABRT that is not blocked is delivered before the system call returns.\<close>

definition deliver :: "ab_process \<Rightarrow> ab_result" where
  "deliver p =
     (if ab_pending p \<and> SIGABRT \<notin> ab_blocked p then
        (case ab_disp p of
           SIG_DFL \<Rightarrow> Killed (p\<lparr>ab_pending := False\<rparr>)
         | SIG_IGN \<Rightarrow> Running (p\<lparr>ab_pending := False\<rparr>)
         | Handler \<Rightarrow> Running (p\<lparr>ab_pending := False, ab_handled := ab_handled p + 1\<rparr>))
      else Running p)"

definition raise_abrt :: "ab_process \<Rightarrow> ab_result" where
  "raise_abrt p = deliver (p\<lparr>ab_pending := True\<rparr>)"

definition set_mask :: "nat set \<Rightarrow> ab_process \<Rightarrow> ab_result" where
  "set_mask m p = deliver (p\<lparr>ab_blocked := m\<rparr>)"

text \<open>\<open>sigaction\<close> to ignore a signal also drops it when it is pending.\<close>

definition set_action :: "disposition \<Rightarrow> ab_process \<Rightarrow> ab_process" where
  "set_action d p = p\<lparr>ab_disp := d, ab_pending := ab_pending p \<and> d \<noteq> SIG_IGN\<rparr>"

text \<open>
  Lines 19 to 58. \<open>sa\<close> is a copy of the action; \<open>closes\<close> is what \<open>fcloseall\<close> returns the first time.
  The mask that line 42 looks at is \<open>sa_mask\<close> of the handler.
\<close>

definition abort_c :: "int \<Rightarrow> ab_process \<Rightarrow> ab_result" where
  "abort_c closes p0 =
     (let mask = ab_mask p0;
          ignored = (ab_disp p0 = SIG_IGN);
          disp = (if ignored then SIG_DFL else ab_disp p0);
          p1 = (if ignored then set_action SIG_DFL p0 else p0) in
      if disp = SIG_DFL \<and> closes \<noteq> 0 then Exited EXIT_FAILURE p1
      else
        let p2 = (if disp = SIG_DFL then p1\<lparr>ab_open := False\<rparr> else p1);
            member = (SIGABRT \<in> mask);
            mask' = (if member then mask - {SIGABRT} else mask) in
        ab_then (if member then set_mask mask' p2 else Running p2) (\<lambda>p3.
        ab_then (raise_abrt p3) (\<lambda>p4.
        ab_then (set_mask mask' (set_action SIG_DFL (p4\<lparr>ab_open := False\<rparr>))) (\<lambda>p5.
        ab_then (raise_abrt p5) (\<lambda>p6. Exited 1 p6)))))"

text \<open>\<open>main\<close>: \<open>signal(SIGABRT, fa)\<close>, a line, \<open>abort\<close>, and a line that is printed when it returns.\<close>

definition abort_main :: "nat set \<Rightarrow> ab_result" where
  "abort_main blocked = abort_c 0
     \<lparr>ab_disp = Handler, ab_mask = {SIGABRT}, ab_blocked = blocked, ab_pending = False, ab_handled = 0, ab_open = True\<rparr>"

lemmas abort_simps = abort_c_def Let_def deliver_def raise_abrt_def set_mask_def set_action_def EXIT_FAILURE_def

section \<open>Pending signals\<close>



























section \<open>Sending signals\<close>

text \<open>
  \<^verbatim>\<open>t_sigqueue.c\<close> after its arguments have been read: value \<open>data + j\<close> goes to the process for each
  \<open>j\<close>. \<open>sent\<close> is the result of each \<open>sigqueue\<close>; the sum of two \<open>int\<close> must not overflow.
\<close>

function sq_loop :: "(nat \<Rightarrow> bool) \<Rightarrow> int \<Rightarrow> nat \<Rightarrow> nat \<Rightarrow> int list \<times> nat outcome" where
  "sq_loop sent data num j =
     (if j < num then
        if data + int j < 2 ^ 31 then
          if sent j then apfst (Cons (data + int j)) (sq_loop sent data num (Suc j))
          else ([], Exit EXIT_FAILURE)
        else ([], Fault)
      else ([], Exit EXIT_SUCCESS))"
  by pat_completeness auto
termination by (relation "measure (\<lambda>(sent, data, num, j). num - j)") auto

declare sq_loop.simps [simp del]

definition sq_main :: "string list \<Rightarrow> (nat \<Rightarrow> bool) \<Rightarrow> int \<Rightarrow> int \<Rightarrow> int list \<times> nat outcome" where
  "sq_main argv sent data num =
     (if length argv < 4 \<or> argv ! 1 = ''--help'' then ([], Exit EXIT_FAILURE)
      else sq_loop sent data (if length argv > 4 then nat num else 1) 0)"

lemma sq_loop_all:
  assumes "data + int num \<le> 2 ^ 31" "\<And>j. sent j" "j \<le> num"
  shows "sq_loop sent data num j = (map (\<lambda>k. data + int k) [j ..< num], Exit EXIT_SUCCESS)"
  using assms(3)
proof (induction "num - j" arbitrary: j)
  case 0
  then show ?case by (simp add: sq_loop.simps)
next
  case (Suc n)
  then have "sq_loop sent data num (Suc j) = (map (\<lambda>k. data + int k) [Suc j ..< num], Exit EXIT_SUCCESS)" by simp
  with Suc assms(1,2) show ?case
    by (subst sq_loop.simps) (simp add: upt_conv_Cons)
qed

text \<open>
  \<^verbatim>\<open>killfrom.c\<close>: the process ids it kills, in order, when its own id is \<open>self\<close>. \<open>kill(0)\<close> kills its
  own process group, so the loop ends there as at its own id.
\<close>

definition MAXPID :: int where "MAXPID = 32768"

definition kf_end :: "string list \<Rightarrow> int" where
  "kf_end argv = (if length argv = 3 \<and> sint (atoi (argv ! 2)) < MAXPID then sint (atoi (argv ! 2)) else MAXPID)"

definition kf_targets :: "int \<Rightarrow> int \<Rightarrow> int \<Rightarrow> int list" where
  "kf_targets self start end_pid =
     (let ids = [start .. end_pid]; before = takeWhile (\<lambda>i. i \<noteq> self \<and> i \<noteq> 0) ids in
      take (length before + 1) ids)"

text \<open>The result says whether the last line of \<open>main\<close> is reached.\<close>

definition kf_main :: "int \<Rightarrow> string list \<Rightarrow> int list \<times> bool" where
  "kf_main self argv =
     (if length argv < 2 then ([], False)
      else let start = sint (atoi (argv ! 1)); end_pid = kf_end argv; ids = kf_targets self start end_pid in
        (ids, self \<notin> set ids \<and> 0 \<notin> set ids))"








section \<open>Properties\<close>

text \<open>C23: This \<open>abort\<close> never returns: whatever the action for SIGABRT, its mask, the blocked signals and
  what is pending, the process is killed by the signal, or, when the streams cannot be closed and no
  handler is set, ends with status 1. A handler runs once when the signal is not blocked, but not at
  all when it is blocked and missing from the \<open>sa_mask\<close> of its handler.\<close>

theorem abort_terminates:
  "(\<exists>q. abort_c closes p = Killed q \<and>
      (ab_disp p = Handler \<and> SIGABRT \<notin> ab_blocked p \<and> \<not> ab_pending p \<longrightarrow> ab_handled q = ab_handled p + 1) \<and>
      (SIGABRT \<in> ab_blocked p \<and> SIGABRT \<notin> ab_mask p \<longrightarrow> ab_handled q = ab_handled p)) \<or>
   closes \<noteq> 0 \<and> ab_disp p \<noteq> Handler \<and> (\<exists>q. abort_c closes p = Exited 1 q)"
proof -
  obtain d m b pend n op where p: "p = \<lparr>ab_disp = d, ab_mask = m, ab_blocked = b, ab_pending = pend,
    ab_handled = n, ab_open = op\<rparr>" by (cases p)
  show ?thesis
  proof (cases d)
    case SIG_DFL
    then show ?thesis
      by (cases "closes = 0"; cases "SIGABRT \<in> m"; cases "SIGABRT \<in> b"; cases pend) (simp_all add: p abort_simps)
  next
    case SIG_IGN
    then show ?thesis
      by (cases "closes = 0"; cases "SIGABRT \<in> m"; cases "SIGABRT \<in> b"; cases pend) (simp_all add: p abort_simps)
  next
    case Handler
    then show ?thesis
      by (cases "SIGABRT \<in> m"; cases "SIGABRT \<in> b"; cases pend) (simp_all add: p abort_simps)
  qed
qed

theorem abort_terminates_witness: "\<exists>q. abort_main {SIGINT} = Killed q \<and> ab_handled q = 1"
  using abort_terminates [of 0 "\<lparr>ab_disp = Handler, ab_mask = {SIGABRT}, ab_blocked = {SIGINT}, ab_pending = False,
    ab_handled = 0, ab_open = True\<rparr>"]
  by (auto simp: abort_main_def)



text \<open>\<open>t_sigqueue\<close> sends the values \<open>data\<close>, \<open>data + 1\<close>, \<dots>, one for each signal asked for and in this
  order, and succeeds, as long as every \<open>sigqueue\<close> does and the last value is an \<open>int\<close>.\<close>

lemma sigqueue_sends:
  assumes "length argv > 4" "argv ! 1 \<noteq> ''--help''" "0 < num" "data + num \<le> 2 ^ 31" "\<And>j. sent j"
  shows "sq_main argv sent data num = (map (\<lambda>k. data + int k) [0 ..< nat num], Exit EXIT_SUCCESS)"
  using assms sq_loop_all [of data "nat num" sent 0] by (simp add: sq_main_def)

theorem sigqueue_sends_witness:
  "sq_main [''sigqueue'', ''77'', ''12'', ''5'', ''3''] (\<lambda>j. True) 5 3 = ([5, 6, 7], Exit EXIT_SUCCESS)"
  using sigqueue_sends [of "[''sigqueue'', ''77'', ''12'', ''5'', ''3'']" 3 5 "\<lambda>j. True"]
  by (simp add: numeral_eq_Suc upt_rec)

end
