(* ===== verification/Daemon.thy ===== *)
theory Daemon imports C_Text begin









section \<open>Properties\<close>



end
