(* ===== verification/Spec2Isabelle.thy ===== *)
theory Spec2Isabelle imports Prelude Systems HSocket Stream_IO Reactor_Runs Prod_Cons Polling
  Proc_Server Thread_Server Thread_Inc Multi_Join Join_Runs Clients Lock_World Cleanup Cancel_Loop
  Mutex_Demos Thread_Demos Signals Daemon begin

text \<open>
  \<^bold>\<open>Linux system programming: a verification library for the programs under \<^verbatim>\<open>src/\<close>\<close>

  The repository is a collection of C programs, each with its own \<open>main\<close>: socket servers and clients
  with the error-checking wrappers they share (\<^verbatim>\<open>src/webprogramming/\<close>, \<^verbatim>\<open>src/myEpollReactor.c\<close>), programs of
  POSIX threads that share counters under mutexes and condition variables (\<^verbatim>\<open>src/producer_consumer_model.c\<close>,
  \<^verbatim>\<open>src/prod_no_condvar.c\<close>, \<^verbatim>\<open>src/thread_*.c\<close>, \<^verbatim>\<open>src/t_pthread_*.c\<close>), and small programs on signals, record
  locks and daemons. The programs do not call one another; the library they share is \<^verbatim>\<open>HSocket.c\<close>, and the
  echo client talks to the echo server over a connection.

  \<^bold>\<open>How the code is modelled.\<close> A struct, and the variables of a program that its threads share, are a
  record; a thread or process has a program counter, a datatype with a constructor for each
  scheduling point; one step function per thread returns the state after its next action, or
  \<open>None\<close> when it is blocked or has ended. A step is one test, one access to a shared variable outside
  a lock, one system call, or one pass through a critical region. What the kernel answers, and what
  the user types, is an argument: the label of a step, or a parameter that stands for the call. A C
  function that may end the process, or do what C leaves undefined, returns an \<open>outcome\<close>; a loop
  that may not end is a \<open>partial_function (option)\<close>, so that not returning is \<open>None\<close>. Fuel is
  not used: the loops that end are structural or have a measure.

  \<^bold>\<open>The theories.\<close>
  \<^item> \<open>Prelude\<close>: C integers, \<open>errno\<close>, results of system calls, outcomes, buffers, lemmas on lists and words.
  \<^item> \<open>Systems\<close>: reachable states and schedules; the locales \<open>invariant_system\<close>, \<open>locked_system\<close> (a mutex
    and the regions it guards), \<open>bounded_system\<close> (runs that end) and \<open>refinement_system\<close> (the actions of
    a run are a trace of an abstract protocol), which the components interpret with their own initial
    states, steps and invariants.
  \<^item> \<open>HSocket\<close>, \<open>Stream_IO\<close> (\<^verbatim>\<open>webprogramming/HSocket.c\<close>): every wrapper, over a kernel that is a parameter; the
    locales \<open>byte_stream\<close> and \<open>live_stream\<close> state what a connected stream promises, and a kernel that
    follows a script of interruptions, short counts and errors interprets them. \<open>WriteN\<close> and \<open>ReadN\<close>
    move exactly what was asked; \<open>Close\<close> never reports an error.
  \<^item> \<open>Reactor\<close>, \<open>Reactor_Proofs\<close>, \<open>Reactor_Runs\<close> (\<^verbatim>\<open>myEpollReactor.c\<close>): the table \<open>Events\<close>, the tree of the kernel and the
    open descriptors; every handler, the loop of \<open>main\<close> and its start. The table and the tree agree in
    every state and no null handler is called. What the reactor does to its clients, read off
    the calls of its handlers (\<open>loop_actions\<close>), is a trace of a request-reply protocol (\<open>client_step\<close>): a
    client is admitted while there is room, a request is read before its reply is sent, and nothing
    is sent twice. A failing \<open>send\<close> ends the server, and a full
    table leaks connections.
  \<^item> \<open>Proc_Server\<close> (\<^verbatim>\<open>webprogramming/multi_processor_server.c\<close>): processes with descriptor tables, \<open>fork\<close> and the
    assignment of line 126, by which the first client is never served and a child whose client
    has gone forks without end; later clients are served.
  \<^item> \<open>Thread_Server\<close> (\<^verbatim>\<open>webprogramming/multi_thread_server.c\<close>): the slots shared by \<open>main\<close> and the workers; threads
    never share a slot, but slots are lost in a race and the server is never woken again.
  \<^item> \<open>Echo_Server\<close> (\<^verbatim>\<open>webprogramming/tcpServer.c\<close>, \<^verbatim>\<open>tcpClient.c\<close>): a whole session, and the round trip of a line,
    with the length of message from which the server writes past its buffer.
    \<open>Clients\<close> (\<^verbatim>\<open>webprogramming/tcpClient.c\<close>, \<^verbatim>\<open>client.c\<close>): the start of the clients, and the stop message followed to
    the worker of \<open>Thread_Server\<close> that receives it.
  \<^item> \<open>Prod_Cons\<close> (\<^verbatim>\<open>producer_consumer_model.c\<close>): conservation, mutual exclusion, termination within a bound,
    and the lost wake-up that leaves the consumer asleep.
  \<^item> \<open>Polling\<close> (\<^verbatim>\<open>prod_no_condvar.c\<close>): conservation for any number of threads, and what \<open>main\<close> has consumed when
    it returns, as long as the counters fit an \<open>int\<close>; the arguments for which it does not return, or
    too early.
  \<^item> \<open>Thread_Inc\<close> (\<^verbatim>\<open>thread_inc.c\<close>): the exact bounds of a counter that is incremented without a lock, and its
    value with the lock, which is twice the number of loops exactly when that fits an \<open>int\<close>.
  \<^item> \<open>Multi_Join\<close> (\<^verbatim>\<open>thread_multijoin.c\<close>), \<open>Join_Term\<close> (\<^verbatim>\<open>thread_joinTerm.c\<close>): two programs that join threads as they end;
    the array of the first is too small, so that \<open>main\<close> leaves its block before it joins anything, and
    were it large enough \<open>main\<close> would exit too early; the second is correct and never deadlocks; \<open>Join_Runs\<close> shows that its
    runs end, within 476 steps, with every thread joined.
  \<^item> \<open>Cleanup\<close> (\<^verbatim>\<open>t_thread_cleanup.c\<close>), \<open>Cancel_Loop\<close> (\<^verbatim>\<open>t_pthread_cancel.c\<close>, \<^verbatim>\<open>t_pthread_cancel2.c\<close>): cancellation
    and the handlers that run then. The block and the mutex are released, a cancellation is never
    lost, but a signal is, since \<open>main\<close> signals before it sets \<open>glob\<close>.
  \<^item> \<open>Mutex_Demos\<close> (\<^verbatim>\<open>t_pthread_mutexattr.c\<close>, \<^verbatim>\<open>t_pthread_rdlock.c\<close>): an error-checking mutex whose errors nobody
    reads, and the exclusion of readers and writers, of whom none is kept out for good.
  \<^item> \<open>Thread_Demos\<close> (\<^verbatim>\<open>t_pthread_create*.c\<close>, \<^verbatim>\<open>t_pthread_join*.c\<close>, \<^verbatim>\<open>t_pthread_attr.c\<close>, \<^verbatim>\<open>t_pthread_detach.c\<close>,
    \<^verbatim>\<open>t_pthread_equal.c\<close>): whether a thread outlives \<open>main\<close>, and the values that \<open>pthread_join\<close> returns.
  \<^item> \<open>C_Text\<close>: decimal numbers, \<open>strtol\<close>, \<open>atoi\<close>, \<open>fgets\<close>, with the round trip of a printed number.
  \<^item> \<open>Record_Locks\<close>: the table of record locks of the kernel, and the locale \<open>lock_manager\<close> that states what
    \<open>fcntl(2)\<close> promises; \<open>Lock_Programs\<close> (\<^verbatim>\<open>t_fcntl_locking.c\<close>, \<^verbatim>\<open>i_fcntl_locking.c\<close>, \<^verbatim>\<open>file_lock.c\<close>): the parsers and
    the decisions of the three programs, over \<open>fcntl\<close> as a parameter; \<open>Lock_Proofs\<close>: the two front ends
    agree on the requests both accept and differ on the rest, every outcome of a line is classified,
    and a printed request is read back; \<open>Lock_World\<close>: many processes at once, where what each
    has told its user is what the kernel holds, and no two believe in conflicting locks.
  \<^item> \<open>Signals\<close> (\<^verbatim>\<open>abort.c\<close>, \<^verbatim>\<open>simpleSuspend.c\<close>, \<^verbatim>\<open>t_sigqueue.c\<close>, \<^verbatim>\<open>webprogramming/killfrom.c\<close>): \<open>abort\<close> never returns, but may
    not run a handler; signal 0 is reported as pending; what \<^verbatim>\<open>simpleSuspend.c\<close> reports, whatever arrives and
    whenever, and when it is killed or waits instead; the values and targets of the signals sent.
  \<^item> \<open>Daemon\<close> (\<^verbatim>\<open>Daemon/daemon_1.c\<close>): the files the daemon creates.

  \<^bold>\<open>The groups of lemmas.\<close> Each component states what one step does as a rule of cases
  (\<open>producer_step_cases\<close>, \<open>dispatch_cases\<close>, \<dots>), from which the preservation of each part of the
  invariant follows on its own; an \<open>interpretation\<close> turns this into facts on all reachable states.
  \<open>lock_ok_step\<close> is the one argument that a mutex is respected, used by every component with a
  mutex. Concrete runs are computed by \<open>run_schedule\<close>. The section \<open>Properties\<close> of a theory holds its
  main theorems.

  \<^bold>\<open>Bounds.\<close> The integers of \<open>HSocket\<close> are words of 32 and 64 bits, since its wrappers convert between them.
  The \<open>int\<close> counters that grow with the arguments or without end (\<open>Polling\<close>, \<open>Thread_Inc\<close>, \<open>Mutex_Demos\<close>)
  wrap at 32 bits (\<open>wrap32\<close>); C leaves their overflow undefined, so a property that reads such a
  counter states the bound under which it does not wrap, or that it is reached. The other counters
  are integers whose range is proved (\<open>Prod_Cons\<close>, \<open>Join_Term\<close>) or fixed by an array.
  Offsets, lengths and converted numbers of the lock programs are words, and \<open>strtol\<close> clamps where
  the library does. \<open>Prod_Cons\<close> makes at most \<open>20 * TOTAL_COUNT + 11\<close> steps.

  \<^bold>\<open>What is not modelled.\<close> The text that is printed, except where a \<open>printf\<close> reads an array; the calls on
  mutexes and condition variables do not fail; \<open>epoll_ctl\<close> does not fail for lack of memory or of watches; the timing of sleeps;
  signal masks, except in \<open>Signals\<close>. Signals from outside occur only in \<open>Thread_Server\<close> and \<open>Signals\<close>;
  there a stop is a delay, and nothing arrives before a program's first call on its mask.

  The start of \<^verbatim>\<open>webprogramming/client.c\<close> passes an uninitialised value to \<open>inet_pton\<close> (line 37); whether
  that happens to be an address is an input of its model. \<^verbatim>\<open>HSocket.h\<close> holds declarations only, and
  the executables in the repository are left out. The programs of
  \<^verbatim>\<open>webprogramming\<close> are joined by what one writes and the other reads, not composed into one system
  of processes.
\<close>

end
